(* ===== verification/Prelude.thy ===== *)
theory Prelude
  imports Main "HOL-Library.Word" "HOL-Library.Multiset"
begin

text \<open>
  What every component shares: the return codes of the C code, bytes and nginx strings, the
  outcome schedule of memory allocations, bounded writes into a buffer, and the collections of
  simplification rules (\<open>model_defs\<close> for operations that are unfolded in their own component,
  \<open>frame_simps\<close> for facts about the fields an operation leaves alone).
\<close>

named_theorems model_defs
named_theorems frame_simps

section \<open>Return codes\<close>

text \<open>
  \<open>ngx_int_t\<close> results and SQLite result codes are C integers, and the code does compare one with
  the other (\<open>rc_insert != NGX_OK\<close> in \<open>thread.c\<close>), so both are \<open>int\<close>. The values are those that
  \<open>ngx_core.h\<close> and \<open>sqlite3.h\<close> document.
\<close>

abbreviation NGX_OK :: int where "NGX_OK \<equiv> 0"
abbreviation NGX_ERROR :: int where "NGX_ERROR \<equiv> -1"
abbreviation NGX_DONE :: int where "NGX_DONE \<equiv> -4"
abbreviation NGX_CONF_UNSET :: int where "NGX_CONF_UNSET \<equiv> -1"

text \<open>
  A directive handler returns \<open>NGX_CONF_OK\<close>, \<open>NGX_CONF_ERROR\<close> or a message that nginx prints.
\<close>

datatype conf_rc = Conf_ok | Conf_error | Conf_message string

section \<open>Bytes and strings\<close>

text \<open>
  Run-time values are bytes. \<open>ngx_str\<close> is the pair of a data pointer and a length as the code
  uses it: \<open>None\<close> is a NULL pointer with length 0, \<open>Some bs\<close> points to \<open>bs\<close>. Configuration text,
  table names and SQL text are HOL strings, which are lists of 8-bit characters.
\<close>

type_synonym byte = "8 word"
type_synonym bytes = "byte list"
type_synonym ngx_str = "bytes option"

abbreviation nul :: char where "nul \<equiv> CHR 0x00"

definition ascii :: "string \<Rightarrow> bytes" where
  "ascii s = map of_char s"

lemma length_ascii [simp]: "length (ascii s) = length s"
  by (simp add: ascii_def)

lemma ascii_Nil_iff [simp]: "ascii s = [] \<longleftrightarrow> s = []"
  by (simp add: ascii_def)

section \<open>Memory allocation\<close>

text \<open>
  nginx decides whether \<open>ngx_palloc\<close>, \<open>ngx_pcalloc\<close>, \<open>ngx_array_push\<close> and \<open>ngx_create_pool\<close>
  succeed. The model takes the outcomes as a schedule: each call consumes one, and a call beyond
  the schedule succeeds. A theorem for every schedule holds whatever the allocator does.
\<close>

type_synonym mem = "bool list"

fun palloc :: "mem \<Rightarrow> bool \<times> mem" where
  "palloc [] = (True, [])"
| "palloc (ok # m) = (ok, m)"

text \<open>No allocation fails.\<close>

fun ample :: "mem \<Rightarrow> bool" where
  "ample [] = True"
| "ample (ok # m) = (ok \<and> ample m)"

lemma palloc_ample [simp]: "ample m \<Longrightarrow> fst (palloc m)"
  by (cases m) auto

lemma palloc_ample_rest [simp]: "ample m \<Longrightarrow> ample (snd (palloc m))"
  by (cases m) auto

text \<open>A loop of \<open>n\<close> allocations that stops at the first failure.\<close>

fun pallocs :: "nat \<Rightarrow> mem \<Rightarrow> bool \<times> mem" where
  "pallocs 0 m = (True, m)"
| "pallocs (Suc n) m = (let (ok, m) = palloc m in if ok then pallocs n m else (False, m))"

lemma palloc_ampleE:
  assumes "ample m"
  obtains m' where "palloc m = (True, m')" and "ample m'"
  using assms by (cases m) auto

lemma pallocs_ampleE:
  assumes "ample m"
  obtains m' where "pallocs n m = (True, m')" and "ample m'"
proof -
  have "\<exists>m'. pallocs n m = (True, m') \<and> ample m'"
    using assms
  proof (induction n arbitrary: m)
    case 0
    then show ?case by simp
  next
    case (Suc n)
    obtain m1 where "palloc m = (True, m1)" and "ample m1"
      by (rule palloc_ampleE [OF Suc.prems])
    with Suc.IH [of m1] show ?case by simp
  qed
  with that show ?thesis by blast
qed

section \<open>Buffers\<close>

text \<open>
  A heap buffer is the list of its cells. A write outside it is \<open>None\<close>, so a model that returns
  \<open>Some\<close> has not touched a byte it does not own.
\<close>

definition put :: "'a list \<Rightarrow> nat \<Rightarrow> 'a list \<Rightarrow> 'a list option" where
  "put buf j s =
     (if j + length s \<le> length buf then Some (take j buf @ s @ drop (j + length s) buf)
      else None)"

lemma put_fits:
  "j + length s \<le> length buf \<Longrightarrow> put buf j s = Some (take j buf @ s @ drop (j + length s) buf)"
  by (simp add: put_def)

lemma put_overrun: "length buf < j + length s \<Longrightarrow> put buf j s = None"
  by (simp add: put_def)

lemma put_length: "put buf j s = Some buf' \<Longrightarrow> length buf' = length buf"
  by (auto simp: put_def split: if_splits)

text \<open>
  The shape in which the code fills a zeroed buffer: a written prefix, then \<open>k\<close> untouched cells.
  The rules step through a sequence of writes at the end of the prefix.
\<close>

definition filled :: "'a \<Rightarrow> 'a list \<Rightarrow> nat \<Rightarrow> 'a list" where
  "filled z w k = w @ replicate k z"

lemma zeroed_filled: "replicate k z = filled z [] k"
  by (simp add: filled_def)

lemma put_filled [simp]:
  "j = length w \<Longrightarrow> length s \<le> k \<Longrightarrow>
   put (filled z w k) j s = Some (filled z (w @ s) (k - length s))"
  by (simp add: filled_def put_def)

lemma put_filled_overrun [simp]:
  "j = length w \<Longrightarrow> k < length s \<Longrightarrow> put (filled z w k) j s = None"
  by (simp add: filled_def put_def)

lemma take_filled [simp]: "n = length w \<Longrightarrow> take n (filled z w k) = w"
  by (simp add: filled_def)

lemma nth_filled_last [simp]: "w \<noteq> [] \<Longrightarrow> filled z w k ! (length w - 1) = last w"
  by (simp add: filled_def nth_append last_conv_nth)

lemma in_filled [simp]: "x \<in> set (filled z w k) \<longleftrightarrow> x \<in> set w \<or> (x = z \<and> 0 < k)"
  by (auto simp: filled_def)

text \<open>
  How an operation that fills buffers can end without a result: \<open>Failed\<close> is the error return of the
  code (NULL or \<open>NGX_ERROR\<close>). \<open>Overrun\<close> is not a result of the code: it marks an access outside a
  buffer the code allocated, after which C promises nothing.
\<close>

datatype fault = Failed | Overrun

section \<open>The error log\<close>

text \<open>
  A line of the error log: the format of \<open>ngx_log_error\<close> and its arguments (\<open>%V\<close> and \<open>%d\<close>);
  \<open>val_text\<close> are the bytes of a value as \<open>%V\<close> prints them.
\<close>

datatype log_arg = Arg_V string | Arg_d int

type_synonym log_line = "string \<times> log_arg list"

definition val_text :: "ngx_str \<Rightarrow> string" where
  "val_text v = (case v of None \<Rightarrow> '''' | Some bs \<Rightarrow> map (\<lambda>b. char_of (unat b)) bs)"

section \<open>Lists\<close>

lemma takeWhile_replicate_end:
  "z \<notin> set xs \<Longrightarrow> takeWhile (\<lambda>c. c \<noteq> z) (xs @ replicate n z) = xs"
  by (induction xs) (cases n, auto)

lemma fold_max_ge: "x \<in> set bs \<or> x \<le> m \<Longrightarrow> x \<le> fold max bs (m::nat)"
proof (induction bs arbitrary: m)
  case (Cons b bs)
  from Cons.prems have "x \<in> set bs \<or> x \<le> max b m" by auto
  from Cons.IH [OF this] show ?case by simp
qed simp

end
