(* ===== verification/Strings.thy ===== *)
theory Strings
  imports Prelude
begin

text \<open>
  The string helpers of \<open>ngx_http_sqlitelog_util.h\<close>. They compare with C's \<open>strncmp\<close>, which stops
  at a NUL character, so equality of the macros is equality of the strings up to their first NUL.
\<close>

section \<open>The C string functions the macros use\<close>

definition c_strlen :: "string \<Rightarrow> nat" where
  "c_strlen s = length (takeWhile (\<lambda>c. c \<noteq> nul) s)"

text \<open>
  \<open>strncmp a b n = 0\<close>. A C string literal ends with a NUL, so reading past its last character
  reads a NUL.
\<close>

fun char_at_head :: "string \<Rightarrow> char" where
  "char_at_head [] = nul"
| "char_at_head (c # _) = c"

fun c_strncmp_eq :: "string \<Rightarrow> string \<Rightarrow> nat \<Rightarrow> bool" where
  "c_strncmp_eq a b 0 = True"
| "c_strncmp_eq a b (Suc n) =
     (char_at_head a = char_at_head b \<and>
      (char_at_head a = nul \<or> c_strncmp_eq (tl a) (tl b) n))"

section \<open>The macros\<close>

definition ngx_has_prefix :: "string \<Rightarrow> string \<Rightarrow> bool" where
  "ngx_has_prefix ns cs \<longleftrightarrow>
     c_strlen cs \<le> length ns \<and> c_strncmp_eq ns cs (c_strlen cs)"

definition ngx_str_eq :: "string \<Rightarrow> string \<Rightarrow> bool" where
  "ngx_str_eq s1 s2 \<longleftrightarrow> length s1 = length s2 \<and> c_strncmp_eq s1 s2 (length s1)"

definition ngx_str_eq_cs :: "string \<Rightarrow> string \<Rightarrow> bool" where
  "ngx_str_eq_cs ns cs \<longleftrightarrow> length ns = c_strlen cs \<and> c_strncmp_eq ns cs (length ns)"

definition ngx_str_is_false :: "string \<Rightarrow> bool" where
  "ngx_str_is_false ns \<longleftrightarrow>
     length ns = 0 \<or> (length ns = 1 \<and> char_at_head ns = CHR ''0'')"

section \<open>What they decide\<close>

definition upto_nul :: "string \<Rightarrow> string" where
  "upto_nul s = takeWhile (\<lambda>c. c \<noteq> nul) s"

lemma upto_nul_id: "nul \<notin> set s \<Longrightarrow> upto_nul s = s"
  by (auto simp: upto_nul_def takeWhile_eq_all_conv)

lemma c_strlen_no_nul [simp]: "nul \<notin> set s \<Longrightarrow> c_strlen s = length s"
  by (simp add: c_strlen_def upto_nul_id [unfolded upto_nul_def])

lemma c_strncmp_eq_same_length:
  "length a = length b \<Longrightarrow> c_strncmp_eq a b (length a) \<longleftrightarrow> upto_nul a = upto_nul b"
  by (induction a b rule: list_induct2) (auto simp: upto_nul_def)

lemma c_strncmp_eq_prefix:
  "nul \<notin> set cs \<Longrightarrow> length cs \<le> length ns \<Longrightarrow>
   c_strncmp_eq ns cs (length cs) \<longleftrightarrow> take (length cs) ns = cs"
proof (induction cs arbitrary: ns)
  case Nil
  then show ?case by simp
next
  case (Cons c cs)
  then obtain d ds where ns: "ns = d # ds" by (cases ns) auto
  with Cons.prems have "c_strncmp_eq ds cs (length cs) \<longleftrightarrow> take (length cs) ds = cs"
    by (intro Cons.IH) auto
  with Cons.prems ns show ?case by auto
qed

lemma ngx_str_eq_iff:
  "ngx_str_eq s t \<longleftrightarrow> length s = length t \<and> upto_nul s = upto_nul t"
  using c_strncmp_eq_same_length [of s t] by (auto simp: ngx_str_eq_def)

lemma ngx_str_eq_refl [simp]: "ngx_str_eq s s"
  by (simp add: ngx_str_eq_iff)

lemma ngx_str_eq_no_nul: "nul \<notin> set s \<Longrightarrow> nul \<notin> set t \<Longrightarrow> ngx_str_eq s t \<longleftrightarrow> s = t"
  by (auto simp: ngx_str_eq_iff upto_nul_id)

lemma ngx_str_eq_lit:
  assumes "nul \<notin> set t"
  shows "ngx_str_eq s t \<longleftrightarrow> s = t"
proof -
  have "s = t" if "length s = length t" and "upto_nul s = t"
    using that takeWhile_dropWhile_id [of "\<lambda>c. c \<noteq> nul" s] unfolding upto_nul_def
    by (metis append_Nil2 append_eq_append_conv)
  with assms show ?thesis by (auto simp: ngx_str_eq_iff upto_nul_id)
qed

lemma ngx_str_eq_cs_iff: "nul \<notin> set cs \<Longrightarrow> ngx_str_eq_cs ns cs \<longleftrightarrow> ns = cs"
  by (auto simp: ngx_str_eq_cs_def c_strncmp_eq_prefix)

lemma ngx_has_prefix_iff:
  "nul \<notin> set cs \<Longrightarrow> ngx_has_prefix ns cs \<longleftrightarrow> (\<exists>rest. ns = cs @ rest)"
  unfolding ngx_has_prefix_def
  by (auto simp: c_strncmp_eq_prefix) (metis append_take_drop_id)

lemma ngx_str_is_false_iff: "ngx_str_is_false s \<longleftrightarrow> s = '''' \<or> s = ''0''"
  by (cases s) (auto simp: ngx_str_is_false_def)

end
