(* ===== verification/Escape.thy ===== *)
theory Escape
  imports Prelude
begin

text \<open>
  \<open>ngx_http_sqlitelog_op_escape\<close> of \<open>ngx_http_sqlitelog_op.c\<close>: the bitmap of characters that are
  escaped, the counting pass (\<open>dst == NULL\<close>) and the writing pass, an unescaping function that
  is their specification, and the round trip between them.
\<close>

unbundle bit_operations_syntax

section \<open>The code\<close>

definition escape_bitmap :: "32 word list" where
  "escape_bitmap =
     [0xffffffff, 0x00000004, 0x10000000, 0x80000000,
      0xffffffff, 0xffffffff, 0xffffffff, 0xffffffff]"

definition hex_digits :: bytes where
  "hex_digits = ascii ''0123456789ABCDEF''"

text \<open>\<open>escape[*src >> 5] & (1U << (*src & 0x1f))\<close>\<close>

definition needs_escape :: "byte \<Rightarrow> bool" where
  "needs_escape c \<longleftrightarrow>
     (escape_bitmap ! unat (drop_bit 5 c)) AND push_bit (unat (c AND 0x1f)) 1 \<noteq> 0"

text \<open>The pass with \<open>dst == NULL\<close> counts, the other writes; both walk \<open>src\<close> once.\<close>

fun op_escape_count :: "bytes \<Rightarrow> nat" where
  "op_escape_count [] = 0"
| "op_escape_count (c # src) = (if needs_escape c then 1 else 0) + op_escape_count src"

fun op_escape :: "bytes \<Rightarrow> bytes" where
  "op_escape [] = []"
| "op_escape (c # src) =
     (if needs_escape c
      then of_char (CHR 0x5C) # of_char (CHR ''x'')
           # hex_digits ! unat (drop_bit 4 c) # hex_digits ! unat (c AND 0xf)
           # op_escape src
      else c # op_escape src)"

section \<open>Specification\<close>

text \<open>Reading the escaped text back: \<open>\xHH\<close> is the byte with that hexadecimal value.\<close>

definition hex_value :: "byte \<Rightarrow> nat" where
  "hex_value d = (if d \<le> of_char (CHR ''9'') then unat d - 48 else unat d - 55)"

fun unescape :: "bytes \<Rightarrow> bytes" where
  "unescape (a # b # h # l # rest) =
     (if a = 0x5c \<and> b = 0x78 then word_of_nat (16 * hex_value h + hex_value l) # unescape rest
      else a # unescape (b # h # l # rest))"
| "unescape (a # rest) = a # unescape rest"
| "unescape [] = []"

definition printable :: "byte \<Rightarrow> bool" where
  "printable c \<longleftrightarrow> 0x20 \<le> c \<and> c \<le> 0x7e \<and> c \<noteq> 0x22"

section \<open>The bitmap and the digits\<close>

lemma unat_shift: "unat (drop_bit n (c :: 'a::len word)) = unat c div 2 ^ n"
  by (subst unat_drop_bit_eq) (simp only: drop_bit_eq_div)

lemma unat_low_bits: "unat (c AND mask n) = unat c mod 2 ^ n" for c :: "'a::len word"
  by (simp only: take_bit_eq_mask [symmetric] unsigned_take_bit_eq) (simp add: take_bit_eq_mod)

lemma unat_hi3: "unat (drop_bit 5 (c::byte)) = unat c div 32"
  using unat_shift [of 5 c] by simp
lemma unat_lo5: "unat ((c::byte) AND 0x1f) = unat c mod 32"
  using unat_low_bits [of c 5] by (simp add: mask_eq_exp_minus_1)
lemma unat_hi4: "unat (drop_bit 4 (c::byte)) = unat c div 16"
  using unat_shift [of 4 c] by simp
lemma unat_lo4: "unat ((c::byte) AND 0xf) = unat c mod 16"
  using unat_low_bits [of c 4] by (simp add: mask_eq_exp_minus_1)

lemma needs_escape_bit: "needs_escape c \<longleftrightarrow> bit (escape_bitmap ! (unat c div 32)) (unat c mod 32)"
  by (simp add: needs_escape_def unat_hi3 unat_lo5 and_exp_eq_0_iff_not_bit)

lemma lt8: "k < (8::nat) \<Longrightarrow> k = 0 \<or> k = 1 \<or> k = 2 \<or> k = 3 \<or> k = 4 \<or> k = 5 \<or> k = 6 \<or> k = 7" by arith

lemma full_row: "bit (0xffffffff :: 32 word) m \<longleftrightarrow> m < 32"
proof -
  have "(0xffffffff :: 32 word) = mask 32" by (simp add: mask_eq_exp_minus_1)
  then show ?thesis by (simp only: bit_mask_iff) simp
qed
lemma row1: "bit (0x4 :: 32 word) m \<longleftrightarrow> m = 2"
proof -
  have "(0x4 :: 32 word) = 2 ^ 2" by simp
  then show ?thesis by (simp only: bit_exp_iff) auto
qed
lemma row2: "bit (0x10000000 :: 32 word) m \<longleftrightarrow> m = 28"
proof -
  have "(0x10000000 :: 32 word) = 2 ^ 28" by simp
  then show ?thesis by (simp only: bit_exp_iff) auto
qed
lemma row3: "bit (0x80000000 :: 32 word) m \<longleftrightarrow> m = 31"
proof -
  have "(0x80000000 :: 32 word) = 2 ^ 31" by simp
  then show ?thesis by (simp only: bit_exp_iff) auto
qed

lemma bitmap_row: "k < 8 \<Longrightarrow> bit (escape_bitmap ! k) m \<longleftrightarrow>
   (if k = 1 then m = 2 else if k = 2 then m = 28 else if k = 3 then m = 31 else m < 32)"
  by (drule lt8, elim disjE) (simp_all add: escape_bitmap_def full_row row1 row2 row3 del: bit_numeral_word_iff)

lemma needs_escape_nat:
  "needs_escape c \<longleftrightarrow> unat c < 0x20 \<or> unat c = 0x22 \<or> unat c = 0x5c \<or> 0x7f \<le> unat c"
proof -
  define k m where "k = unat c div 32" and "m = unat c mod 32"
  have "unat c < 2 ^ LENGTH(8)" by (rule unsigned_less)
  then have n: "unat c = 32 * k + m" and m: "m < 32" and k: "k < 8"
    by (auto simp: k_def m_def)
  have "needs_escape c \<longleftrightarrow> bit (escape_bitmap ! k) m"
    by (simp add: needs_escape_bit k_def m_def)
  with k m n lt8 [OF k] show ?thesis by (auto simp: bitmap_row)
qed

lemma needs_escape_iff:
  "needs_escape c \<longleftrightarrow> c < 0x20 \<or> c = 0x22 \<or> c = 0x5c \<or> 0x7f \<le> c"
  unfolding needs_escape_nat by (simp add: word_less_nat_alt word_le_nat_alt word_unat_eq_iff)

lemma hex_digit_value: "k < 16 \<Longrightarrow> hex_value (hex_digits ! k) = k \<and> printable (hex_digits ! k)"
proof -
  have "\<forall>k \<in> set [0..<16]. hex_value (hex_digits ! k) = k \<and> printable (hex_digits ! k)"
    by code_simp
  then show "k < 16 \<Longrightarrow> ?thesis" by simp
qed

lemma hex_roundtrip:
  "word_of_nat (16 * hex_value (hex_digits ! unat (drop_bit 4 c))
                + hex_value (hex_digits ! unat (c AND 0xf))) = (c :: byte)"
proof -
  have n: "unat c < 2 ^ LENGTH(8)" by (rule unsigned_less)
  then show ?thesis by (simp add: unat_hi4 unat_lo4 hex_digit_value)
qed
section \<open>Which bytes are escaped, and what they become\<close>

lemma of_char_backslash [simp]: "(of_char (CHR 0x5C) :: byte) = 0x5c"
  by simp

lemma of_char_x [simp]: "(of_char (CHR ''x'') :: byte) = 0x78"
  by simp

lemma not_needs_escape_printable: "\<not> needs_escape c \<Longrightarrow> printable c"
  unfolding needs_escape_nat printable_def
  by (simp add: word_le_nat_alt word_unat_eq_iff)

lemma escaped_digits_printable:
  "printable (hex_digits ! unat (drop_bit 4 (c :: byte)))"
  "printable (hex_digits ! unat ((c :: byte) AND 0xf))"
proof -
  have "unat c < 2 ^ LENGTH(8)" by (rule unsigned_less)
  then show "printable (hex_digits ! unat (drop_bit 4 c))"
    and "printable (hex_digits ! unat (c AND 0xf))"
    by (simp_all add: unat_hi4 unat_lo4 hex_digit_value)
qed

lemma unescape_plain: "a \<noteq> 0x5c \<Longrightarrow> unescape (a # rest) = a # unescape rest"
proof -
  assume "a \<noteq> 0x5c"
  then show ?thesis
    by (cases rest; cases "tl rest"; cases "tl (tl rest)") auto
qed

lemma length_op_escape: "length (op_escape s) = length s + 3 * op_escape_count s"
  by (induction s) auto

lemma op_escape_count_0: "op_escape_count s = 0 \<Longrightarrow> op_escape s = s"
  by (induction s) (auto split: if_splits)

lemma op_escape_Nil_iff [simp]: "op_escape s = [] \<longleftrightarrow> s = []"
  by (cases s) auto

text \<open>
  C17. The counting pass predicts the writing pass: the escaped text is the source plus three bytes
  for each counted character, which is the buffer length \<open>value->len + len * 3\<close> of \<open>op_getlen\<close>,
  and when nothing is counted the text is the source itself.
\<close>

theorem escape_length:
  "length (op_escape s) = length s + 3 * op_escape_count s \<and>
   (op_escape_count s = 0 \<longrightarrow> op_escape s = s)"
  by (simp add: length_op_escape op_escape_count_0)

theorem escape_length_witness:
  "op_escape_count (ascii ''a b'') = 0 \<and> op_escape (ascii ''a b'') = ascii ''a b''"
proof -
  have "op_escape_count (ascii ''a b'') = 0" by code_simp
  with escape_length [of "ascii ''a b''"] show ?thesis by simp
qed

lemma unescape_escape: "unescape (op_escape s) = s"
proof (induction s)
  case Nil
  then show ?case by simp
next
  case (Cons c s)
  then show ?case
    by (auto simp: unescape_plain hex_roundtrip [simplified] needs_escape_iff)
qed

text \<open>
  C18. Escaping loses nothing: undoing the \<open>\xHH\<close> sequences gives back the source, so different
  values have different escaped texts (as long as \<open>log_entry\<close> does not cut them).
\<close>

theorem escape_roundtrip: "unescape (op_escape s) = s \<and> (op_escape s = op_escape t) = (s = t)"
  using unescape_escape by metis

text \<open>
  C19. Escaped text holds printable ASCII only, and no double quote: control bytes, bytes above
  0x7e and the quote reach the database as \<open>\xHH\<close>. A byte is kept as it is exactly when it is
  between 0x20 and 0x7e and neither a quote nor a backslash.
\<close>

theorem escape_safe:
  "list_all printable (op_escape s) \<and>
   (needs_escape c \<longleftrightarrow> c < 0x20 \<or> c = 0x22 \<or> c = 0x5c \<or> 0x7f \<le> c)"
proof
  show "list_all printable (op_escape s)"
    by (induction s)
       (auto simp: not_needs_escape_printable escaped_digits_printable, simp_all add: printable_def)
  show "needs_escape c \<longleftrightarrow> c < 0x20 \<or> c = 0x22 \<or> c = 0x5c \<or> 0x7f \<le> c"
    by (rule needs_escape_iff)
qed

end
