(* ===== verification/Op.thy ===== *)
theory Op
  imports Strings Escape
begin

text \<open>
  The operations behind a column: \<open>ngx_http_sqlitelog_op.c\<close>, the table of specialised variables
  in \<open>ngx_http_sqlitelog_var.h\<close>, and \<open>ngx_http_sqlitelog_log_entry\<close> of
  \<open>ngx_http_sqlitelog_module.c\<close>, which calls them for every column of a request.

  nginx's own functions are parameters: the value of an indexed variable is the request's
  \<open>r_vars\<close>, and the clock, the cached time strings and the conversions of \<open>ngx_sprintf\<close> are the
  fields of \<open>ngx_env\<close>.
\<close>

section \<open>The request and nginx's environment\<close>

record vvalue =
  vv_data :: bytes
  vv_not_found :: bool
  vv_escape :: bool

text \<open>\<open>r_vars r i\<close> is \<open>ngx_http_get_indexed_variable(r, i)\<close>; \<open>None\<close> is its NULL.\<close>

record request =
  r_vars :: "nat \<Rightarrow> vvalue option"
  r_pipeline :: bool
  r_err_status :: nat
  r_status :: nat
  r_http_version :: nat
  r_sent :: int
  r_header_size :: int
  r_request_length :: int
  r_start_sec :: int
  r_start_msec :: int

record ngx_env =
  env_sec :: int
  env_msec :: int
  env_http_log_time :: bytes
  env_http_log_iso8601 :: bytes
  sprintf_O :: "int \<Rightarrow> bytes"
  sprintf_T_03M :: "int \<Rightarrow> int \<Rightarrow> bytes"
  sprintf_03ui :: "nat \<Rightarrow> bytes"

section \<open>Operations\<close>

text \<open>The function pointers of \<open>ngx_http_sqlitelog_op_t\<close> are values of these two types.\<close>

datatype getlen_fn =
  Getlen | Getlen_unescaped | Getlen_pipe | Getlen_time_local | Getlen_time_iso8601 | Getlen_status

datatype run_fn =
  Run | Run_unescaped | Run_pipe | Run_time_local | Run_time_iso8601 | Run_msec
  | Run_request_time | Run_status | Run_bytes_sent | Run_body_bytes_sent | Run_request_length

record op =
  op_getlen_pt :: getlen_fn
  op_run_pt :: run_fn
  op_index :: nat

subsection \<open>getlen\<close>

definition set_escape :: "request \<Rightarrow> nat \<Rightarrow> vvalue \<Rightarrow> bool \<Rightarrow> request" where
  "set_escape r i v b = r\<lparr>r_vars := (r_vars r)(i \<mapsto> v\<lparr>vv_escape := b\<rparr>)\<rparr>"

definition op_getlen :: "request \<Rightarrow> nat \<Rightarrow> nat \<times> request" where
  "op_getlen r index =
     (case r_vars r index of
        None \<Rightarrow> (0, r)
      | Some v \<Rightarrow>
          if vv_not_found v then (0, r)
          else let len = op_escape_count (vv_data v)
               in (length (vv_data v) + len * 3, set_escape r index v (len \<noteq> 0)))"

definition op_getlen_unescaped :: "request \<Rightarrow> nat \<Rightarrow> nat \<times> request" where
  "op_getlen_unescaped r index =
     (case r_vars r index of
        None \<Rightarrow> (0, r)
      | Some v \<Rightarrow>
          if vv_not_found v then (0, r)
          else (length (vv_data v), set_escape r index v False))"

definition op_getlen_pipe :: "request \<Rightarrow> nat \<Rightarrow> nat \<times> request" where
  "op_getlen_pipe r index = (1, r)"

definition op_getlen_time_local :: "request \<Rightarrow> nat \<Rightarrow> nat \<times> request" where
  "op_getlen_time_local r index = (length ''28/Sep/1970:12:00:00 +0600'', r)"

definition op_getlen_time_iso8601 :: "request \<Rightarrow> nat \<Rightarrow> nat \<times> request" where
  "op_getlen_time_iso8601 r index = (length ''1970-09-28T12:00:00+06:00'', r)"

definition op_getlen_status :: "request \<Rightarrow> nat \<Rightarrow> nat \<times> request" where
  "op_getlen_status r index = (3, r)"

subsection \<open>run\<close>

text \<open>
  A run function returns the bytes it writes at \<open>buf\<close>; \<open>None\<close> is the NULL that \<open>op_run\<close> returns
  without writing.
\<close>

definition op_run :: "request \<Rightarrow> op \<Rightarrow> bytes option" where
  "op_run r op =
     (case r_vars r (op_index op) of
        None \<Rightarrow> None
      | Some v \<Rightarrow>
          if vv_not_found v then None
          else if \<not> vv_escape v then Some (vv_data v)
          else Some (op_escape (vv_data v)))"

definition op_run_unescaped :: "request \<Rightarrow> op \<Rightarrow> bytes option" where
  "op_run_unescaped r op =
     (case r_vars r (op_index op) of
        None \<Rightarrow> Some []
      | Some v \<Rightarrow> if vv_not_found v then Some [] else Some (vv_data v))"

definition op_run_pipe :: "request \<Rightarrow> op \<Rightarrow> bytes option" where
  "op_run_pipe r op = Some (if r_pipeline r then ascii ''p'' else ascii ''.'')"

definition op_run_time_local :: "ngx_env \<Rightarrow> request \<Rightarrow> op \<Rightarrow> bytes option" where
  "op_run_time_local E r op = Some (env_http_log_time E)"

definition op_run_time_iso8601 :: "ngx_env \<Rightarrow> request \<Rightarrow> op \<Rightarrow> bytes option" where
  "op_run_time_iso8601 E r op = Some (env_http_log_iso8601 E)"

definition op_run_msec :: "ngx_env \<Rightarrow> request \<Rightarrow> op \<Rightarrow> bytes option" where
  "op_run_msec E r op = Some (sprintf_T_03M E (env_sec E) (env_msec E))"

definition op_run_request_time :: "ngx_env \<Rightarrow> request \<Rightarrow> op \<Rightarrow> bytes option" where
  "op_run_request_time E r op =
     (let ms = (env_sec E - r_start_sec r) * 1000 + (env_msec E - r_start_msec r);
          ms = max ms 0
      in Some (sprintf_T_03M E (ms div 1000) (ms mod 1000)))"

definition op_run_status :: "ngx_env \<Rightarrow> request \<Rightarrow> op \<Rightarrow> bytes option" where
  "op_run_status E r op =
     (let status =
            (if r_err_status r \<noteq> 0 then r_err_status r
             else if r_status r \<noteq> 0 then r_status r
             else if r_http_version r = 9 then 9
             else 0)
      in Some (sprintf_03ui E status))"

definition op_run_bytes_sent :: "ngx_env \<Rightarrow> request \<Rightarrow> op \<Rightarrow> bytes option" where
  "op_run_bytes_sent E r op = Some (sprintf_O E (r_sent r))"

definition op_run_body_bytes_sent :: "ngx_env \<Rightarrow> request \<Rightarrow> op \<Rightarrow> bytes option" where
  "op_run_body_bytes_sent E r op =
     (let length = r_sent r - r_header_size r
      in if length > 0 then Some (sprintf_O E length) else Some (ascii ''0''))"

definition op_run_request_length :: "ngx_env \<Rightarrow> request \<Rightarrow> op \<Rightarrow> bytes option" where
  "op_run_request_length E r op = Some (sprintf_O E (r_request_length r))"

text \<open>Calls through the function pointers.\<close>

fun call_getlen :: "getlen_fn \<Rightarrow> request \<Rightarrow> nat \<Rightarrow> nat \<times> request" where
  "call_getlen Getlen = op_getlen"
| "call_getlen Getlen_unescaped = op_getlen_unescaped"
| "call_getlen Getlen_pipe = op_getlen_pipe"
| "call_getlen Getlen_time_local = op_getlen_time_local"
| "call_getlen Getlen_time_iso8601 = op_getlen_time_iso8601"
| "call_getlen Getlen_status = op_getlen_status"

fun call_run :: "run_fn \<Rightarrow> ngx_env \<Rightarrow> request \<Rightarrow> op \<Rightarrow> bytes option" where
  "call_run Run E = op_run"
| "call_run Run_unescaped E = op_run_unescaped"
| "call_run Run_pipe E = op_run_pipe"
| "call_run Run_time_local E = op_run_time_local E"
| "call_run Run_time_iso8601 E = op_run_time_iso8601 E"
| "call_run Run_msec E = op_run_msec E"
| "call_run Run_request_time E = op_run_request_time E"
| "call_run Run_status E = op_run_status E"
| "call_run Run_bytes_sent E = op_run_bytes_sent E"
| "call_run Run_body_bytes_sent E = op_run_body_bytes_sent E"
| "call_run Run_request_length E = op_run_request_length E"

subsection \<open>Compiling an operation\<close>

definition sqlitelog_vars :: "(string \<times> getlen_fn \<times> run_fn) list" where
  "sqlitelog_vars =
     [(''binary_remote_addr'', Getlen_unescaped, Run_unescaped),
      (''pipe'', Getlen_pipe, Run_pipe),
      (''time_local'', Getlen_time_local, Run_time_local),
      (''time_iso8601'', Getlen_time_iso8601, Run_time_iso8601),
      (''msec'', Getlen, Run_msec),
      (''request_time'', Getlen, Run_request_time),
      (''status'', Getlen_status, Run_status),
      (''bytes_sent'', Getlen, Run_bytes_sent),
      (''body_bytes_sent'', Getlen, Run_body_bytes_sent),
      (''request_length'', Getlen, Run_request_length)]"

text \<open>
  \<open>get_index\<close> is \<open>ngx_http_get_variable_index(cf, name)\<close>. The pair \<open>fns\<close> is the two pointers
  \<open>getlen\<close> and \<open>run\<close>, both NULL at first and always set together.
\<close>

definition op_compile :: "(string \<Rightarrow> int) \<Rightarrow> string \<Rightarrow> string \<Rightarrow> op option" where
  "op_compile get_index name type =
     (let index = get_index name
      in if index = NGX_ERROR then None
         else
           let fns = map_option snd (find (\<lambda>var. ngx_str_eq name (fst var)) sqlitelog_vars);
               fns = (if ngx_str_eq_cs type ''BLOB'' then Some (Getlen_unescaped, Run_unescaped)
                      else fns);
               fns = (case fns of None \<Rightarrow> (Getlen, Run) | Some f \<Rightarrow> f)
           in Some \<lparr>op_getlen_pt = fst fns, op_run_pt = snd fns, op_index = nat index\<rparr>)"

section \<open>The log entry of a request\<close>

text \<open>
  \<open>Failed\<close> is the NULL result of \<open>ngx_http_sqlitelog_log_entry\<close>; \<open>Overrun\<close> marks a run function
  that writes beyond the \<open>buf_len + 1\<close> bytes the code allocated for it.
\<close>

definition truncate_len :: nat where
  "truncate_len = 4096"

text \<open>One iteration of the loop: push a string, get the length, allocate, run, truncate.\<close>

definition entry_field ::
  "ngx_env \<Rightarrow> request \<Rightarrow> op \<Rightarrow> mem \<Rightarrow> (fault + ngx_str) \<times> request \<times> mem" where
  "entry_field E r op m =
     (let (ok_push, m) = palloc m
      in if \<not> ok_push then (Inl Failed, r, m)
         else
           let (buf_len, r) = call_getlen (op_getlen_pt op) r (op_index op)
           in if buf_len = 0 then (Inr None, r, m)
              else
                let (ok_buf, m) = palloc m
                in if \<not> ok_buf then (Inl Failed, r, m)
                   else
                     let written = (case call_run (op_run_pt op) E r op of
                                      None \<Rightarrow> [] | Some w \<Rightarrow> w)
                     in case put (replicate (buf_len + 1) 0) 0 written of
                          None \<Rightarrow> (Inl Overrun, r, m)
                        | Some buf \<Rightarrow>
                            (Inr (Some (take (if buf_len > truncate_len then truncate_len
                                              else buf_len) buf)), r, m))"

fun entry_fields ::
  "ngx_env \<Rightarrow> request \<Rightarrow> op list \<Rightarrow> mem \<Rightarrow> (fault + ngx_str list) \<times> request \<times> mem" where
  "entry_fields E r [] m = (Inr [], r, m)"
| "entry_fields E r (op # ops) m =
     (case entry_field E r op m of
        (Inl e, r, m) \<Rightarrow> (Inl e, r, m)
      | (Inr s, r, m) \<Rightarrow>
          (case entry_fields E r ops m of
             (Inl e, r, m) \<Rightarrow> (Inl e, r, m)
           | (Inr row, r, m) \<Rightarrow> (Inr (s # row), r, m)))"

definition log_entry ::
  "ngx_env \<Rightarrow> request \<Rightarrow> op list \<Rightarrow> mem \<Rightarrow> (fault + ngx_str list) \<times> request \<times> mem" where
  "log_entry E r ops m =
     (let (ok_row, m) = palloc m
      in if \<not> ok_row then (Inl Failed, r, m) else entry_fields E r ops m)"

text \<open>A log entry has one field for each operation.\<close>

lemma entry_fields_length: "fst (entry_fields E r ops m) = Inr row \<Longrightarrow> length row = length ops"
proof (induction ops arbitrary: r m row)
  case (Cons op ops)
  then obtain s r1 m1 row1 where "entry_field E r op m = (Inr s, r1, m1)"
    and "fst (entry_fields E r1 ops m1) = Inr row1" and "row = s # row1"
    by (auto split: prod.splits sum.splits)
  with Cons.IH [of r1 m1 row1] show ?case by simp
qed simp

lemma log_entry_length: "log_entry E r ops m = (Inr row, r', m') \<Longrightarrow> length row = length ops"
  using entry_fields_length [of E r ops _ row]
  by (auto simp: log_entry_def split: prod.splits if_splits dest: arg_cong [where f = fst])

section \<open>Specification\<close>

text \<open>The bytes of a variable that is present, and the text a column logs.\<close>

definition visible :: "request \<Rightarrow> nat \<Rightarrow> bytes option" where
  "visible r i =
     (case r_vars r i of None \<Rightarrow> None
      | Some v \<Rightarrow> if vv_not_found v then None else Some (vv_data v))"

definition escaped_text :: "request \<Rightarrow> nat \<Rightarrow> bytes" where
  "escaped_text r i = (case visible r i of None \<Rightarrow> [] | Some d \<Rightarrow> op_escape d)"

definition raw_text :: "request \<Rightarrow> nat \<Rightarrow> bytes" where
  "raw_text r i = (case visible r i of None \<Rightarrow> [] | Some d \<Rightarrow> d)"

definition printed_text :: "ngx_env \<Rightarrow> request \<Rightarrow> op \<Rightarrow> bytes" where
  "printed_text E r op = (case call_run (op_run_pt op) E r op of None \<Rightarrow> [] | Some w \<Rightarrow> w)"

definition op_text :: "ngx_env \<Rightarrow> request \<Rightarrow> op \<Rightarrow> bytes" where
  "op_text E r op =
     (case op_run_pt op of
        Run \<Rightarrow> escaped_text r (op_index op)
      | Run_unescaped \<Rightarrow> raw_text r (op_index op)
      | _ \<Rightarrow> printed_text E r op)"

definition logged_value :: "bytes \<Rightarrow> ngx_str" where
  "logged_value w = (if w = [] then None else Some (take truncate_len w))"

text \<open>
  When the length function announces what the run function writes. The two generic pairs and
  \<open>$pipe\<close> always agree; the specialised ones print a fresh value into a buffer whose length was
  taken from a constant or from the value nginx had stored for the variable.
\<close>

definition op_coherent :: "ngx_env \<Rightarrow> request \<Rightarrow> op \<Rightarrow> bool" where
  "op_coherent E r op \<longleftrightarrow>
     (case op_getlen_pt op of
        Getlen \<Rightarrow> op_run_pt op \<noteq> Run_unescaped \<and> op_text E r op = escaped_text r (op_index op)
      | Getlen_unescaped \<Rightarrow> op_run_pt op = Run_unescaped
      | Getlen_pipe \<Rightarrow> op_run_pt op = Run_pipe
      | Getlen_time_local \<Rightarrow>
          op_run_pt op = Run_time_local \<and> length (env_http_log_time E) = 26
      | Getlen_time_iso8601 \<Rightarrow>
          op_run_pt op = Run_time_iso8601 \<and> length (env_http_log_iso8601 E) = 25
      | Getlen_status \<Rightarrow> op_run_pt op = Run_status \<and> length (op_text E r op) = 3)"

section \<open>Frame: an operation changes escape flags only\<close>

definition same_but_escape :: "request \<Rightarrow> request \<Rightarrow> bool" where
  "same_but_escape r r' \<longleftrightarrow>
     visible r' = visible r \<and> r'\<lparr>r_vars := r_vars r\<rparr> = r"

lemma same_but_escape_refl [simp]: "same_but_escape r r"
  by (simp add: same_but_escape_def)

lemma same_but_escape_trans:
  "same_but_escape r s \<Longrightarrow> same_but_escape s t \<Longrightarrow> same_but_escape r t"
  unfolding same_but_escape_def by (metis request.surjective request.update_convs(1))

lemma set_escape_same:
  "r_vars r i = Some v \<Longrightarrow> same_but_escape r (set_escape r i v b)"
  by (auto simp: same_but_escape_def set_escape_def visible_def fun_eq_iff)

lemma same_but_escape_fields:
  assumes "same_but_escape r s"
  shows "visible s = visible r" "r_pipeline s = r_pipeline r" "r_err_status s = r_err_status r"
    "r_status s = r_status r" "r_http_version s = r_http_version r" "r_sent s = r_sent r"
    "r_header_size s = r_header_size r" "r_request_length s = r_request_length r"
    "r_start_sec s = r_start_sec r" "r_start_msec s = r_start_msec r"
  using assms unfolding same_but_escape_def
  by (metis request.select_convs request.surjective request.update_convs(1))+

lemma op_text_same: "same_but_escape r s \<Longrightarrow> op_text E s op = op_text E r op"
  by (cases "op_run_pt op")
     (simp_all add: op_text_def escaped_text_def raw_text_def printed_text_def
        op_run_pipe_def op_run_time_local_def op_run_time_iso8601_def op_run_msec_def
        op_run_request_time_def op_run_status_def op_run_bytes_sent_def
        op_run_body_bytes_sent_def op_run_request_length_def same_but_escape_fields)

lemma escaped_text_same: "same_but_escape r s \<Longrightarrow> escaped_text s i = escaped_text r i"
  by (simp add: escaped_text_def same_but_escape_fields)

lemma op_coherent_same: "same_but_escape r s \<Longrightarrow> op_coherent E s op = op_coherent E r op"
  by (simp add: op_coherent_def op_text_same escaped_text_same cong: getlen_fn.case_cong)

lemma call_getlen_same: "same_but_escape r (snd (call_getlen g r i))"
  by (cases g)
     (auto simp: op_getlen_def op_getlen_unescaped_def op_getlen_pipe_def Let_def
        op_getlen_time_local_def op_getlen_time_iso8601_def op_getlen_status_def
        split: option.splits intro: set_escape_same)

lemma entry_field_same: "entry_field E r op m = (res, r', m') \<Longrightarrow> same_but_escape r r'"
  using call_getlen_same [of r "op_getlen_pt op" "op_index op"]
  by (auto simp: entry_field_def Let_def split: prod.splits if_splits option.splits)

section \<open>The contract between a length function and a run function\<close>

text \<open>
  What \<open>log_entry\<close> relies on: wherever \<open>good\<close> holds, the length function announces the length of
  the specified text, and the run function then writes that text. The lemma of the locale is the
  whole iteration of \<open>log_entry\<close>: the field is the text, cut at 4096 bytes, and the write stays
  inside the buffer.
\<close>

locale exact_field =
  fixes getlen :: "request \<Rightarrow> nat \<Rightarrow> nat \<times> request"
    and run :: "ngx_env \<Rightarrow> request \<Rightarrow> op \<Rightarrow> bytes option"
    and spec_text :: "ngx_env \<Rightarrow> request \<Rightarrow> op \<Rightarrow> bytes"
    and good :: "ngx_env \<Rightarrow> request \<Rightarrow> op \<Rightarrow> bool"
  assumes announces: "good E r op \<Longrightarrow> fst (getlen r (op_index op)) = length (spec_text E r op)"
    and writes: "good E r op \<Longrightarrow> spec_text E r op \<noteq> [] \<Longrightarrow>
      run E (snd (getlen r (op_index op))) op = Some (spec_text E r op)"
begin

lemma field_logged:
  assumes "call_getlen (op_getlen_pt op) = getlen" and "call_run (op_run_pt op) E = run E"
    and "good E r op" and "ample m"
  shows "fst (entry_field E r op m) = Inr (logged_value (spec_text E r op))"
proof -
  obtain n r1 where g: "getlen r (op_index op) = (n, r1)" by fastforce
  have n: "n = length (spec_text E r op)"
    using announces [OF assms(3)] g by simp
  have w: "n \<noteq> 0 \<Longrightarrow> run E r1 op = Some (spec_text E r op)"
    using writes [OF assms(3)] g n by simp
  obtain m1 where p1: "palloc m = (True, m1)" and m1: "ample m1"
    by (rule palloc_ampleE [OF assms(4)])
  obtain m2 where p2: "palloc m1 = (True, m2)"
    by (rule palloc_ampleE [OF m1])
  show ?thesis
    using w n
    by (auto simp: entry_field_def p1 p2 assms(1,2) g put_def logged_value_def min_def
        truncate_len_def Let_def split: if_splits)
qed

lemma field_in_bounds:
  assumes "call_getlen (op_getlen_pt op) = getlen" and "call_run (op_run_pt op) E = run E"
    and "good E r op"
  shows "fst (entry_field E r op m) \<noteq> Inl Overrun"
proof -
  obtain n r1 where g: "getlen r (op_index op) = (n, r1)" by fastforce
  have n: "n = length (spec_text E r op)"
    using announces [OF assms(3)] g by simp
  have w: "n \<noteq> 0 \<Longrightarrow> run E r1 op = Some (spec_text E r op)"
    using writes [OF assms(3)] g n by simp
  show ?thesis
    using w n
    by (auto simp: entry_field_def assms(1,2) g put_def Let_def
        split: if_splits prod.splits)
qed

end

interpretation generic_field: exact_field op_getlen "\<lambda>E. op_run"
  "\<lambda>E r op. escaped_text r (op_index op)" "\<lambda>E r op. True"
  by unfold_locales
     (auto simp: op_getlen_def op_run_def escaped_text_def visible_def set_escape_def
        length_op_escape op_escape_count_0 Let_def split: option.splits)

interpretation unescaped_field: exact_field op_getlen_unescaped "\<lambda>E. op_run_unescaped"
  "\<lambda>E r op. raw_text r (op_index op)" "\<lambda>E r op. True"
  by unfold_locales
     (auto simp: op_getlen_unescaped_def op_run_unescaped_def raw_text_def visible_def
        set_escape_def split: option.splits)

lemma fst_op_getlen: "fst (op_getlen r i) = length (escaped_text r i)"
  using generic_field.announces [of r "\<lparr>op_getlen_pt = Getlen, op_run_pt = Run, op_index = i\<rparr>"]
  by simp

text \<open>
  The specialised run functions with the length function they are paired with in
  \<open>ngx_http_sqlitelog_vars\<close>; \<open>op_coherent\<close> is their side condition.
\<close>

definition is_special :: "run_fn \<Rightarrow> bool" where
  "is_special f \<longleftrightarrow> f \<noteq> Run \<and> f \<noteq> Run_unescaped"

lemma special_run_same:
  "is_special (op_run_pt op) \<Longrightarrow> same_but_escape r s \<Longrightarrow>
   call_run (op_run_pt op) E s op = Some (op_text E r op)"
proof -
  assume f: "is_special (op_run_pt op)" and s: "same_but_escape r s"
  have "call_run (op_run_pt op) E s op = Some (op_text E s op)"
    using f by (cases "op_run_pt op")
      (auto simp: is_special_def op_text_def printed_text_def op_run_pipe_def
        op_run_time_local_def op_run_time_iso8601_def op_run_msec_def op_run_request_time_def
        op_run_status_def op_run_bytes_sent_def op_run_body_bytes_sent_def
        op_run_request_length_def Let_def)
  with s show ?thesis by (simp add: op_text_same)
qed

interpretation special_field: exact_field
  "\<lambda>r i. call_getlen g r i" "\<lambda>E r op. call_run f E r op" op_text
  "\<lambda>E r op. op_getlen_pt op = g \<and> op_run_pt op = f \<and> is_special f \<and> op_coherent E r op" for g f
proof unfold_locales
  fix E r op
  assume "op_getlen_pt op = g \<and> op_run_pt op = f \<and> is_special f \<and> op_coherent E r op"
  then show "fst (call_getlen g r (op_index op)) = length (op_text E r op)"
    by (cases g) (auto simp: op_coherent_def is_special_def fst_op_getlen op_getlen_pipe_def
        op_getlen_time_local_def op_getlen_time_iso8601_def op_getlen_status_def op_text_def
        printed_text_def op_run_pipe_def op_run_time_local_def op_run_time_iso8601_def)
next
  fix E r op
  assume "op_getlen_pt op = g \<and> op_run_pt op = f \<and> is_special f \<and> op_coherent E r op"
  then show "call_run f E (snd (call_getlen g r (op_index op))) op = Some (op_text E r op)"
    using special_run_same [OF _ call_getlen_same] by blast
qed

text \<open>Every coherent column satisfies one of the three contracts.\<close>

lemma coherent_cases:
  assumes "op_coherent E r op"
  obtains (generic) "op_getlen_pt op = Getlen" "op_run_pt op = Run"
  | (raw) "op_getlen_pt op = Getlen_unescaped" "op_run_pt op = Run_unescaped"
  | (special) "is_special (op_run_pt op)"
  using assms by (cases "op_getlen_pt op"; cases "op_run_pt op")
     (auto simp: op_coherent_def is_special_def)

lemma entry_field_coherent:
  assumes "op_coherent E r op" and "ample m"
  shows "fst (entry_field E r op m) = Inr (logged_value (op_text E r op))"
  using assms(1)
proof (cases rule: coherent_cases)
  case generic
  then show ?thesis
    using generic_field.field_logged [where op = op and E = E and r = r and m = m] assms(2) by (simp add: op_text_def)
next
  case raw
  then show ?thesis
    using unescaped_field.field_logged [where op = op and E = E and r = r and m = m] assms(2) by (simp add: op_text_def)
next
  case special
  then show ?thesis
    using special_field.field_logged [where op = op and g = "op_getlen_pt op" and f = "op_run_pt op"
        and E = E and r = r and m = m] assms
    by (simp add: fun_eq_iff)
qed

lemma entry_field_no_overflow:
  assumes "op_coherent E r op"
  shows "fst (entry_field E r op m) \<noteq> Inl Overrun"
  using assms
proof (cases rule: coherent_cases)
  case generic
  then show ?thesis using generic_field.field_in_bounds [where op = op and E = E and r = r and m = m] by simp
next
  case raw
  then show ?thesis using unescaped_field.field_in_bounds [where op = op and E = E and r = r and m = m] by simp
next
  case special
  then show ?thesis
    using special_field.field_in_bounds [where op = op and g = "op_getlen_pt op"
        and f = "op_run_pt op" and E = E and r = r and m = m] assms
    by (simp add: fun_eq_iff)
qed

lemma entry_field_mem: "ample m \<Longrightarrow> ample (snd (snd (entry_field E r op m)))"
  by (cases m; cases "tl m")
     (auto simp: entry_field_def Let_def split: prod.splits option.splits)

lemma entry_fields_coherent:
  "\<forall>op \<in> set ops. op_coherent E r op \<Longrightarrow> ample m \<Longrightarrow>
   fst (entry_fields E r ops m) = Inr (map (\<lambda>op. logged_value (op_text E r op)) ops)"
proof (induction ops arbitrary: r m)
  case Nil
  then show ?case by simp
next
  case (Cons op ops)
  obtain r1 m1 where f: "entry_field E r op m = (Inr (logged_value (op_text E r op)), r1, m1)"
    using entry_field_coherent [of E r op m] Cons.prems by (cases "entry_field E r op m") auto
  have s: "same_but_escape r r1" by (rule entry_field_same [OF f])
  have m1: "ample m1" using entry_field_mem [of m E r op] Cons.prems f by simp
  have "fst (entry_fields E r1 ops m1) = Inr (map (\<lambda>op. logged_value (op_text E r1 op)) ops)"
    using Cons.prems by (intro Cons.IH m1) (auto simp: op_coherent_same [OF s])
  then show ?case
    by (auto simp: f op_text_same [OF s] split: prod.splits)
qed

section \<open>Concrete inputs\<close>

text \<open>Decimal printing, to instantiate the conversions of \<open>ngx_sprintf\<close> in the examples.\<close>

fun decimal_fuel :: "nat \<Rightarrow> int \<Rightarrow> bytes" where
  "decimal_fuel 0 n = []"
| "decimal_fuel (Suc k) n =
     (if n < 10 then [word_of_int (48 + n)]
      else decimal_fuel k (n div 10) @ [word_of_int (48 + n mod 10)])"

definition decimal :: "int \<Rightarrow> bytes" where
  "decimal n = decimal_fuel 20 n"

definition example_env :: ngx_env where
  "example_env =
     \<lparr>env_sec = 100, env_msec = 7,
      env_http_log_time = ascii ''28/Sep/1970:12:00:00 +0600'',
      env_http_log_iso8601 = ascii ''1970-09-28T12:00:00+06:00'',
      sprintf_O = decimal,
      sprintf_T_03M = (\<lambda>s ms. decimal s @ ascii ''.'' @ decimal (ms div 100)
                        @ decimal (ms div 10 mod 10) @ decimal (ms mod 10)),
      sprintf_03ui = (\<lambda>n. decimal (int (n div 100)) @ decimal (int (n div 10 mod 10))
                        @ decimal (int (n mod 10)))\<rparr>"

text \<open>A request whose variables 0, 1, 2 are \<open>$request\<close>, \<open>$body_bytes_sent\<close> and a missing one.\<close>

definition example_request :: "int \<Rightarrow> request" where
  "example_request sent =
     \<lparr>r_vars = (\<lambda>_. None)(0 \<mapsto> \<lparr>vv_data = ascii ''GET /a\"'', vv_not_found = False, vv_escape = False\<rparr>,
                          1 \<mapsto> \<lparr>vv_data = ascii ''0'', vv_not_found = False, vv_escape = False\<rparr>),
      r_pipeline = False, r_err_status = 0, r_status = 200, r_http_version = 1000,
      r_sent = sent, r_header_size = 150, r_request_length = 80,
      r_start_sec = 100, r_start_msec = 5\<rparr>"

definition example_ops :: "op list" where
  "example_ops =
     [\<lparr>op_getlen_pt = Getlen, op_run_pt = Run, op_index = 0\<rparr>,
      \<lparr>op_getlen_pt = Getlen, op_run_pt = Run_body_bytes_sent, op_index = 1\<rparr>,
      \<lparr>op_getlen_pt = Getlen, op_run_pt = Run, op_index = 2\<rparr>,
      \<lparr>op_getlen_pt = Getlen_status, op_run_pt = Run_status, op_index = 3\<rparr>]"

lemma example_coherent:
  "\<forall>op \<in> set example_ops. op_coherent example_env (example_request 150) op"
proof -
  have "list_all (op_coherent example_env (example_request 150)) example_ops" by code_simp
  then show ?thesis by (simp add: list_all_iff)
qed

lemma example_entry_computed:
  "fst (log_entry example_env (example_request 150) example_ops []) \<in> range Inr"
  using entry_fields_coherent [OF example_coherent, of "[]"] by (simp add: log_entry_def)

section \<open>Properties\<close>

text \<open>
  C8. When memory is available and every column's length function announces what its run
  function writes, the log entry has one field per column, in column order; each is the column's
  text (escaped for ordinary variables, raw for BLOB columns) cut at 4096 bytes, and NULL for an
  empty or missing variable.
\<close>

theorem log_entry_exact:
  assumes "\<forall>op \<in> set ops. op_coherent E r op" and "ample m"
  shows "fst (log_entry E r ops m) = Inr (map (\<lambda>op. logged_value (op_text E r op)) ops)"
proof -
  obtain m1 where "palloc m = (True, m1)" "ample m1"
    by (rule palloc_ampleE [OF assms(2)])
  then show ?thesis
    using entry_fields_coherent [OF assms(1)] by (simp add: log_entry_def)
qed

theorem log_entry_exact_witness:
  "fst (log_entry example_env (example_request 150) example_ops []) =
     Inr [Some (ascii (''GET /a'' @ [CHR 0x5C] @ ''x22'')), Some (ascii ''0''), None, Some (ascii ''200'')]"
proof -
  have v: "map (\<lambda>op. logged_value (op_text example_env (example_request 150) op)) example_ops =
      [Some (ascii (''GET /a'' @ [CHR 0x5C] @ ''x22'')), Some (ascii ''0''), None, Some (ascii ''200'')]"
    by code_simp
  show ?thesis using log_entry_exact [OF example_coherent, of "[]"] v by simp
qed

text \<open>
  C9. Whatever the allocator and the variables do, a log entry that is returned has exactly one
  field per column, and a field that is not NULL holds between 1 and 4096 bytes.
\<close>

theorem log_entry_bounded:
  assumes "fst (log_entry E r ops m) = Inr row"
  shows "length row = length ops \<and>
    (\<forall>s \<in> set row. case s of None \<Rightarrow> True | Some w \<Rightarrow> 0 < length w \<and> length w \<le> 4096)"
proof -
  let ?ok = "\<lambda>s :: ngx_str. case s of None \<Rightarrow> True | Some w \<Rightarrow> 0 < length w \<and> length w \<le> 4096"
  have field: "fst (entry_field E r op m) = Inr s \<Longrightarrow> ?ok s" for r op m s
    by (auto simp: entry_field_def Let_def put_def truncate_len_def
        split: prod.splits if_splits option.splits)
  have "fst (entry_fields E r ops m) = Inr row \<Longrightarrow>
      length row = length ops \<and> (\<forall>s \<in> set row. ?ok s)" for r ops m row
  proof (induction ops arbitrary: r m row)
    case Nil
    then show ?case by simp
  next
    case (Cons op ops)
    obtain s r1 m1 row1 where f: "entry_field E r op m = (Inr s, r1, m1)"
      and "fst (entry_fields E r1 ops m1) = Inr row1" and row: "row = s # row1"
      using Cons.prems by (auto split: prod.splits sum.splits)
    then show ?case using Cons.IH [of r1 m1 row1] field [of r op m s] by auto
  qed
  then show ?thesis
    using assms by (auto simp: log_entry_def split: prod.splits if_splits)
qed

theorem log_entry_bounded_witness:
  "\<exists>row. fst (log_entry example_env (example_request 150) example_ops []) = Inr row
         \<and> length row = 4"
proof -
  obtain row where r: "fst (log_entry example_env (example_request 150) example_ops []) = Inr row"
    using example_entry_computed by auto
  have "length row = length example_ops"
    using log_entry_bounded [OF r] by simp
  with r show ?thesis by (auto simp: example_ops_def)
qed

text \<open>The operation prints a value anew into a buffer that was measured by the stored one.\<close>

definition printed_anew :: "op \<Rightarrow> bool" where
  "printed_anew op \<longleftrightarrow> op_getlen_pt op = Getlen \<and> is_special (op_run_pt op)"

text \<open>
  C10. Which operations of \<open>op_compile\<close> satisfy the contract of \<open>log_entry\<close>, if nginx's cached time
  strings have 26 and 25 characters and the printed status has 3: all but those of five variables,
  which nginx measures by the value it stored and prints anew (\<open>$msec\<close>, \<open>$request_time\<close>,
  \<open>$bytes_sent\<close>, \<open>$body_bytes_sent\<close> and \<open>$request_length\<close>, when the column is no BLOB). One of those
  satisfies it exactly when the new text is the one that was stored.
\<close>

theorem compiled_coherent:
  assumes "op_compile get_index name type = Some op"
    and "length (env_http_log_time E) = 26" and "length (env_http_log_iso8601 E) = 25"
    and "op_run_pt op = Run_status \<Longrightarrow> length (op_text E r op) = 3"
  shows "(op_coherent E r op \<longleftrightarrow>
      \<not> printed_anew op \<or> op_text E r op = escaped_text r (op_index op)) \<and>
    (printed_anew op \<longleftrightarrow> \<not> ngx_str_eq_cs type ''BLOB'' \<and>
      (\<exists>v\<in>{''msec'', ''request_time'', ''bytes_sent'', ''body_bytes_sent'', ''request_length''}. ngx_str_eq name v))"
proof -
  have "printed_anew op \<longleftrightarrow> \<not> ngx_str_eq_cs type ''BLOB'' \<and>
      (\<exists>v\<in>{''msec'', ''request_time'', ''bytes_sent'', ''body_bytes_sent'', ''request_length''}. ngx_str_eq name v)"
    using assms(1)
    by (auto simp: op_compile_def sqlitelog_vars_def printed_anew_def is_special_def Let_def ngx_str_eq_lit
        split: if_splits)
  moreover have "op_coherent E r op \<longleftrightarrow> \<not> printed_anew op \<or> op_text E r op = escaped_text r (op_index op)"
    using assms
    by (auto simp: op_compile_def sqlitelog_vars_def op_coherent_def op_text_def printed_anew_def is_special_def Let_def
        split: if_splits)
  ultimately show ?thesis by blast
qed

text \<open>
  \<open>$status\<close> declared with the default type compiles to the three-byte pair; \<open>$bytes_sent\<close>, which
  nginx stored when less was sent, is not coherent.
\<close>

theorem compiled_coherent_witness:
  "\<exists>op. op_compile (\<lambda>n. 3) ''status'' ''INTEGER'' = Some op \<and>
        op_coherent example_env (example_request 150) op \<and>
   (\<exists>op. op_compile (\<lambda>n. 1) ''bytes_sent'' ''INTEGER'' = Some op \<and>
        \<not> op_coherent example_env (example_request 123600) op)"
proof -
  let ?op = "\<lparr>op_getlen_pt = Getlen_status, op_run_pt = Run_status, op_index = 3\<rparr>"
  have c: "op_compile (\<lambda>n. 3) ''status'' ''INTEGER'' = Some ?op" by code_simp
  have "length (op_text example_env (example_request 150) ?op) = 3" by code_simp
  then have st: "op_coherent example_env (example_request 150) ?op"
    using compiled_coherent [OF c, of example_env "example_request 150"] by (simp add: example_env_def printed_anew_def is_special_def)
  let ?sent = "\<lparr>op_getlen_pt = Getlen, op_run_pt = Run_bytes_sent, op_index = 1\<rparr>"
  have d: "op_compile (\<lambda>n. 1) ''bytes_sent'' ''INTEGER'' = Some ?sent" by code_simp
  have "op_text example_env (example_request 123600) ?sent \<noteq> escaped_text (example_request 123600) 1" by code_simp
  then have "\<not> op_coherent example_env (example_request 123600) ?sent"
    using compiled_coherent [OF d, of example_env "example_request 123600"]
    by (simp add: example_env_def printed_anew_def is_special_def)
  with c d st show ?thesis by blast
qed

text \<open>
  C16. The buffer of a column printed by its own function is sized from the value nginx stored for
  the variable. When the fresh text is more than one byte longer than the stored one, the run
  function writes beyond the buffer: the heap block of \<open>buf_len + 1\<close> bytes is overrun.
\<close>

theorem stale_length_overflows:
  assumes "op_getlen_pt op = Getlen" and "is_special (op_run_pt op)"
    and "0 < length (escaped_text r (op_index op))"
    and "length (escaped_text r (op_index op)) + 1 < length (op_text E r op)"
    and "ample m"
  shows "fst (entry_field E r op m) = Inl Overrun"
proof -
  obtain n r1 where g: "op_getlen r (op_index op) = (n, r1)" by fastforce
  then have n: "n = length (escaped_text r (op_index op))"
    using fst_op_getlen [of r "op_index op"] by simp
  have "same_but_escape r r1"
    using call_getlen_same [of r Getlen "op_index op"] g by simp
  then have w: "call_run (op_run_pt op) E r1 op = Some (op_text E r op)"
    by (rule special_run_same [OF assms(2)])
  obtain m1 where m1: "palloc m = (True, m1)" "ample m1"
    by (rule palloc_ampleE [OF assms(5)])
  obtain m2 where "palloc m1 = (True, m2)"
    by (rule palloc_ampleE [OF m1(2)])
  with m1 show ?thesis
    using assms(1,3,4) n by (simp add: entry_field_def g w put_overrun)
qed

text \<open>
  \<open>$body_bytes_sent\<close> evaluated early, while it was still \<open>0\<close>, and logged after 123450 body bytes.
\<close>

theorem stale_length_overflows_witness:
  "fst (entry_field example_env (example_request 123600) (example_ops ! 1) []) = Inl Overrun"
proof (rule stale_length_overflows)
  show "op_getlen_pt (example_ops ! 1) = Getlen" by code_simp
  show "is_special (op_run_pt (example_ops ! 1))" by code_simp
  show "0 < length (escaped_text (example_request 123600) (op_index (example_ops ! 1)))"
    by code_simp
  show "length (escaped_text (example_request 123600) (op_index (example_ops ! 1))) + 1
      < length (op_text example_env (example_request 123600) (example_ops ! 1))"
    by code_simp
  show "ample []" by simp
qed

end
