(* ===== verification/Column.thy ===== *)
theory Column
  imports Op "HOL-Library.Monad_Syntax"
begin

text \<open>
  Columns, SQL text and formats: \<open>ngx_http_sqlitelog_col.c\<close>, \<open>ngx_http_sqlitelog_sql.c\<close> and
  \<open>ngx_http_sqlitelog_fmt.c\<close>. The SQL text is built the way the code builds it: a computed
  length, a zeroed buffer of one byte more, and writes at a moving index, each checked against
  the buffer.

  \<open>conf_api\<close> holds the functions of nginx that configuration code calls.
\<close>

section \<open>nginx's configuration interface\<close>

text \<open>
  \<open>ca_sprintf fmt args\<close> is the text \<open>ngx_sprintf\<close> writes for a format whose conversions are all
  \<open>%V\<close>.
\<close>

record conf_api =
  ca_variable_index :: "string \<Rightarrow> int"
  ca_toupper :: "char \<Rightarrow> char"
  ca_sprintf :: "string \<Rightarrow> string list \<Rightarrow> string"

text \<open>What the code relies on: \<open>%V\<close> inserts the string, and only \<open>$\<close> has the upper case \<open>$\<close>.\<close>

definition sprintf_V_law :: "(string \<Rightarrow> string list \<Rightarrow> string) \<Rightarrow> bool" where
  "sprintf_V_law f \<longleftrightarrow>
     (\<forall>a b s. CHR ''%'' \<notin> set a \<and> CHR ''%'' \<notin> set b \<longrightarrow> f (a @ ''%V'' @ b) [s] = a @ s @ b)"

definition toupper_law :: "(char \<Rightarrow> char) \<Rightarrow> bool" where
  "toupper_law f \<longleftrightarrow> (\<forall>c. f c = CHR ''$'' \<longleftrightarrow> c = CHR ''$'')"

section \<open>Columns\<close>

datatype bind_fn = Bind_text | Bind_blob

record col =
  col_name :: string
  col_type :: string
  col_op :: op
  col_bind :: bind_fn

text \<open>\<open>Inl lines\<close> is \<open>return NGX_ERROR\<close> after these lines in the error log.\<close>

definition col_init :: "conf_api \<Rightarrow> string \<Rightarrow> string \<Rightarrow> mem \<Rightarrow> (log_line list + col) \<times> mem" where
  "col_init A name type m =
     (let (ok_op, m) = palloc m
      in if \<not> ok_op then (Inl [], m)
         else case op_compile (ca_variable_index A) name type of
                None \<Rightarrow> (Inl [(''sqlitelog: failed to compile op for column \"%V\"'', [Arg_V name])], m)
              | Some op \<Rightarrow>
                  (Inr \<lparr>col_name = name, col_type = type, col_op = op,
                         col_bind = (if ngx_str_eq_cs type ''BLOB'' then Bind_blob
                                     else Bind_text)\<rparr>, m))"

section \<open>SQL text\<close>

text \<open>\<open>ngx_strlen\<close> of a buffer: reading past its end, because no NUL is left, is an overrun.\<close>

definition buf_strlen :: "string \<Rightarrow> nat option" where
  "buf_strlen buf = (if nul \<in> set buf then Some (c_strlen buf) else None)"

subsection \<open>CREATE TABLE\<close>

text \<open>The length the first loop adds, and the writes of the second; \<open>i\<close> is the loop index.\<close>

fun create_len :: "nat \<Rightarrow> nat \<Rightarrow> col list \<Rightarrow> nat" where
  "create_len i nelts [] = 0"
| "create_len i nelts (col # cols) =
     length (col_name col) + length '' '' + length (col_type col)
     + (if i < nelts - 1 then length '', '' else 0) + create_len (i + 1) nelts cols"

fun create_fill :: "nat \<Rightarrow> nat \<Rightarrow> col list \<Rightarrow> string \<Rightarrow> nat \<Rightarrow> string option" where
  "create_fill i nelts [] buf j = Some buf"
| "create_fill i nelts (col # cols) buf j = do {
     buf \<leftarrow> put buf j (col_name col);
     let j = j + length (col_name col);
     buf \<leftarrow> put buf j '' '';
     let j = j + 1;
     buf \<leftarrow> put buf j (col_type col);
     let j = j + length (col_type col);
     if i = nelts - 1 then put buf j '')''
     else do {
       buf \<leftarrow> put buf j '', '';
       create_fill (i + 1) nelts cols buf (j + 2)
     }
   }"

definition sql_create_table ::
  "conf_api \<Rightarrow> string \<Rightarrow> col list \<Rightarrow> mem \<Rightarrow> (fault + string) \<times> mem" where
  "sql_create_table A table_name columns m =
     (let sql_len = length ''CREATE TABLE IF NOT EXISTS '' + length table_name + length '' (''
                    + create_len 0 (length columns) columns + length '')'';
          buf_size = sql_len + 1;
          (ok, m) = palloc m
      in if \<not> ok then (Inl Failed, m)
         else
           (case do {
              buf \<leftarrow> put (replicate buf_size nul) 0
                       (ca_sprintf A ''CREATE TABLE IF NOT EXISTS %V ('' [table_name]);
              j \<leftarrow> buf_strlen buf;
              create_fill 0 (length columns) columns buf j
            } of
              None \<Rightarrow> (Inl Overrun, m)
            | Some buf \<Rightarrow> (Inr (take sql_len buf), m)))"

subsection \<open>INSERT\<close>

text \<open>
  \<open>sql_len\<close> is a \<open>size_t\<close>, and \<open>n - 1\<close> wraps for \<open>n = 0\<close>; \<open>buf[j-1]\<close> is read, \<open>buf[j]\<close> written.
\<close>

function insert_fill :: "string \<Rightarrow> nat \<Rightarrow> nat \<Rightarrow> nat \<Rightarrow> (string \<times> nat) option" where
  "insert_fill buf i bound j =
     (if i < bound then do {
        buf \<leftarrow> put buf j (if buf ! (j - 1) = CHR ''?'' then '','' else ''?'');
        insert_fill buf (i + 1) bound (j + 1)
      }
      else Some (buf, j))"
  by pat_completeness auto
termination
  by (relation "measure (\<lambda>(buf, i, bound, j). bound - i)") auto

declare insert_fill.simps [simp del]

definition insert_len :: "string \<Rightarrow> 64 word \<Rightarrow> 64 word" where
  "insert_len table_name n =
     of_nat (length ''INSERT INTO '') + of_nat (length table_name)
     + of_nat (length '' VALUES ('') + of_nat (length ''?'') * n
     + of_nat (length '','') * (n - 1) + of_nat (length '')'')"

definition sql_insert ::
  "conf_api \<Rightarrow> string \<Rightarrow> 64 word \<Rightarrow> mem \<Rightarrow> (fault + string) \<times> mem" where
  "sql_insert A table_name n m =
     (let sql_len = insert_len table_name n;
          buf_size = sql_len + 1;
          (ok, m) = palloc m
      in if \<not> ok then (Inl Failed, m)
         else
           (case do {
              buf \<leftarrow> put (replicate (unat buf_size) nul) 0
                       (ca_sprintf A ''INSERT INTO %V VALUES (?'' [table_name]);
              j \<leftarrow> buf_strlen buf;
              (buf, j) \<leftarrow> insert_fill buf j (unat (sql_len - 1)) j;
              put buf j '')''
            } of
              None \<Rightarrow> (Inl Overrun, m)
            | Some buf \<Rightarrow> (Inr (take (unat sql_len) buf), m)))"

section \<open>Formats\<close>

record fmt =
  fmt_name :: string
  fmt_columns :: "col list"
  fmt_sql_create :: string
  fmt_sql_insert :: string

definition fmt_col_types :: "(string \<times> string) list" where
  "fmt_col_types =
     [(''binary_remote_addr'', ''BLOB''),
      (''body_bytes_sent'', ''INTEGER''),
      (''bytes_sent'', ''INTEGER''),
      (''connection'', ''INTEGER''),
      (''connection_requests'', ''INTEGER''),
      (''connection_time'', ''REAL''),
      (''connections_active'', ''INTEGER''),
      (''connections_reading'', ''INTEGER''),
      (''connections_waiting'', ''INTEGER''),
      (''connections_writing'', ''INTEGER''),
      (''content_length'', ''INTEGER''),
      (''gzip_ratio'', ''REAL''),
      (''limit_rate'', ''INTEGER''),
      (''msec'', ''REAL''),
      (''pid'', ''INTEGER''),
      (''proxy_port'', ''INTEGER''),
      (''proxy_protocol_port'', ''INTEGER''),
      (''proxy_protocol_server_port'', ''INTEGER''),
      (''remote_port'', ''INTEGER''),
      (''request_time'', ''REAL''),
      (''server_port'', ''INTEGER''),
      (''status'', ''INTEGER'')]"

text \<open>\<open>None\<close> is the string with NULL data.\<close>

definition fmt_col_type :: "string \<Rightarrow> string option" where
  "fmt_col_type name =
     map_option snd (find (\<lambda>kv. ngx_str_eq_cs name (fst kv)) fmt_col_types)"

definition is_var :: "string \<Rightarrow> bool" where
  "is_var arg \<longleftrightarrow> char_at_head arg = CHR ''$''"

text \<open>\<open>fmt_n_variables\<close> walks the arguments with their index.\<close>

fun n_variables_from :: "nat \<Rightarrow> string list \<Rightarrow> nat" where
  "n_variables_from i [] = 0"
| "n_variables_from i (arg # args) =
     (if i \<ge> 2 \<and> length arg \<ge> 1 \<and> is_var arg then 1 else 0) + n_variables_from (i + 1) args"

definition fmt_n_variables :: "string list \<Rightarrow> nat" where
  "fmt_n_variables args = n_variables_from 0 args"

text \<open>
  The loop of \<open>fmt_init\<close> over the arguments. The type argument is upper-cased in place, so the
  next iteration sees the changed argument. \<open>value->data[0]\<close> of an empty argument is its
  terminating NUL. An error comes with the lines of the error log that go before it.
\<close>

function fmt_loop ::
  "conf_api \<Rightarrow> nat \<Rightarrow> string list \<Rightarrow> string \<Rightarrow> col list \<Rightarrow> mem
   \<Rightarrow> (fault \<times> log_line list + string \<times> col list) \<times> mem" where
  "fmt_loop A i [] table columns m = (Inr (table, columns), m)"
| "fmt_loop A i (value # rest) table columns m =
     (if i = 0 then fmt_loop A (i + 1) rest table columns m
      else if i = 1 then fmt_loop A (i + 1) rest value columns m
      else if is_var value then
        (let (ok_push, m) = palloc m
         in if \<not> ok_push then (Inl (Failed, []), m)
            else
              let name = tl value;
                  given = (case rest of [] \<Rightarrow> False
                           | next # _ \<Rightarrow> length next \<ge> 1 \<and> \<not> is_var next);
                  rest = (if given then map (ca_toupper A) (hd rest) # tl rest else rest);
                  type = (if given then hd rest
                          else case fmt_col_type name of None \<Rightarrow> ''TEXT'' | Some t \<Rightarrow> t)
              in case col_init A name type m of
                   (Inl lines, m) \<Rightarrow>
                     (Inl (Failed, lines @
                        [(''sqlitelog: failed to initialize column for variable \"%V\"'', [Arg_V value])]), m)
                 | (Inr col, m) \<Rightarrow> fmt_loop A (i + 1) rest table (columns @ [col]) m)
      else fmt_loop A (i + 1) rest table columns m)"
  by pat_completeness auto
termination
  by (relation "measure (\<lambda>(A, i, args, table, columns, m). length args)")
     (auto split: list.splits)

definition fmt_init ::
  "conf_api \<Rightarrow> string list \<Rightarrow> mem \<Rightarrow> (fault \<times> log_line list + fmt) \<times> mem" where
  "fmt_init A args m =
     (let n = fmt_n_variables args;
          (ok_columns, m) = palloc m
      in if \<not> ok_columns then (Inl (Failed, []), m)
         else case fmt_loop A 0 args [] [] m of
                (Inl e, m) \<Rightarrow> (Inl e, m)
              | (Inr (table_name, columns), m) \<Rightarrow>
                  (case sql_create_table A table_name columns m of
                     (Inl e, m) \<Rightarrow> (Inl (e, []), m)
                   | (Inr create_text, m) \<Rightarrow>
                       (case sql_insert A table_name (of_nat n) m of
                          (Inl e, m) \<Rightarrow> (Inl (e, []), m)
                        | (Inr insert_text, m) \<Rightarrow>
                            (Inr \<lparr>fmt_name = table_name, fmt_columns = columns,
                                  fmt_sql_create = create_text, fmt_sql_insert = insert_text\<rparr>,
                             m))))"

definition combined_format_elts :: "string list" where
  "combined_format_elts =
     ['''', ''combined'', ''$remote_addr'', ''$remote_user'', ''$time_local'', ''$request'',
      ''$status'', ''$body_bytes_sent'', ''$http_referer'', ''$http_user_agent'']"

definition fmt_init_combined ::
  "conf_api \<Rightarrow> mem \<Rightarrow> (fault \<times> log_line list + fmt) \<times> mem" where
  "fmt_init_combined A m =
     (let (ok_args, m) = palloc m
      in if \<not> ok_args then (Inl (Failed, []), m)
         else
           let (ok_pushes, m) = pallocs (length combined_format_elts) m
           in if \<not> ok_pushes then (Inl (Failed, []), m) else fmt_init A combined_format_elts m)"

section \<open>The SQL text specified\<close>

text \<open>The text of a list of columns, given as pairs of name and type.\<close>

definition col_text :: "string \<times> string \<Rightarrow> string" where
  "col_text nt = fst nt @ '' '' @ snd nt"

fun comma_cols :: "(string \<times> string) list \<Rightarrow> string" where
  "comma_cols [] = ''''"
| "comma_cols [nt] = col_text nt"
| "comma_cols (nt # nts) = col_text nt @ '', '' @ comma_cols nts"

definition create_text :: "string \<Rightarrow> (string \<times> string) list \<Rightarrow> string" where
  "create_text table nts =
     ''CREATE TABLE IF NOT EXISTS '' @ table @ '' ('' @ comma_cols nts @ '')''"

abbreviation name_type :: "col \<Rightarrow> string \<times> string" where
  "name_type col \<equiv> (col_name col, col_type col)"

definition placeholders :: "nat \<Rightarrow> string" where
  "placeholders n = ''?'' @ concat (replicate (n - 1) '',?'')"

definition insert_text :: "string \<Rightarrow> nat \<Rightarrow> string" where
  "insert_text table n = ''INSERT INTO '' @ table @ '' VALUES ('' @ placeholders n @ '')''"

lemma length_placeholders: "length (placeholders n) = 1 + 2 * (n - 1)"
  by (simp add: placeholders_def length_concat sum_list_replicate)

subsection \<open>CREATE TABLE\<close>

lemma create_len_text:
  "cols \<noteq> [] \<Longrightarrow> i + length cols = n \<Longrightarrow> create_len i n cols = length (comma_cols (map name_type cols))"
  by (induction cols arbitrary: i rule: induct_list012) (auto simp: col_text_def)

lemma create_fill_text:
  assumes "cols \<noteq> []" and "i + length cols = n" and "length (comma_cols (map name_type cols)) < k"
    and "j = length w"
  shows "create_fill i n cols (filled nul w k) j =
           Some (filled nul (w @ comma_cols (map name_type cols) @ '')'') (k - length (comma_cols (map name_type cols)) - 1))"
  using assms
proof (induction cols arbitrary: i j k w rule: induct_list012)
  case 1
  then show ?case by simp
next
  case (2 col)
  then show ?case by (auto simp: col_text_def Let_def)
next
  case (3 col c cols)
  let ?w = "w @ col_text (name_type col) @ '', ''"
  have fits: "length (comma_cols (map name_type (c # cols))) < k - length (col_text (name_type col)) - 2"
    and i: "i \<noteq> n - 1" and n: "i + 1 + length (c # cols) = n" and j: "j = length w"
    using "3.prems" by auto
  have "create_fill i n (col # c # cols) (filled nul w k) j =
      create_fill (i + 1) n (c # cols) (filled nul ?w (k - length (col_text (name_type col)) - 2)) (length ?w)"
    unfolding create_fill.simps(2) [of i n col "c # cols"]
    using fits i by (simp add: j col_text_def Let_def add.assoc del: create_fill.simps comma_cols.simps)
  also have "\<dots> = Some (filled nul (?w @ comma_cols (map name_type (c # cols)) @ '')'')
      (k - length (col_text (name_type col)) - 2 - length (comma_cols (map name_type (c # cols))) - 1))"
    by (rule "3.IH"(2)) (use fits n in simp_all)
  finally show ?case by simp
qed

lemma buf_strlen_filled:
  "nul \<notin> set w \<Longrightarrow> 0 < k \<Longrightarrow> buf_strlen (filled nul w k) = Some (length w)"
  by (simp add: buf_strlen_def c_strlen_def filled_def takeWhile_replicate_end)

lemma buf_strlen_full: "nul \<notin> set w \<Longrightarrow> buf_strlen (filled nul w 0) = None"
  by (simp add: buf_strlen_def filled_def)

lemma sprintf_create:
  "sprintf_V_law (ca_sprintf A) \<Longrightarrow>
   ca_sprintf A ''CREATE TABLE IF NOT EXISTS %V ('' [t] = ''CREATE TABLE IF NOT EXISTS '' @ t @ '' (''"
  unfolding sprintf_V_law_def
  by (drule spec [of _ "''CREATE TABLE IF NOT EXISTS ''"], drule spec [of _ "'' (''"]) simp

lemma sprintf_insert:
  "sprintf_V_law (ca_sprintf A) \<Longrightarrow>
   ca_sprintf A ''INSERT INTO %V VALUES (?'' [t] = ''INSERT INTO '' @ t @ '' VALUES (?''"
  unfolding sprintf_V_law_def
  by (drule spec [of _ "''INSERT INTO ''"], drule spec [of _ "'' VALUES (?''"]) simp

lemma sql_create_table_text:
  assumes "sprintf_V_law (ca_sprintf A)" and "nul \<notin> set table" and "cols \<noteq> []"
    and "palloc m = (True, m')"
  shows "sql_create_table A table cols m = (Inr (create_text table (map name_type cols)), m')"
proof -
  let ?pre = "''CREATE TABLE IF NOT EXISTS '' @ table @ '' (''"
  let ?k = "length (comma_cols (map name_type cols)) + 2"
  have k: "buf_strlen (filled nul ?pre ?k) = Some (length ?pre)"
    using assms(2) by (intro buf_strlen_filled) auto
  have f: "create_fill 0 (length cols) cols (filled nul ?pre ?k) (length ?pre) =
             Some (filled nul (?pre @ comma_cols (map name_type cols) @ '')'') 1)"
    using create_fill_text [of cols 0 "length cols" ?k "length ?pre" ?pre] assms(3) by simp
  have l: "create_len 0 (length cols) cols = length (comma_cols (map name_type cols))"
    using create_len_text assms(3) by simp
  have p: "put (replicate (length ?pre + ?k) nul) 0 ?pre = Some (filled nul ?pre ?k)"
    unfolding zeroed_filled by (subst put_filled) simp_all
  show ?thesis
    using k f p
    by (simp add: sql_create_table_def assms(4) sprintf_create [OF assms(1)] l create_text_def
        Let_def add.commute add.left_commute)
qed

subsection \<open>INSERT\<close>

lemma insert_fill_marks:
  assumes "w \<noteq> []" and "last w = CHR ''?''" and "2 * p \<le> k" and "j = length w"
  shows "insert_fill (filled nul w k) i (i + 2 * p) j =
           Some (filled nul (w @ concat (replicate p '',?'')) (k - 2 * p), j + 2 * p)"
  using assms
proof (induction p arbitrary: w k i j)
  case 0
  then show ?case by (simp add: insert_fill.simps)
next
  case (Suc p)
  let ?w = "w @ '',?''"
  have "insert_fill (filled nul w k) i (i + 2 * Suc p) j =
      insert_fill (filled nul ?w (k - 2)) (i + 2) (i + 2 + 2 * p) (j + 2)"
    using Suc.prems nth_filled_last [of w nul k] nth_filled_last [of "w @ '',''" nul "k - 1"]
    by (subst insert_fill.simps, simp, subst insert_fill.simps, simp add: numeral_2_eq_2)
  also have "\<dots> = Some (filled nul (?w @ concat (replicate p '',?'')) (k - 2 - 2 * p), j + 2 + 2 * p)"
    by (rule Suc.IH) (use Suc.prems in simp_all)
  finally show ?case by simp
qed

lemma insert_len_value:
  "insert_len table (of_nat n) = of_nat (length table + 2 * n + 21)"
  by (simp add: insert_len_def algebra_simps)

lemma sql_insert_text:
  assumes "sprintf_V_law (ca_sprintf A)" and "nul \<notin> set table" and "0 < n"
    and "length table + 2 * n + 22 < 2 ^ 64" and "palloc m = (True, m')"
  shows "sql_insert A table (of_nat n) m = (Inr (insert_text table n), m')"
proof -
  define pre where "pre = ''INSERT INTO '' @ table @ '' VALUES (?''"
  let ?l = "length table + 2 * n + 21"
  have lp: "length pre = length table + 22" and np: "nul \<notin> set pre"
    using assms(2) by (auto simp: pre_def)
  have lastp: "pre \<noteq> []" "last pre = CHR ''?''"
    by (simp_all add: pre_def)
  have u: "unat (of_nat x :: 64 word) = x" if "x < 2 ^ 64" for x
    using that by (simp add: unat_of_nat)
  have l: "unat (insert_len table (of_nat n)) = ?l"
    using assms(4) by (simp only: insert_len_value) (rule u, simp)
  have "insert_len table (of_nat n) + 1 = of_nat (?l + 1)"
    by (simp only: insert_len_value of_nat_add of_nat_1)
  then have l1: "unat (insert_len table (of_nat n) + 1) = length pre + 2 * n"
    using assms(4) by (simp only: lp) (subst u, simp_all)
  have "insert_len table (of_nat n) - 1 = of_nat (?l - 1)"
    by (simp only: insert_len_value) simp
  then have l2: "unat (insert_len table (of_nat n) - 1) = length pre + 2 * (n - 1)"
    using assms(3,4) by (simp only: lp) (subst u, simp_all)
  have k: "buf_strlen (filled nul pre (2 * n)) = Some (length pre)"
    using np assms(3) by (intro buf_strlen_filled) auto
  have f: "insert_fill (filled nul pre (2 * n)) (length pre) (length pre + 2 * (n - 1)) (length pre)
      = Some (filled nul (pre @ concat (replicate (n - 1) '',?'')) 2, length pre + 2 * (n - 1))"
    using insert_fill_marks [OF lastp, of "n - 1" "2 * n" "length pre" "length pre"] assms(3)
    by (simp add: diff_mult_distrib2)
  have lc: "length (concat (replicate (n - 1) '',?'')) = 2 * (n - 1)"
    by (simp add: length_concat sum_list_replicate)
  have l': "?l = length pre + 2 * (n - 1) + 1" using assms(3) lp by simp
  have t: "insert_text table n = pre @ concat (replicate (n - 1) '',?'') @ '')''"
    by (simp add: insert_text_def placeholders_def pre_def)
  show ?thesis
    unfolding sql_insert_def assms(5) l [unfolded l'] l1 l2 sprintf_insert [OF assms(1)] pre_def [symmetric] t
      Let_def zeroed_filled [of _ nul] prod.case
    by (simp add: k f lc del: One_nat_def)
qed

lemma sql_insert_zero:
  assumes "sprintf_V_law (ca_sprintf A)" and "nul \<notin> set table"
    and "length table + 22 < 2 ^ 64" and "palloc m = (True, m')"
  shows "sql_insert A table 0 m = (Inl Overrun, m')"
proof -
  define pre where "pre = ''INSERT INTO '' @ table @ '' VALUES (?''"
  have lp: "length pre = length table + 22" and np: "nul \<notin> set pre"
    using assms(2) by (auto simp: pre_def)
  have "insert_len table 0 + 1 = of_nat (length table + 22)"
    by (simp add: insert_len_def)
  then have l1: "unat (insert_len table 0 + 1) = length pre + 0"
    using assms(3) by (simp add: lp unat_of_nat del: of_nat_add)
  have k: "buf_strlen (filled nul pre 0) = None"
    using np by (rule buf_strlen_full)
  show ?thesis
    unfolding sql_insert_def assms(4) l1 sprintf_insert [OF assms(1)] pre_def [symmetric]
      Let_def zeroed_filled [of _ nul] prod.case
    by (simp add: k)
qed

section \<open>The columns of a format, specified\<close>

text \<open>
  A column for every argument after the table name that starts with \<open>$\<close>: its name is the rest of
  the argument, its type the next argument if that is a type, else the preset type of the
  variable, else TEXT.
\<close>

definition default_type :: "string \<Rightarrow> string" where
  "default_type name = (case fmt_col_type name of None \<Rightarrow> ''TEXT'' | Some t \<Rightarrow> t)"

definition spec_type :: "conf_api \<Rightarrow> string \<Rightarrow> string \<Rightarrow> string" where
  "spec_type A name next =
     (if next \<noteq> '''' \<and> \<not> is_var next then map (ca_toupper A) next else default_type name)"

definition spec_columns :: "conf_api \<Rightarrow> string list \<Rightarrow> (string \<times> string) list" where
  "spec_columns A args =
     map (\<lambda>(arg, next). (tl arg, spec_type A (tl arg) next))
       (filter (\<lambda>(arg, next). is_var arg) (zip args (tl args @ [''''])))"

definition column_ok :: "conf_api \<Rightarrow> col \<Rightarrow> bool" where
  "column_ok A col \<longleftrightarrow>
     op_compile (ca_variable_index A) (col_name col) (col_type col) = Some (col_op col) \<and>
     (col_bind col = Bind_blob \<longleftrightarrow> col_type col = ''BLOB'')"

lemma spec_columns_Nil [simp]: "spec_columns A [] = []"
  by (simp add: spec_columns_def)

lemma spec_columns_Cons:
  "spec_columns A (arg # rest) =
     (if is_var arg
      then [(tl arg, spec_type A (tl arg) (case rest of [] \<Rightarrow> '''' | next # _ \<Rightarrow> next))]
      else []) @ spec_columns A rest"
  by (cases rest) (auto simp: spec_columns_def)

lemma spec_columns_skip: "\<not> is_var arg \<Longrightarrow> spec_columns A (arg # rest) = spec_columns A rest"
  by (simp add: spec_columns_Cons)

lemma toupper_not_var:
  "toupper_law f \<Longrightarrow> \<not> is_var next \<Longrightarrow> next \<noteq> [] \<Longrightarrow> \<not> is_var (map f next)"
  by (cases "next") (auto simp: is_var_def toupper_law_def)

lemma col_init_ok:
  "col_init A name type m = (Inr col, m') \<Longrightarrow> column_ok A col \<and> name_type col = (name, type)"
  by (auto simp: col_init_def column_ok_def ngx_str_eq_cs_iff
      split: prod.splits if_splits option.splits)

lemma col_init_ample:
  assumes "ample m" and "ca_variable_index A name \<noteq> NGX_ERROR"
  obtains col m' where "col_init A name type m = (Inr col, m')" and "ample m'"
proof -
  obtain m' where "palloc m = (True, m')" and "ample m'" by (rule palloc_ampleE [OF assms(1)])
  moreover have "op_compile (ca_variable_index A) name type \<noteq> None"
    using assms(2) by (simp add: op_compile_def Let_def)
  ultimately show ?thesis
    using that by (auto simp: col_init_def)
qed

text \<open>One iteration of the loop for a variable, in the words of the specification.\<close>

definition arg_given :: "string list \<Rightarrow> bool" where
  "arg_given rest =
     (case rest of [] \<Rightarrow> False | next # _ \<Rightarrow> length next \<ge> 1 \<and> \<not> is_var next)"

definition upper_rest :: "conf_api \<Rightarrow> string list \<Rightarrow> string list" where
  "upper_rest A rest = (if arg_given rest then map (ca_toupper A) (hd rest) # tl rest else rest)"

definition arg_type :: "conf_api \<Rightarrow> string \<Rightarrow> string list \<Rightarrow> string" where
  "arg_type A name rest = (if arg_given rest then hd (upper_rest A rest) else default_type name)"

lemma fmt_loop_var:
  "2 \<le> i \<Longrightarrow> is_var arg \<Longrightarrow>
   fmt_loop A i (arg # rest) table columns m =
     (let (ok_push, m) = palloc m
      in if \<not> ok_push then (Inl (Failed, []), m)
         else case col_init A (tl arg) (arg_type A (tl arg) rest) m of
                (Inl lines, m) \<Rightarrow>
                  (Inl (Failed, lines @
                     [(''sqlitelog: failed to initialize column for variable \"%V\"'', [Arg_V arg])]), m)
              | (Inr col, m) \<Rightarrow> fmt_loop A (i + 1) (upper_rest A rest) table (columns @ [col]) m)"
  unfolding arg_type_def upper_rest_def arg_given_def default_type_def
  by (simp add: Let_def split: prod.splits)

lemma fmt_loop_other:
  "2 \<le> i \<Longrightarrow> \<not> is_var arg \<Longrightarrow>
   fmt_loop A i (arg # rest) table columns m = fmt_loop A (i + 1) rest table columns m"
  by simp

lemma length_upper_rest [simp]: "length (upper_rest A rest) = length rest"
  by (auto simp: upper_rest_def arg_given_def split: list.splits)

lemma spec_columns_upper_rest:
  "toupper_law (ca_toupper A) \<Longrightarrow> spec_columns A (upper_rest A rest) = spec_columns A rest"
  by (auto simp: upper_rest_def arg_given_def spec_columns_skip toupper_not_var Suc_le_eq
      split: list.splits)

lemma spec_type_arg_type:
  "spec_type A name (case rest of [] \<Rightarrow> '''' | next # _ \<Rightarrow> next) = arg_type A name rest"
  by (auto simp: arg_type_def spec_type_def upper_rest_def arg_given_def Suc_le_eq
      split: list.splits)

lemma fmt_loop_columns:
  assumes "toupper_law (ca_toupper A)" and "2 \<le> i"
    and "fmt_loop A i args table columns m = (Inr (table', columns'), m')"
    and "list_all (column_ok A) columns"
  shows "table' = table \<and> list_all (column_ok A) columns' \<and>
         map name_type columns' = map name_type columns @ spec_columns A args"
  using assms(2-4)
proof (induction "length args" arbitrary: i args columns m)
  case 0
  then show ?case by simp
next
  case (Suc k)
  then obtain arg rest where args: "args = arg # rest" and k: "k = length rest"
    by (cases args) auto
  show ?case
  proof (cases "is_var arg")
    case False
    then have "fmt_loop A (i + 1) rest table columns m = (Inr (table', columns'), m')"
      using Suc.prems by (simp add: args)
    with False show ?thesis
      using Suc.hyps(1) [OF k, of "i + 1" columns m] Suc.prems
      by (simp add: args spec_columns_skip)
  next
    case True
    then obtain m1 m2 col where
      c: "col_init A (tl arg) (arg_type A (tl arg) rest) m1 = (Inr col, m2)"
      and l: "fmt_loop A (i + 1) (upper_rest A rest) table (columns @ [col]) m2 =
                (Inr (table', columns'), m')"
      using Suc.prems
      by (auto simp: args fmt_loop_var simp del: fmt_loop.simps
          split: prod.splits if_splits sum.splits)
    have ok: "list_all (column_ok A) (columns @ [col])"
      using col_init_ok [OF c] Suc.prems by simp
    show ?thesis
      using Suc.hyps(1) [OF _ _ l ok] Suc.prems col_init_ok [OF c] True k
      by (simp add: args spec_columns_Cons spec_type_arg_type
          spec_columns_upper_rest [OF assms(1)])
  qed
qed

lemma fmt_loop_ample:
  assumes "toupper_law (ca_toupper A)" and "2 \<le> i" and "ample m"
    and "\<forall>(name, type) \<in> set (spec_columns A args). ca_variable_index A name \<noteq> NGX_ERROR"
  shows "\<exists>columns' m'. fmt_loop A i args table columns m = (Inr (table, columns'), m') \<and> ample m'"
  using assms(2-4)
proof (induction "length args" arbitrary: i args columns m)
  case 0
  then show ?case by simp
next
  case (Suc k)
  then obtain arg rest where args: "args = arg # rest" and k: "k = length rest"
    by (cases args) auto
  show ?case
  proof (cases "is_var arg")
    case False
    with Suc.hyps(1) [OF k, of "i + 1" m columns] Suc.prems show ?thesis
      by (simp add: args spec_columns_skip)
  next
    case True
    obtain m1 where m1: "palloc m = (True, m1)" "ample m1"
      by (rule palloc_ampleE [OF Suc.prems(2)])
    have idx: "ca_variable_index A (tl arg) \<noteq> NGX_ERROR"
      using Suc.prems(3) True by (simp add: args spec_columns_Cons)
    obtain col m2 where c: "col_init A (tl arg) (arg_type A (tl arg) rest) m1 = (Inr col, m2)"
      and m2: "ample m2"
      by (rule col_init_ample [OF m1(2) idx])
    have "\<exists>columns' m'. fmt_loop A (i + 1) (upper_rest A rest) table (columns @ [col]) m2 =
        (Inr (table, columns'), m') \<and> ample m'"
      using Suc.prems k m2
      by (intro Suc.hyps(1))
         (simp_all add: args spec_columns_Cons spec_columns_upper_rest [OF assms(1)])
    then show ?thesis
      using True Suc.prems(1) by (simp add: args fmt_loop_var m1 c del: fmt_loop.simps)
  qed
qed

lemma n_variables_spec:
  "2 \<le> i \<Longrightarrow> n_variables_from i args = length (spec_columns A args)"
proof (induction args arbitrary: i)
  case Nil
  then show ?case by simp
next
  case (Cons arg args)
  have "length arg \<ge> 1" if "is_var arg" using that by (cases arg) (auto simp: is_var_def)
  with Cons show ?case by (auto simp: spec_columns_Cons)
qed

lemma fmt_n_variables_spec: "fmt_n_variables (d # table # args) = length (spec_columns A args)"
  by (simp add: fmt_n_variables_def n_variables_spec [of _ _ A])

lemma fmt_init_format:
  assumes "sprintf_V_law (ca_sprintf A)" and "toupper_law (ca_toupper A)"
    and "nul \<notin> set table" and "spec_columns A args \<noteq> []"
    and "length table + 2 * length (spec_columns A args) + 22 < 2 ^ 64"
    and "\<forall>(name, type) \<in> set (spec_columns A args). ca_variable_index A name \<noteq> NGX_ERROR"
    and "ample m"
  obtains fmt m' where "fmt_init A (d # table # args) m = (Inr fmt, m')"
    and "fmt_name fmt = table"
    and "map name_type (fmt_columns fmt) = spec_columns A args"
    and "list_all (column_ok A) (fmt_columns fmt)"
    and "fmt_sql_create fmt = create_text table (spec_columns A args)"
    and "fmt_sql_insert fmt = insert_text table (length (spec_columns A args))"
proof -
  obtain m1 where m1: "palloc m = (True, m1)" "ample m1" by (rule palloc_ampleE [OF assms(7)])
  have "\<exists>cols m2. fmt_loop A 2 args table [] m1 = (Inr (table, cols), m2) \<and> ample m2"
    using fmt_loop_ample [OF assms(2) _ m1(2) assms(6)] by simp
  then obtain cols m2 where l: "fmt_loop A 2 args table [] m1 = (Inr (table, cols), m2)"
    and m2: "ample m2" by blast
  have c: "list_all (column_ok A) cols \<and> map name_type cols = spec_columns A args"
    using fmt_loop_columns [OF assms(2) _ l] by simp
  have ne: "cols \<noteq> []" using c assms(4) by auto
  obtain m3 where m3: "palloc m2 = (True, m3)" "ample m3" by (rule palloc_ampleE [OF m2])
  obtain m4 where m4: "palloc m3 = (True, m4)" by (rule palloc_ampleE [OF m3(2)])
  have "0 < length (spec_columns A args)" using assms(4) by simp
  then have i: "sql_insert A table (of_nat (length (spec_columns A args))) m3 =
      (Inr (insert_text table (length (spec_columns A args))), m4)"
    by (rule sql_insert_text [OF assms(1,3) _ assms(5) m4])
  have t: "sql_create_table A table cols m2 = (Inr (create_text table (spec_columns A args)), m3)"
    using sql_create_table_text [OF assms(1,3) ne m3(1)] c by simp
  have l0: "fmt_loop A 0 (d # table # args) [] [] m1 = (Inr (table, cols), m2)"
    using l by (simp add: numeral_2_eq_2)
  show thesis
    using c
    by (intro that [of "\<lparr>fmt_name = table, fmt_columns = cols,
          fmt_sql_create = create_text table (spec_columns A args),
          fmt_sql_insert = insert_text table (length (spec_columns A args))\<rparr>" m4])
       (simp_all add: fmt_init_def m1 l0 t i fmt_n_variables_spec [of _ _ _ A]
          del: fmt_loop.simps)
qed

section \<open>Concrete nginx functions for the examples\<close>

text \<open>A \<open>%V\<close>-only \<open>ngx_sprintf\<close> and the ASCII \<open>ngx_toupper\<close>, to instantiate the parameters.\<close>

fun expand_V :: "string \<Rightarrow> string list \<Rightarrow> string" where
  "expand_V (c # d # f) args =
     (if c = CHR ''%'' \<and> d = CHR ''V''
      then (case args of [] \<Rightarrow> [] | a # as \<Rightarrow> a @ expand_V f as)
      else c # expand_V (d # f) args)"
| "expand_V f args = f"

definition ascii_upper :: "char \<Rightarrow> char" where
  "ascii_upper c = (if 97 \<le> (of_char c :: nat) \<and> (of_char c :: nat) \<le> 122
                    then char_of ((of_char c :: nat) - 32) else c)"

definition example_conf :: conf_api where
  "example_conf = \<lparr>ca_variable_index = (\<lambda>name. if name = '''' then -1 else int (length name)),
                   ca_toupper = ascii_upper, ca_sprintf = expand_V\<rparr>"

lemma expand_V_plain: "CHR ''%'' \<notin> set f \<Longrightarrow> expand_V f args = f"
  by (induction f args rule: expand_V.induct) auto

lemma expand_V_law: "sprintf_V_law expand_V"
proof -
  have "expand_V (a @ ''%V'' @ b) [s] = a @ s @ b"
    if "CHR ''%'' \<notin> set a" and "CHR ''%'' \<notin> set b" for a b s
    using that(1)
  proof (induction a)
    case Nil
    then show ?case using that(2) by (simp add: expand_V_plain)
  next
    case (Cons c a)
    then show ?case by (cases a) auto
  qed
  then show ?thesis by (simp add: sprintf_V_law_def)
qed

lemma ascii_upper_law: "toupper_law ascii_upper"
proof -
  have "ascii_upper c = CHR ''$'' \<longleftrightarrow> c = CHR ''$''" for c
  proof (cases "97 \<le> (of_char c :: nat) \<and> (of_char c :: nat) \<le> 122")
    case True
    then have less: "(of_char c :: nat) - 32 < 256" by linarith
    have dollar: "(of_char (CHR ''$'') :: nat) = 36" by simp
    have "ascii_upper c \<noteq> CHR ''$''"
    proof
      assume "ascii_upper c = CHR ''$''"
      then have "of_char (char_of ((of_char c :: nat) - 32)) = (of_char (CHR ''$'') :: nat)"
        using True by (simp add: ascii_upper_def)
      then have "(of_char c :: nat) - 32 = 36"
        using less unfolding of_char_of dollar by (simp add: mod_less)
      with True show False by linarith
    qed
    moreover have "c \<noteq> CHR ''$''" using True by auto
    ultimately show ?thesis by simp
  next
    case False
    then show ?thesis by (auto simp: ascii_upper_def)
  qed
  then show ?thesis by (simp add: toupper_law_def)
qed

lemma example_conf_laws:
  "sprintf_V_law (ca_sprintf example_conf)" "toupper_law (ca_toupper example_conf)"
  by (simp_all add: example_conf_def expand_V_law ascii_upper_law)

definition example_args :: "string list" where
  "example_args = [''sqlitelog_format'', ''myformat'', ''$remote_addr'', ''$status'',
                   ''$request_time'', ''text'', ''$binary_remote_addr'']"

section \<open>Properties\<close>

text \<open>
  C20. The CREATE TABLE text is exactly the statement with every column's name and type in order,
  separated by commas; the computed length is the length of that text and no write leaves the
  buffer.
\<close>

theorem create_table_text:
  assumes "sprintf_V_law (ca_sprintf A)" and "nul \<notin> set table" and "cols \<noteq> []" and "ample m"
  shows "fst (sql_create_table A table cols m) =
    Inr (''CREATE TABLE IF NOT EXISTS '' @ table @ '' ('' @ comma_cols (map name_type cols) @ '')'')"
proof -
  obtain m' where "palloc m = (True, m')" by (rule palloc_ampleE [OF assms(4)])
  then show ?thesis
    using sql_create_table_text [OF assms(1-3)] by (simp add: create_text_def)
qed

theorem create_table_text_witness:
  "fst (sql_create_table example_conf ''t''
          [\<lparr>col_name = ''a'', col_type = ''TEXT'', col_op = example_ops ! 0, col_bind = Bind_text\<rparr>,
           \<lparr>col_name = ''b'', col_type = ''BLOB'', col_op = example_ops ! 0, col_bind = Bind_blob\<rparr>]
          []) = Inr ''CREATE TABLE IF NOT EXISTS t (a TEXT, b BLOB)''"
  by (subst create_table_text) (simp_all add: example_conf_laws col_text_def)

text \<open>
  C21. For \<open>n > 0\<close> columns the INSERT text has exactly \<open>n\<close> placeholders between its parentheses,
  and every write stays inside the buffer whose size was computed in 64-bit arithmetic. For
  \<open>n = 0\<close> the subtraction \<open>n - 1\<close> wraps, the buffer has no room for a NUL, and \<open>ngx_strlen\<close> reads
  past its end: the variable check of the directive is what excludes that call.
\<close>

theorem insert_statement_text:
  assumes "sprintf_V_law (ca_sprintf A)" and "nul \<notin> set table"
    and "length table + 2 * n + 22 < 2 ^ 64" and "ample m"
  shows "fst (sql_insert A table (of_nat n) m) =
    (if n = 0 then Inl Overrun
     else Inr (''INSERT INTO '' @ table @ '' VALUES (?'' @ concat (replicate (n - 1) '',?'') @ '')''))"
proof -
  obtain m' where m': "palloc m = (True, m')" by (rule palloc_ampleE [OF assms(4)])
  show ?thesis
  proof (cases "n = 0")
    case True
    then show ?thesis using sql_insert_zero [OF assms(1,2) _ m'] assms(3) by simp
  next
    case False
    then show ?thesis
      using sql_insert_text [OF assms(1,2) _ assms(3) m']
      by (simp add: insert_text_def placeholders_def)
  qed
qed

theorem insert_statement_text_witness:
  "fst (sql_insert example_conf ''t'' (of_nat 3) []) = Inr ''INSERT INTO t VALUES (?,?,?)'' \<and>
   fst (sql_insert example_conf ''t'' (of_nat 0) []) = Inl Overrun"
  using insert_statement_text [OF example_conf_laws(1), of "''t''" 3 "[]"]
    insert_statement_text [OF example_conf_laws(1), of "''t''" 0 "[]"]
  by (simp add: numeral_3_eq_3)

text \<open>
  C22. A format directive with at least one variable, all of them known to nginx, becomes a format
  whose columns are the variables in order, each with its explicit type in upper case, else its
  preset type, else TEXT; the operation of each column is compiled for that name and type, BLOB
  columns and only they bind as blobs, and the SQL texts have one column definition and one
  placeholder for each of them.
\<close>

theorem format_columns:
  assumes "sprintf_V_law (ca_sprintf A)" and "toupper_law (ca_toupper A)"
    and "nul \<notin> set table" and "spec_columns A args \<noteq> []"
    and "length table + 2 * length (spec_columns A args) + 22 < 2 ^ 64"
    and "\<forall>(name, type) \<in> set (spec_columns A args). ca_variable_index A name \<noteq> NGX_ERROR"
    and "ample m"
  shows "\<exists>fmt. fst (fmt_init A (d # table # args) m) = Inr fmt \<and>
    fmt_name fmt = table \<and>
    map name_type (fmt_columns fmt) = spec_columns A args \<and>
    list_all (column_ok A) (fmt_columns fmt) \<and>
    fmt_sql_create fmt = create_text table (spec_columns A args) \<and>
    fmt_sql_insert fmt = insert_text table (length (fmt_columns fmt))"
proof -
  obtain fmt m' where "fmt_init A (d # table # args) m = (Inr fmt, m')"
    and "fmt_name fmt = table"
    and c: "map name_type (fmt_columns fmt) = spec_columns A args"
    and "list_all (column_ok A) (fmt_columns fmt)"
    and "fmt_sql_create fmt = create_text table (spec_columns A args)"
    and "fmt_sql_insert fmt = insert_text table (length (spec_columns A args))"
    by (rule fmt_init_format [OF assms])
  moreover have "length (spec_columns A args) = length (fmt_columns fmt)"
    using arg_cong [OF c, of length] by simp
  ultimately show ?thesis by auto
qed

lemma example_args_columns:
  "spec_columns example_conf (drop 2 example_args) =
     [(''remote_addr'', ''TEXT''), (''status'', ''INTEGER''), (''request_time'', ''TEXT''),
      (''binary_remote_addr'', ''BLOB'')]"
  by code_simp

theorem format_columns_witness:
  "\<exists>fmt. fst (fmt_init example_conf example_args []) = Inr fmt \<and>
    map name_type (fmt_columns fmt) =
      [(''remote_addr'', ''TEXT''), (''status'', ''INTEGER''), (''request_time'', ''TEXT''),
       (''binary_remote_addr'', ''BLOB'')] \<and>
    fmt_sql_insert fmt = ''INSERT INTO myformat VALUES (?,?,?,?)''"
proof -
  let ?args = "drop 2 example_args"
  have "\<exists>fmt. fst (fmt_init example_conf (''sqlitelog_format'' # ''myformat'' # ?args) []) = Inr fmt \<and>
      fmt_name fmt = ''myformat'' \<and>
      map name_type (fmt_columns fmt) = spec_columns example_conf ?args \<and>
      list_all (column_ok example_conf) (fmt_columns fmt) \<and>
      fmt_sql_create fmt = create_text ''myformat'' (spec_columns example_conf ?args) \<and>
      fmt_sql_insert fmt = insert_text ''myformat'' (length (fmt_columns fmt))"
    by (rule format_columns [OF example_conf_laws])
       (simp_all add: example_args_columns, simp add: example_conf_def)
  then obtain fmt where f: "fst (fmt_init example_conf (''sqlitelog_format'' # ''myformat'' # ?args) []) = Inr fmt"
    and c: "map name_type (fmt_columns fmt) = spec_columns example_conf ?args"
    and i: "fmt_sql_insert fmt = insert_text ''myformat'' (length (fmt_columns fmt))" by blast
  have "length (fmt_columns fmt) = 4"
    using arg_cong [OF c, of length] by (simp add: example_args_columns)
  moreover have "insert_text ''myformat'' 4 = ''INSERT INTO myformat VALUES (?,?,?,?)''" by code_simp
  ultimately show ?thesis
    using f c i by (auto simp: example_args_columns) (simp add: example_args_def)
qed

text \<open>
  The predefined combined format creates the table of eight columns that the documentation
  shows, with \<open>status\<close> and \<open>body_bytes_sent\<close> as INTEGER and the rest as TEXT.
\<close>

theorem combined_format:
  assumes "sprintf_V_law (ca_sprintf A)" and "toupper_law (ca_toupper A)" and "ample m"
    and "\<forall>name. ca_variable_index A name \<noteq> NGX_ERROR"
  shows "\<exists>fmt. fst (fmt_init_combined A m) = Inr fmt \<and>
    fmt_sql_create fmt = ''CREATE TABLE IF NOT EXISTS combined (remote_addr TEXT, remote_user TEXT, time_local TEXT, request TEXT, status INTEGER, body_bytes_sent INTEGER, http_referer TEXT, http_user_agent TEXT)'' \<and>
    fmt_sql_insert fmt = ''INSERT INTO combined VALUES (?,?,?,?,?,?,?,?)''"
proof -
  let ?args = "drop 2 combined_format_elts"
  have cols: "spec_columns A ?args =
      [(''remote_addr'', ''TEXT''), (''remote_user'', ''TEXT''), (''time_local'', ''TEXT''),
       (''request'', ''TEXT''), (''status'', ''INTEGER''), (''body_bytes_sent'', ''INTEGER''),
       (''http_referer'', ''TEXT''), (''http_user_agent'', ''TEXT'')]"
    by code_simp
  obtain m1 where m1: "palloc m = (True, m1)" "ample m1" by (rule palloc_ampleE [OF assms(3)])
  obtain m2 where m2: "pallocs (length combined_format_elts) m1 = (True, m2)" "ample m2"
    by (rule pallocs_ampleE [OF m1(2)])
  obtain fmt m' where f: "fmt_init A ('''' # ''combined'' # ?args) m2 = (Inr fmt, m')"
    and c: "fmt_sql_create fmt = create_text ''combined'' (spec_columns A ?args)"
    and i: "fmt_sql_insert fmt = insert_text ''combined'' (length (spec_columns A ?args))"
    by (rule fmt_init_format [OF assms(1,2), of "''combined''" ?args m2 "''''"])
       (use assms(4) m2 in \<open>simp_all add: cols\<close>)
  have "fst (fmt_init_combined A m) = Inr fmt"
    using f by (simp add: fmt_init_combined_def m1 m2) (simp add: combined_format_elts_def)
  moreover have "fmt_sql_create fmt = ''CREATE TABLE IF NOT EXISTS combined (remote_addr TEXT, remote_user TEXT, time_local TEXT, request TEXT, status INTEGER, body_bytes_sent INTEGER, http_referer TEXT, http_user_agent TEXT)''"
    unfolding c cols by code_simp
  moreover have "fmt_sql_insert fmt = ''INSERT INTO combined VALUES (?,?,?,?,?,?,?,?)''"
    unfolding i cols by code_simp
  ultimately show ?thesis by blast
qed

theorem combined_format_witness:
  "\<exists>fmt. fst (fmt_init_combined (example_conf\<lparr>ca_variable_index := \<lambda>_. 0\<rparr>) []) = Inr fmt \<and>
    fmt_sql_insert fmt = ''INSERT INTO combined VALUES (?,?,?,?,?,?,?,?)''"
  using combined_format [of "example_conf\<lparr>ca_variable_index := \<lambda>_. 0\<rparr>" "[]"] example_conf_laws
  by (simp add: example_conf_def) blast

end
