(* ===== verification/Node.thy ===== *)
theory Node
  imports Prelude
begin

text \<open>
  Nodes of the transaction queue: \<open>ngx_http_sqlitelog_node.c\<close>. A node is three kinds of slab
  blocks: the node itself, its array of strings, and the bytes of each string that is not NULL.
  A model node is the value those blocks hold, with the address of each block; nothing writes to
  a node after it was created, so no aliasing is lost.

  The slab allocator is nginx's. It is the parameter \<open>slab\<close>: functions on a state of any type
  \<open>'p\<close>, whose documented behaviour \<open>slab_law\<close> states with the set of allocated blocks.
\<close>

section \<open>The slab allocator\<close>

record 'p slab =
  slab_calloc :: "nat \<Rightarrow> 'p \<Rightarrow> nat option \<times> 'p"
  slab_alloc :: "nat \<Rightarrow> 'p \<Rightarrow> nat option \<times> 'p"
  slab_free :: "nat \<Rightarrow> 'p \<Rightarrow> 'p"

text \<open>
  \<open>live p\<close> is the set of allocated blocks of the slab \<open>p\<close>. An allocation returns a block that was
  not allocated, or fails and leaves the set alone; freeing an allocated block removes it.
\<close>

definition alloc_law :: "('p \<Rightarrow> nat set) \<Rightarrow> (nat \<Rightarrow> 'p \<Rightarrow> nat option \<times> 'p) \<Rightarrow> bool" where
  "alloc_law live alloc \<longleftrightarrow>
     (\<forall>n p a p'. alloc n p = (Some a, p') \<longrightarrow> a \<notin> live p \<and> live p' = insert a (live p)) \<and>
     (\<forall>n p p'. alloc n p = (None, p') \<longrightarrow> live p' = live p)"

definition slab_law :: "'p slab \<Rightarrow> ('p \<Rightarrow> nat set) \<Rightarrow> bool" where
  "slab_law S live \<longleftrightarrow>
     alloc_law live (slab_calloc S) \<and> alloc_law live (slab_alloc S) \<and>
     (\<forall>p a. a \<in> live p \<longrightarrow> live (slab_free S a p) = live p - {a})"

section \<open>Nodes\<close>

record node =
  node_addr :: nat
  node_elts_addr :: nat
  node_elts :: "(nat \<times> bytes) option list"

abbreviation sizeof_ngx_str :: nat where "sizeof_ngx_str \<equiv> 16"
abbreviation sizeof_node :: nat where "sizeof_node \<equiv> 32"

text \<open>
  The loop of \<open>node_create_locked\<close>: \<open>acc\<close> is the part of the array set so far (\<open>j\<close> elements). The
  line is the one that the loop writes to the error log before it jumps to \<open>failed\<close>.
\<close>

fun node_fill ::
  "'p slab \<Rightarrow> ngx_str list \<Rightarrow> (nat \<times> bytes) option list \<Rightarrow> 'p \<Rightarrow>
   log_line option \<times> (nat \<times> bytes) option list \<times> 'p" where
  "node_fill S [] acc p = (None, acc, p)"
| "node_fill S (None # vs) acc p = node_fill S vs (acc @ [None]) p"
| "node_fill S (Some bs # vs) acc p =
     (case slab_calloc S (length bs) p of
        (None, p) \<Rightarrow>
          (Some (''sqlitelog: failed to allocate %d bytes for node data \"%V\"'',
             [Arg_d (int (length bs)), Arg_V (val_text (Some bs))]), acc, p)
      | (Some a, p) \<Rightarrow> node_fill S vs (acc @ [Some (a, bs)]) p)"

text \<open>The loop that frees the data of the strings, in the error path and in \<open>node_destroy_locked\<close>.\<close>

fun free_elts :: "'p slab \<Rightarrow> (nat \<times> bytes) option list \<Rightarrow> 'p \<Rightarrow> 'p" where
  "free_elts S [] p = p"
| "free_elts S (None # es) p = free_elts S es p"
| "free_elts S (Some (a, _) # es) p = free_elts S es (slab_free S a p)"

text \<open>\<open>Inl line\<close> is \<open>return NULL\<close> after this line in the error log.\<close>

definition node_create :: "'p slab \<Rightarrow> ngx_str list \<Rightarrow> 'p \<Rightarrow> (log_line + node) \<times> 'p" where
  "node_create S vals p =
     (let node_elts_size = length vals * sizeof_ngx_str
      in case slab_calloc S node_elts_size p of
           (None, p) \<Rightarrow>
             (Inl (''sqlitelog: failed to allocate %d bytes for node elements'', [Arg_d (int node_elts_size)]), p)
         | (Some arr, p) \<Rightarrow>
             (case node_fill S vals [] p of
                (Some line, es, p) \<Rightarrow> (Inl line, slab_free S arr (free_elts S es p))
              | (None, es, p) \<Rightarrow>
                  (case slab_alloc S sizeof_node p of
                     (None, p) \<Rightarrow>
                       (Inl (''sqlitelog: failed to allocate node structure'', []), slab_free S arr (free_elts S es p))
                   | (Some nd, p) \<Rightarrow>
                       (Inr \<lparr>node_addr = nd, node_elts_addr = arr, node_elts = es\<rparr>, p))))"

definition node_destroy :: "'p slab \<Rightarrow> node \<Rightarrow> 'p \<Rightarrow> 'p" where
  "node_destroy S n p =
     slab_free S (node_addr n) (slab_free S (node_elts_addr n) (free_elts S (node_elts n) p))"

section \<open>What a node owns and what it holds\<close>

definition node_entry :: "node \<Rightarrow> ngx_str list" where
  "node_entry n = map (map_option snd) (node_elts n)"

fun data_blocks :: "(nat \<times> bytes) option list \<Rightarrow> nat list" where
  "data_blocks [] = []"
| "data_blocks (None # es) = data_blocks es"
| "data_blocks (Some (a, _) # es) = a # data_blocks es"

definition node_blocks :: "node \<Rightarrow> nat list" where
  "node_blocks n = node_addr n # node_elts_addr n # data_blocks (node_elts n)"

lemma data_blocks_append [simp]: "data_blocks (es @ fs) = data_blocks es @ data_blocks fs"
  by (induction es rule: data_blocks.induct) auto

lemma node_addr_in_blocks [simp]: "node_addr n \<in> set (node_blocks n)"
  by (simp add: node_blocks_def)

lemma slab_calloc_law:
  assumes "slab_law S live"
  shows "slab_calloc S k p = (Some a, p') \<Longrightarrow> a \<notin> live p \<and> live p' = insert a (live p)"
    and "slab_calloc S k p = (None, p') \<Longrightarrow> live p' = live p"
  using assms by (auto simp: slab_law_def alloc_law_def)

lemma slab_alloc_law:
  assumes "slab_law S live"
  shows "slab_alloc S k p = (Some a, p') \<Longrightarrow> a \<notin> live p \<and> live p' = insert a (live p)"
    and "slab_alloc S k p = (None, p') \<Longrightarrow> live p' = live p"
  using assms by (auto simp: slab_law_def alloc_law_def)

lemma slab_free_law: "slab_law S live \<Longrightarrow> a \<in> live p \<Longrightarrow> live (slab_free S a p) = live p - {a}"
  by (auto simp: slab_law_def)

lemma free_elts_live:
  assumes "slab_law S live" and "distinct (data_blocks es)" and "set (data_blocks es) \<subseteq> live p"
  shows "live (free_elts S es p) = live p - set (data_blocks es)"
  using assms(2,3)
proof (induction es arbitrary: p rule: data_blocks.induct)
  case (3 a bs es)
  have a: "live (slab_free S a p) = live p - {a}"
    using "3.prems"(2) by (intro slab_free_law [OF assms(1)]) simp
  have "live (free_elts S es (slab_free S a p)) = live (slab_free S a p) - set (data_blocks es)"
    using "3.prems" a by (intro "3.IH") auto
  with a show ?case by auto
qed auto

lemma node_fill_spec:
  assumes "slab_law S live" and "node_fill S vs acc p = (err, es, p')"
    and "distinct (data_blocks acc)" and "set (data_blocks acc) \<subseteq> live p"
  shows "distinct (data_blocks es) \<and>
    (\<exists>es2. es = acc @ es2 \<and> set (data_blocks es2) \<inter> live p = {} \<and>
      live p' = live p \<union> set (data_blocks es2) \<and>
      (err = None \<longrightarrow> map (map_option snd) es2 = vs))"
  using assms(2-)
proof (induction vs arbitrary: acc p)
  case Nil
  then show ?case by auto
next
  case (Cons v vs)
  show ?case
  proof (cases v)
    case None
    with Cons.prems Cons.IH [of "acc @ [None]" p] show ?thesis by fastforce
  next
    case (Some bs)
    obtain r p1 where r: "slab_calloc S (length bs) p = (r, p1)" by (cases "slab_calloc S (length bs) p")
    show ?thesis
    proof (cases r)
      case None
      with r Some Cons.prems slab_calloc_law(2) [OF assms(1)] show ?thesis by auto
    next
      case (Some a)
      have a: "a \<notin> live p" "live p1 = insert a (live p)"
        using slab_calloc_law(1) [OF assms(1)] r Some by auto
      have "node_fill S vs (acc @ [Some (a, bs)]) p1 = (err, es, p')"
        using Cons.prems(1) r Some \<open>v = Some bs\<close> by simp
      moreover have "distinct (data_blocks (acc @ [Some (a, bs)]))"
        and "set (data_blocks (acc @ [Some (a, bs)])) \<subseteq> live p1"
        using a Cons.prems(2,3) by auto
      ultimately have ih: "distinct (data_blocks es) \<and>
        (\<exists>es2. es = (acc @ [Some (a, bs)]) @ es2 \<and> set (data_blocks es2) \<inter> live p1 = {} \<and>
          live p' = live p1 \<union> set (data_blocks es2) \<and> (err = None \<longrightarrow> map (map_option snd) es2 = vs))"
        by (rule Cons.IH)
      then obtain es2 where es2: "es = (acc @ [Some (a, bs)]) @ es2"
        "set (data_blocks es2) \<inter> live p1 = {}" "live p' = live p1 \<union> set (data_blocks es2)"
        "err = None \<longrightarrow> map (map_option snd) es2 = vs"
        by blast
      from ih have "distinct (data_blocks es)" by blast
      with es2 a \<open>v = Some bs\<close> show ?thesis
        by (intro conjI exI [of _ "Some (a, bs) # es2"]) auto
    qed
  qed
qed

lemmas node_fill_fresh = node_fill_spec [where acc = "[]", simplified]

text \<open>A created node holds the entry and owns new blocks; a failed creation leaks nothing.\<close>

lemma node_create_Inr:
  assumes law: "slab_law S live" and run: "node_create S vals p = (Inr n, p')"
  shows "node_entry n = vals" and "distinct (node_blocks n)"
    and "set (node_blocks n) \<inter> live p = {}" and "live p' = live p \<union> set (node_blocks n)"
proof -
  obtain arr p1 where 1: "slab_calloc S (length vals * sizeof_ngx_str) p = (Some arr, p1)"
    using run by (auto simp: node_create_def Let_def split: prod.splits option.splits)
  obtain es p2 where 2: "node_fill S vals [] p1 = (None, es, p2)"
    using run 1 by (auto simp: node_create_def Let_def split: prod.splits option.splits)
  obtain nd where 3: "slab_alloc S sizeof_node p2 = (Some nd, p')"
    and n: "n = \<lparr>node_addr = nd, node_elts_addr = arr, node_elts = es\<rparr>"
    using run 1 2 by (auto simp: node_create_def Let_def split: prod.splits option.splits)
  note a = slab_calloc_law(1) [OF law 1] node_fill_fresh [OF law 2] slab_alloc_law(1) [OF law 3]
  from a n show "node_entry n = vals" "distinct (node_blocks n)"
    "set (node_blocks n) \<inter> live p = {}" "live p' = live p \<union> set (node_blocks n)"
    by (auto simp: node_entry_def node_blocks_def)
qed

lemma node_create_Inl:
  assumes law: "slab_law S live" and run: "node_create S vals p = (Inl line, p')"
  shows "live p' = live p"
proof (cases "slab_calloc S (length vals * sizeof_ngx_str) p")
  case (Pair r p1)
  note r = this
  show ?thesis
  proof (cases r)
    case None
    with r run slab_calloc_law(2) [OF law] show ?thesis by (auto simp: node_create_def Let_def)
  next
    case (Some arr)
    have a: "arr \<notin> live p" "live p1 = insert arr (live p)"
      using slab_calloc_law(1) [OF law] r Some by auto
    obtain err es p2 where f: "node_fill S vals [] p1 = (err, es, p2)"
      by (cases "node_fill S vals [] p1")
    note fs = node_fill_fresh [OF law f]
    have undo: "live (slab_free S arr (free_elts S es q)) = live p" if "live q = live p2" for q
    proof -
      have "live (free_elts S es q) = live p2 - set (data_blocks es)"
        using free_elts_live [OF law, of es q] fs that by auto
      with fs a show ?thesis
        by (subst slab_free_law [OF law]) auto
    qed
    show ?thesis
    proof (cases err)
      case line: (Some line1)
      with r Some f run undo [of p2] show ?thesis by (auto simp: node_create_def Let_def)
    next
      case ok: None
      obtain p3 where "slab_alloc S sizeof_node p2 = (None, p3)"
        and "p' = slab_free S arr (free_elts S es p3)"
        using r Some f run ok by (auto simp: node_create_def Let_def split: prod.splits option.splits)
      with undo [of p3] slab_alloc_law(2) [OF law] show ?thesis by auto
    qed
  qed
qed

lemma node_destroy_live:
  assumes law: "slab_law S live" and "distinct (node_blocks n)" and "set (node_blocks n) \<subseteq> live p"
  shows "live (node_destroy S n p) = live p - set (node_blocks n)"
proof -
  have 1: "live (free_elts S (node_elts n) p) = live p - set (data_blocks (node_elts n))"
    using assms by (intro free_elts_live) (auto simp: node_blocks_def)
  have 2: "live (slab_free S (node_elts_addr n) (free_elts S (node_elts n) p)) =
      live p - set (data_blocks (node_elts n)) - {node_elts_addr n}"
    using assms 1 by (subst slab_free_law [OF law]) (auto simp: node_blocks_def)
  show ?thesis
    unfolding node_destroy_def using assms 2
    by (subst slab_free_law [OF law]) (auto simp: node_blocks_def)
qed

end
