(* ===== verification/Buffer.thy ===== *)
theory Buffer
  imports Node
begin

text \<open>
  The transaction buffer: \<open>ngx_http_sqlitelog_buf.c\<close> (the flush itself, which writes to the
  database, is in theory Handler). \<open>shctx\<close> is what lies in the shared zone and is common to all
  workers: the queue, its length, the slab pool and the mutex. \<open>buf\<close> is what each worker has of
  its own: the limits and the flush event.

  \<open>entry_queue\<close> is the interface through which the rest of the module uses the queue.
\<close>

section \<open>nginx's lists\<close>

text \<open>
  \<open>ngx_list_t\<close> is nginx's: a chain of parts, each an array of at most \<open>nalloc\<close> elements. The code
  creates a list, pushes elements, and reads the parts one by one.
\<close>

record 'l list_api =
  li_init :: "nat \<Rightarrow> mem \<Rightarrow> 'l option \<times> mem"
  li_push :: "'l \<Rightarrow> ngx_str \<Rightarrow> mem \<Rightarrow> 'l option \<times> mem"
  li_parts :: "'l \<Rightarrow> ngx_str list list"

text \<open>
  Documented behaviour: a new list has one empty part; an element goes to the end of the last
  part, or to a new part when the last one holds \<open>nalloc\<close> elements; with memory available both
  succeed.
\<close>

definition add_elt :: "nat \<Rightarrow> 'a list list \<Rightarrow> 'a \<Rightarrow> 'a list list" where
  "add_elt n ps s =
     (if length (last ps) = n then ps @ [[s]] else butlast ps @ [last ps @ [s]])"

definition list_law :: "'l list_api \<Rightarrow> ('l \<Rightarrow> nat) \<Rightarrow> bool" where
  "list_law L nalloc \<longleftrightarrow>
     (\<forall>n m l m'. li_init L n m = (Some l, m') \<longrightarrow> li_parts L l = [[]] \<and> nalloc l = n) \<and>
     (\<forall>l s m l' m'. li_push L l s m = (Some l', m') \<longrightarrow>
        li_parts L l' = add_elt (nalloc l) (li_parts L l) s \<and> nalloc l' = nalloc l) \<and>
     (\<forall>n m. ample m \<longrightarrow> (\<exists>l m'. li_init L n m = (Some l, m') \<and> ample m')) \<and>
     (\<forall>l s m. ample m \<longrightarrow> (\<exists>l' m'. li_push L l s m = (Some l', m') \<and> ample m'))"

section \<open>State\<close>

text \<open>
  \<open>sh_held\<close> says whether this process holds the mutex of the slab pool. \<open>sh_fault\<close> is not in the
  code: it is set when the mutex is locked while held (the process would wait for itself for
  ever), unlocked while not held, or when a \<open>_locked\<close> function runs without it.
\<close>

record 'p shctx =
  sh_queue :: "node list"
  sh_len :: int
  sh_pool :: 'p
  sh_held :: bool
  sh_fault :: bool

definition shmtx_lock :: "'p shctx \<Rightarrow> 'p shctx" where
  "shmtx_lock sh = sh\<lparr>sh_fault := sh_fault sh \<or> sh_held sh, sh_held := True\<rparr>"

definition shmtx_unlock :: "'p shctx \<Rightarrow> 'p shctx" where
  "shmtx_unlock sh = sh\<lparr>sh_fault := sh_fault sh \<or> \<not> sh_held sh, sh_held := False\<rparr>"

definition need_lock :: "'p shctx \<Rightarrow> 'p shctx" where
  "need_lock sh = sh\<lparr>sh_fault := sh_fault sh \<or> \<not> sh_held sh\<rparr>"

record event =
  timer_set :: bool
  timer_delay :: nat

text \<open>\<open>buf_event\<close> is \<open>None\<close> when the pointer is NULL: the buffer has no flush time.\<close>

record buf =
  buf_max :: int
  buf_flush :: nat
  buf_event :: "event option"

section \<open>The queue operations\<close>

definition buf_push_locked ::
  "'p slab \<Rightarrow> buf \<Rightarrow> ngx_str list \<Rightarrow> 'p shctx \<Rightarrow> int \<times> 'p shctx" where
  "buf_push_locked S b entry sh =
     (let sh = need_lock sh
      in case node_create S entry (sh_pool sh) of
           (Inl line, p) \<Rightarrow> (NGX_ERROR, sh\<lparr>sh_pool := p\<rparr>)
         | (Inr node, p) \<Rightarrow>
             let sh = sh\<lparr>sh_pool := p, sh_queue := sh_queue sh @ [node], sh_len := sh_len sh + 1\<rparr>
             in (if buf_max b \<noteq> 0 \<and> buf_max b \<le> sh_len sh then NGX_DONE else NGX_OK, sh))"

definition buf_push :: "'p slab \<Rightarrow> buf \<Rightarrow> ngx_str list \<Rightarrow> 'p shctx \<Rightarrow> int \<times> 'p shctx" where
  "buf_push S b entry sh =
     (let (rc, sh) = buf_push_locked S b entry (shmtx_lock sh) in (rc, shmtx_unlock sh))"

definition buf_unshift_locked ::
  "'p slab \<Rightarrow> ngx_str list \<Rightarrow> 'p shctx \<Rightarrow> int \<times> 'p shctx" where
  "buf_unshift_locked S entry sh =
     (let sh = need_lock sh
      in case node_create S entry (sh_pool sh) of
           (Inl line, p) \<Rightarrow> (NGX_ERROR, sh\<lparr>sh_pool := p\<rparr>)
         | (Inr node, p) \<Rightarrow>
             (NGX_OK, sh\<lparr>sh_pool := p, sh_queue := node # sh_queue sh, sh_len := sh_len sh + 1\<rparr>))"

definition buf_unshift :: "'p slab \<Rightarrow> ngx_str list \<Rightarrow> 'p shctx \<Rightarrow> int \<times> 'p shctx" where
  "buf_unshift S entry sh =
     (let (rc, sh) = buf_unshift_locked S entry (shmtx_lock sh) in (rc, shmtx_unlock sh))"

text \<open>The copy loops of \<open>buf_move_locked\<close>: one node, then the queue. None is \<open>return NGX_ERROR\<close>.\<close>

fun copy_elts ::
  "'l list_api \<Rightarrow> ngx_str list \<Rightarrow> 'l \<Rightarrow> mem \<Rightarrow> 'l option \<times> mem" where
  "copy_elts L [] l m = (Some l, m)"
| "copy_elts L (elt # elts) l m =
     (case li_push L l elt m of
        (None, m) \<Rightarrow> (None, m)
      | (Some l, m) \<Rightarrow>
          if elt = None then copy_elts L elts l m
          else let (ok_sbuf, m) = palloc m
               in if ok_sbuf then copy_elts L elts l m else (None, m))"

fun copy_nodes :: "'l list_api \<Rightarrow> node list \<Rightarrow> 'l \<Rightarrow> mem \<Rightarrow> 'l option \<times> mem" where
  "copy_nodes L [] l m = (Some l, m)"
| "copy_nodes L (n # ns) l m =
     (case copy_elts L (node_entry n) l m of
        (None, m) \<Rightarrow> (None, m)
      | (Some l, m) \<Rightarrow> copy_nodes L ns l m)"

text \<open>
  The loop that frees the nodes. The step \<open>ngx_queue_next(q)\<close> reads the link inside the node just
  freed: the loop returns these reads, the address of the node with the slab at that moment, before
  the slab it leaves. The model goes on with the value the link had.
\<close>

fun clear_nodes :: "'p slab \<Rightarrow> node list \<Rightarrow> 'p \<Rightarrow> (nat \<times> 'p) list \<times> 'p" where
  "clear_nodes S [] p = ([], p)"
| "clear_nodes S (n # ns) p =
     (let p = node_destroy S n p; (reads, p') = clear_nodes S ns p
      in ((node_addr n, p) # reads, p'))"

definition buf_move_locked ::
  "'p slab \<Rightarrow> 'l list_api \<Rightarrow> 'l \<Rightarrow> mem \<Rightarrow> 'p shctx \<Rightarrow> 'l option \<times> 'p shctx \<times> mem" where
  "buf_move_locked S L l m sh =
     (let sh = need_lock sh
      in case copy_nodes L (sh_queue sh) l m of
           (None, m) \<Rightarrow> (None, sh, m)
         | (Some l, m) \<Rightarrow>
             (Some l, sh\<lparr>sh_pool := snd (clear_nodes S (sh_queue sh) (sh_pool sh)),
                         sh_len := 0, sh_queue := []\<rparr>, m))"

text \<open>\<open>Some l\<close> is \<open>NGX_OK\<close> with the list filled, None is \<open>NGX_ERROR\<close>.\<close>

definition buf_list_locked ::
  "'p slab \<Rightarrow> 'l list_api \<Rightarrow> nat \<Rightarrow> mem \<Rightarrow> 'p shctx \<Rightarrow> 'l option \<times> 'p shctx \<times> mem" where
  "buf_list_locked S L n m sh =
     (case li_init L n m of
        (None, m) \<Rightarrow> (None, sh, m)
      | (Some l, m) \<Rightarrow> buf_move_locked S L l m sh)"

definition buf_list ::
  "'p slab \<Rightarrow> 'l list_api \<Rightarrow> nat \<Rightarrow> mem \<Rightarrow> 'p shctx \<Rightarrow> 'l option \<times> 'p shctx \<times> mem" where
  "buf_list S L n m sh =
     (let (r, sh, m) = buf_list_locked S L n m (shmtx_lock sh) in (r, shmtx_unlock sh, m))"

definition buf_get_len_locked :: "'p shctx \<Rightarrow> int \<times> 'p shctx" where
  "buf_get_len_locked sh = (sh_len sh, need_lock sh)"

definition buf_get_len :: "'p shctx \<Rightarrow> int \<times> 'p shctx" where
  "buf_get_len sh =
     (let (len, sh) = buf_get_len_locked (shmtx_lock sh) in (len, shmtx_unlock sh))"

section \<open>The flush timer\<close>

text \<open>\<open>ngx_add_timer\<close> and \<open>ngx_del_timer\<close> set and clear \<open>timer_set\<close> of the event.\<close>

definition buf_timer_start :: "buf \<Rightarrow> buf" where
  "buf_timer_start b =
     (case buf_event b of
        None \<Rightarrow> b
      | Some ev \<Rightarrow>
          if buf_flush b \<noteq> 0 \<and> \<not> timer_set ev
          then b\<lparr>buf_event := Some (ev\<lparr>timer_set := True, timer_delay := buf_flush b\<rparr>)\<rparr> else b)"

definition buf_timer_stop :: "buf \<Rightarrow> buf" where
  "buf_timer_stop b =
     (case buf_event b of
        None \<Rightarrow> b
      | Some ev \<Rightarrow>
          if buf_flush b \<noteq> 0 \<and> timer_set ev
          then b\<lparr>buf_event := Some (ev\<lparr>timer_set := False\<rparr>)\<rparr> else b)"

definition buf_timer_reset :: "buf \<Rightarrow> buf" where
  "buf_timer_reset b = buf_timer_start (buf_timer_stop b)"

section \<open>Lists and rows\<close>

lemma list_init_law: "list_law L nalloc \<Longrightarrow> li_init L n m = (Some l, m') \<Longrightarrow>
    li_parts L l = [[]] \<and> nalloc l = n"
  by (auto simp: list_law_def)

lemma list_push_law: "list_law L nalloc \<Longrightarrow> li_push L l s m = (Some l', m') \<Longrightarrow>
    li_parts L l' = add_elt (nalloc l) (li_parts L l) s \<and> nalloc l' = nalloc l"
  unfolding list_law_def by blast

lemma list_init_ample:
  assumes "list_law L nalloc" and "ample m"
  obtains l m' where "li_init L n m = (Some l, m')" and "ample m'"
  using assms unfolding list_law_def by blast

lemma list_push_ample:
  assumes "list_law L nalloc" and "ample m"
  obtains l' m' where "li_push L l s m = (Some l', m')" and "ample m'"
  using assms unfolding list_law_def by blast

lemma add_elt_concat: "ps \<noteq> [] \<Longrightarrow> concat (add_elt n ps s) = concat ps @ [s]"
  by (cases ps rule: rev_cases) (auto simp: add_elt_def)

lemma add_elt_not_Nil [simp]: "add_elt n ps s \<noteq> []"
  by (simp add: add_elt_def)

lemma add_elts_concat:
  "ps \<noteq> [] \<Longrightarrow> concat (foldl (add_elt n) ps xs) = concat ps @ xs"
  by (induction xs arbitrary: ps) (simp_all add: add_elt_concat)

lemma add_elts_not_Nil: "ps \<noteq> [] \<Longrightarrow> foldl (add_elt n) ps xs \<noteq> []"
  by (induction xs arbitrary: ps) simp_all

lemma add_elts_within:
  "length part + length xs \<le> n \<Longrightarrow> foldl (add_elt n) (ps @ [part]) xs = ps @ [part @ xs]"
proof (induction xs arbitrary: part)
  case (Cons x xs)
  then have "add_elt n (ps @ [part]) x = ps @ [part @ [x]]"
    by (auto simp: add_elt_def)
  with Cons show ?case by simp
qed simp

text \<open>An entry as wide as a part, pushed after full parts, becomes one part.\<close>

lemma add_row:
  assumes "length row = n" and "0 < n" and "ps = [[]] \<or> (ps \<noteq> [] \<and> length (last ps) = n)"
  shows "foldl (add_elt n) ps row = (if ps = [[]] then [row] else ps @ [row])"
proof (cases "ps = [[]]")
  case True
  with assms add_elts_within [of "[]" row n "[]"] show ?thesis by simp
next
  case False
  then have full: "ps \<noteq> []" "length (last ps) = n" using assms(3) by auto
  obtain x xs where row: "row = x # xs" using assms by (cases row) auto
  with full have "add_elt n ps x = ps @ [[x]]" by (simp add: add_elt_def)
  with row add_elts_within [of "[x]" xs n ps] assms False show ?thesis by simp
qed

lemma add_rows:
  assumes "\<forall>row\<in>set rows. length row = n" and "0 < n"
  shows "ps \<noteq> [] \<Longrightarrow> ps \<noteq> [[]] \<Longrightarrow> length (last ps) = n \<Longrightarrow>
    foldl (add_elt n) ps (concat rows) = ps @ rows"
  using assms(1)
proof (induction rows arbitrary: ps)
  case (Cons row rows)
  then have "foldl (add_elt n) ps row = ps @ [row]"
    using add_row [of row n ps] assms(2) by auto
  with Cons assms(2) show ?case by (auto simp: append_eq_Cons_conv)
qed simp

text \<open>The parts of a list into which rows of one width were pushed: the rows, or one empty part.\<close>

lemma parts_rows:
  assumes "\<forall>row\<in>set rows. length row = n" and "0 < n"
  shows "foldl (add_elt n) [[]] (concat rows) = (if rows = [] then [[]] else rows)"
proof (cases rows)
  case (Cons row rest)
  have "foldl (add_elt n) [[]] row = [row]"
    using add_row [of row n "[[]]"] assms Cons by simp
  moreover have "foldl (add_elt n) [row] (concat rest) = [row] @ rest"
    using assms Cons by (intro add_rows) auto
  ultimately show ?thesis using Cons by simp
qed simp

lemma copy_elts_Some:
  assumes "list_law L nalloc"
  shows "copy_elts L elts l m = (Some l', m') \<Longrightarrow>
    li_parts L l' = foldl (add_elt (nalloc l)) (li_parts L l) elts \<and> nalloc l' = nalloc l"
proof (induction elts arbitrary: l m)
  case (Cons e es)
  obtain l1 m1 where p: "li_push L l e m = (Some l1, m1)"
    using Cons.prems by (auto split: prod.splits option.splits)
  obtain m2 where "copy_elts L es l1 m2 = (Some l', m')"
    using Cons.prems p by (auto split: prod.splits if_splits)
  from Cons.IH [OF this] list_push_law [OF assms p] show ?case by simp
qed simp

lemma copy_elts_ample:
  assumes "list_law L nalloc"
  shows "ample m \<Longrightarrow> \<exists>l' m'. copy_elts L elts l m = (Some l', m') \<and> ample m'"
proof (induction elts arbitrary: l m)
  case (Cons e es)
  obtain l1 m1 where p: "li_push L l e m = (Some l1, m1)" "ample m1"
    by (rule list_push_ample [OF assms Cons.prems])
  obtain m2 where "palloc m1 = (True, m2)" "ample m2"
    by (rule palloc_ampleE [OF p(2)])
  with p Cons.IH [of m1 l1] Cons.IH [of m2 l1] show ?case by simp
qed simp

lemma copy_nodes_Some:
  assumes "list_law L nalloc"
  shows "copy_nodes L ns l m = (Some l', m') \<Longrightarrow>
    li_parts L l' = foldl (add_elt (nalloc l)) (li_parts L l) (concat (map node_entry ns)) \<and>
    nalloc l' = nalloc l"
proof (induction ns arbitrary: l m)
  case (Cons n ns)
  obtain l1 m1 where c: "copy_elts L (node_entry n) l m = (Some l1, m1)"
    and "copy_nodes L ns l1 m1 = (Some l', m')"
    using Cons.prems by (auto split: prod.splits option.splits)
  with Cons.IH [of l1 m1] copy_elts_Some [OF assms c] show ?case by simp
qed simp

lemma copy_nodes_ample:
  assumes "list_law L nalloc"
  shows "ample m \<Longrightarrow> \<exists>l' m'. copy_nodes L ns l m = (Some l', m') \<and> ample m'"
proof (induction ns arbitrary: l m)
  case (Cons n ns)
  obtain l1 m1 where "copy_elts L (node_entry n) l m = (Some l1, m1)" "ample m1"
    using copy_elts_ample [OF assms Cons.prems] by blast
  with Cons.IH [of m1 l1] show ?case by simp
qed simp

section \<open>The invariant of the shared zone\<close>

definition queue_blocks :: "'p shctx \<Rightarrow> nat list" where
  "queue_blocks sh = concat (map node_blocks (sh_queue sh))"

definition entries :: "'p shctx \<Rightarrow> ngx_str list list" where
  "entries sh = map node_entry (sh_queue sh)"

text \<open>
  \<open>queue_len\<close> is the length of the queue, and the allocated blocks of the slab are those it had
  before the queue was used (\<open>base\<close>) and the blocks of the queued nodes: nothing leaks, nothing
  is shared between nodes, and no node lies in freed memory.
\<close>

definition sh_ok :: "('p \<Rightarrow> nat set) \<Rightarrow> nat set \<Rightarrow> 'p shctx \<Rightarrow> bool" where
  "sh_ok live base sh \<longleftrightarrow>
     sh_len sh = int (length (sh_queue sh)) \<and>
     distinct (queue_blocks sh) \<and> base \<inter> set (queue_blocks sh) = {} \<and>
     live (sh_pool sh) = base \<union> set (queue_blocks sh)"

lemma entries_simps [simp]:
  "entries (sh\<lparr>sh_queue := q\<rparr>) = map node_entry q"
  "entries (sh\<lparr>sh_pool := p\<rparr>) = entries sh"
  "entries (sh\<lparr>sh_len := k\<rparr>) = entries sh"
  "entries (shmtx_lock sh) = entries sh"
  "entries (shmtx_unlock sh) = entries sh"
  "entries (need_lock sh) = entries sh"
  by (simp_all add: entries_def shmtx_lock_def shmtx_unlock_def need_lock_def)

lemma sh_ok_locks [simp]:
  "sh_ok live base (shmtx_lock sh) = sh_ok live base sh"
  "sh_ok live base (shmtx_unlock sh) = sh_ok live base sh"
  "sh_ok live base (need_lock sh) = sh_ok live base sh"
  by (simp_all add: sh_ok_def queue_blocks_def shmtx_lock_def shmtx_unlock_def need_lock_def)

lemma need_lock_fields [simp]:
  "sh_queue (need_lock sh) = sh_queue sh" "sh_len (need_lock sh) = sh_len sh"
  "sh_pool (need_lock sh) = sh_pool sh" "sh_held (need_lock sh) = sh_held sh"
  "sh_held sh \<Longrightarrow> sh_fault (need_lock sh) = sh_fault sh"
  by (simp_all add: need_lock_def)

lemma lock_fields [simp]:
  "sh_queue (shmtx_lock sh) = sh_queue sh" "sh_len (shmtx_lock sh) = sh_len sh"
  "sh_pool (shmtx_lock sh) = sh_pool sh" "sh_pool (shmtx_unlock sh) = sh_pool sh"
  "sh_held (shmtx_lock sh)" "\<not> sh_held sh \<Longrightarrow> sh_fault (shmtx_lock sh) = sh_fault sh"
  "sh_queue (shmtx_unlock sh) = sh_queue sh" "sh_len (shmtx_unlock sh) = sh_len sh"
  "\<not> sh_held (shmtx_unlock sh)" "sh_held sh \<Longrightarrow> sh_fault (shmtx_unlock sh) = sh_fault sh"
  by (simp_all add: shmtx_lock_def shmtx_unlock_def)

lemma sh_ok_len: "sh_ok live base sh \<Longrightarrow> sh_len sh = int (length (entries sh))"
  by (simp add: sh_ok_def entries_def)

section \<open>What each operation does\<close>

text \<open>A node just created, put at either end of the queue, and a creation that failed.\<close>

lemma sh_ok_insert:
  assumes law: "slab_law S live" and ok: "sh_ok live base sh"
    and new: "node_create S e (sh_pool sh) = (Inr n, p)"
  shows "sh_ok live base (sh\<lparr>sh_pool := p, sh_queue := sh_queue sh @ [n], sh_len := sh_len sh + 1\<rparr>)"
    and "sh_ok live base (sh\<lparr>sh_pool := p, sh_queue := n # sh_queue sh, sh_len := sh_len sh + 1\<rparr>)"
proof -
  note n = node_create_Inr [OF law new]
  let ?B = "set (queue_blocks sh)"
  have pool: "live (sh_pool sh) = base \<union> ?B" and d: "distinct (queue_blocks sh)" "base \<inter> ?B = {}"
    using ok by (simp_all add: sh_ok_def)
  have fresh: "set (node_blocks n) \<inter> ?B = {}" "set (node_blocks n) \<inter> base = {}"
    using n(3) pool by blast+
  have all: "live p = base \<union> (?B \<union> set (node_blocks n))" "base \<inter> (?B \<union> set (node_blocks n)) = {}"
    using n(4) pool d fresh by blast+
  have "queue_blocks (sh\<lparr>sh_pool := p, sh_queue := sh_queue sh @ [n], sh_len := k\<rparr>) =
      queue_blocks sh @ node_blocks n"
    and "queue_blocks (sh\<lparr>sh_pool := p, sh_queue := n # sh_queue sh, sh_len := k\<rparr>) =
      node_blocks n @ queue_blocks sh" for k
    by (simp_all add: queue_blocks_def)
  with d fresh all n(2) ok
  show "sh_ok live base (sh\<lparr>sh_pool := p, sh_queue := sh_queue sh @ [n], sh_len := sh_len sh + 1\<rparr>)"
    and "sh_ok live base (sh\<lparr>sh_pool := p, sh_queue := n # sh_queue sh, sh_len := sh_len sh + 1\<rparr>)"
    by (simp_all add: sh_ok_def Un_commute Int_commute)
qed

lemma sh_ok_failed:
  assumes "slab_law S live" and "sh_ok live base sh" and "node_create S e (sh_pool sh) = (Inl line, p)"
  shows "sh_ok live base (sh\<lparr>sh_pool := p\<rparr>)"
  using node_create_Inl [OF assms(1,3)] assms(2) by (simp add: sh_ok_def queue_blocks_def)

lemma push_locked_cases:
  assumes law: "slab_law S live" and ok: "sh_ok live base sh"
    and run: "buf_push_locked S b e sh = (rc, sh')"
  shows "sh_ok live base sh'"
    and "sh_held sh' = sh_held sh" and "sh_held sh \<Longrightarrow> sh_fault sh' = sh_fault sh"
    and "rc = NGX_ERROR \<and> entries sh' = entries sh \<or>
      entries sh' = entries sh @ [e] \<and>
      rc = (if buf_max b \<noteq> 0 \<and> buf_max b \<le> int (length (entries sh')) then NGX_DONE else NGX_OK)"
proof -
  let ?s = "need_lock sh"
  have ok': "sh_ok live base ?s" using ok by simp
  obtain r p where c: "node_create S e (sh_pool ?s) = (r, p)"
    by (cases "node_create S e (sh_pool ?s)")
  have "sh_ok live base sh' \<and> sh_held sh' = sh_held sh \<and>
    (sh_held sh \<longrightarrow> sh_fault sh' = sh_fault sh) \<and>
    (rc = NGX_ERROR \<and> entries sh' = entries sh \<or>
      entries sh' = entries sh @ [e] \<and>
      rc = (if buf_max b \<noteq> 0 \<and> buf_max b \<le> int (length (entries sh')) then NGX_DONE else NGX_OK))"
  proof (cases r)
    case (Inl line)
    with c run sh_ok_failed [OF law ok', of e line p] show ?thesis
      by (auto simp: buf_push_locked_def)
  next
    case (Inr n)
    with c node_create_Inr(1) [OF law] have "node_entry n = e" by auto
    with Inr c run sh_ok_insert(1) [OF law ok', of e n p] sh_ok_len [OF ok] show ?thesis
      by (auto simp: buf_push_locked_def Let_def entries_def)
  qed
  then show "sh_ok live base sh'"
    and "sh_held sh' = sh_held sh" and "sh_held sh \<Longrightarrow> sh_fault sh' = sh_fault sh"
    and "rc = NGX_ERROR \<and> entries sh' = entries sh \<or>
      entries sh' = entries sh @ [e] \<and>
      rc = (if buf_max b \<noteq> 0 \<and> buf_max b \<le> int (length (entries sh')) then NGX_DONE else NGX_OK)"
    by blast+
qed

lemma unshift_locked_cases:
  assumes law: "slab_law S live" and ok: "sh_ok live base sh"
    and run: "buf_unshift_locked S e sh = (rc, sh')"
  shows "sh_ok live base sh'"
    and "sh_held sh' = sh_held sh" and "sh_held sh \<Longrightarrow> sh_fault sh' = sh_fault sh"
    and "rc = NGX_ERROR \<and> entries sh' = entries sh \<or> rc = NGX_OK \<and> entries sh' = e # entries sh"
proof -
  let ?s = "need_lock sh"
  have ok': "sh_ok live base ?s" using ok by simp
  obtain r p where c: "node_create S e (sh_pool ?s) = (r, p)"
    by (cases "node_create S e (sh_pool ?s)")
  have "sh_ok live base sh' \<and> sh_held sh' = sh_held sh \<and>
    (sh_held sh \<longrightarrow> sh_fault sh' = sh_fault sh) \<and>
    (rc = NGX_ERROR \<and> entries sh' = entries sh \<or> rc = NGX_OK \<and> entries sh' = e # entries sh)"
  proof (cases r)
    case (Inl line)
    with c run sh_ok_failed [OF law ok', of e line p] show ?thesis
      by (auto simp: buf_unshift_locked_def)
  next
    case (Inr n)
    with c node_create_Inr(1) [OF law] have "node_entry n = e" by auto
    with Inr c run sh_ok_insert(2) [OF law ok', of e n p] show ?thesis
      by (auto simp: buf_unshift_locked_def Let_def entries_def)
  qed
  then show "sh_ok live base sh'"
    and "sh_held sh' = sh_held sh" and "sh_held sh \<Longrightarrow> sh_fault sh' = sh_fault sh"
    and "rc = NGX_ERROR \<and> entries sh' = entries sh \<or> rc = NGX_OK \<and> entries sh' = e # entries sh"
    by blast+
qed

lemma clear_nodes_live:
  assumes "slab_law S live"
  shows "distinct (concat (map node_blocks ns)) \<Longrightarrow> set (concat (map node_blocks ns)) \<subseteq> live p \<Longrightarrow>
    live (snd (clear_nodes S ns p)) = live p - set (concat (map node_blocks ns))"
proof (induction ns arbitrary: p)
  case (Cons n ns)
  have "live (node_destroy S n p) = live p - set (node_blocks n)"
    using Cons.prems by (intro node_destroy_live [OF assms]) auto
  moreover from this Cons.prems have
    "live (snd (clear_nodes S ns (node_destroy S n p))) =
     live (node_destroy S n p) - set (concat (map node_blocks ns))"
    by (intro Cons.IH) auto
  ultimately show ?case by (auto simp: Let_def split: prod.split)
qed simp

lemma move_locked_cases:
  assumes "slab_law S live" and "list_law L nalloc" and "sh_ok live base sh"
    and "buf_move_locked S L l m sh = (r, sh', m')"
  shows "sh_ok live base sh'"
    and "sh_held sh' = sh_held sh" and "sh_held sh \<Longrightarrow> sh_fault sh' = sh_fault sh"
    and "r = None \<and> entries sh' = entries sh \<or>
      entries sh' = [] \<and> live (sh_pool sh') = base \<and>
      (\<exists>l'. r = Some l' \<and> li_parts L l' = foldl (add_elt (nalloc l)) (li_parts L l) (concat (entries sh)))"
proof -
  obtain c m1 where c: "copy_nodes L (sh_queue sh) l m = (c, m1)"
    by (cases "copy_nodes L (sh_queue sh) l m")
  have "sh_ok live base sh' \<and> sh_held sh' = sh_held sh \<and>
    (sh_held sh \<longrightarrow> sh_fault sh' = sh_fault sh) \<and>
    (r = None \<and> entries sh' = entries sh \<or>
      entries sh' = [] \<and> live (sh_pool sh') = base \<and>
      (\<exists>l'. r = Some l' \<and> li_parts L l' = foldl (add_elt (nalloc l)) (li_parts L l) (concat (entries sh))))"
  proof (cases c)
    case None
    with c assms(3,4) show ?thesis by (auto simp: buf_move_locked_def)
  next
    case (Some l1)
    from assms(3) have "distinct (queue_blocks sh)" "set (queue_blocks sh) \<subseteq> live (sh_pool sh)"
      by (auto simp: sh_ok_def)
    then have "live (snd (clear_nodes S (sh_queue sh) (sh_pool sh))) =
        live (sh_pool sh) - set (queue_blocks sh)"
      unfolding queue_blocks_def by (intro clear_nodes_live [OF assms(1)])
    also have "\<dots> = base" using assms(3) by (auto simp: sh_ok_def)
    finally have "live (snd (clear_nodes S (sh_queue sh) (sh_pool sh))) = base" .
    with c Some assms(3,4) copy_nodes_Some [OF assms(2), of "sh_queue sh" l m l1] show ?thesis
      by (auto simp: buf_move_locked_def sh_ok_def queue_blocks_def entries_def)
  qed
  then show "sh_ok live base sh'"
    and "sh_held sh' = sh_held sh" and "sh_held sh \<Longrightarrow> sh_fault sh' = sh_fault sh"
    and "r = None \<and> entries sh' = entries sh \<or>
      entries sh' = [] \<and> live (sh_pool sh') = base \<and>
      (\<exists>l'. r = Some l' \<and> li_parts L l' = foldl (add_elt (nalloc l)) (li_parts L l) (concat (entries sh)))"
    by blast+
qed

lemma list_locked_cases:
  assumes "slab_law S live" and "list_law L nalloc" and "sh_ok live base sh"
    and "buf_list_locked S L n m sh = (r, sh', m')"
  shows "sh_ok live base sh'"
    and "sh_held sh' = sh_held sh" and "sh_held sh \<Longrightarrow> sh_fault sh' = sh_fault sh"
    and "r = None \<and> entries sh' = entries sh \<or>
      entries sh' = [] \<and> live (sh_pool sh') = base \<and>
      (\<exists>l. r = Some l \<and> li_parts L l = foldl (add_elt n) [[]] (concat (entries sh)))"
proof -
  obtain i m1 where i: "li_init L n m = (i, m1)" by (cases "li_init L n m")
  have "sh_ok live base sh' \<and> sh_held sh' = sh_held sh \<and>
    (sh_held sh \<longrightarrow> sh_fault sh' = sh_fault sh) \<and>
    (r = None \<and> entries sh' = entries sh \<or>
      entries sh' = [] \<and> live (sh_pool sh') = base \<and>
      (\<exists>l. r = Some l \<and> li_parts L l = foldl (add_elt n) [[]] (concat (entries sh))))"
  proof (cases i)
    case None
    with i assms(3,4) show ?thesis by (auto simp: buf_list_locked_def)
  next
    case (Some l)
    then have "buf_move_locked S L l m1 sh = (r, sh', m')"
      using i assms(4) by (simp add: buf_list_locked_def)
    note mv = move_locked_cases [OF assms(1-3) this]
    from i Some list_init_law [OF assms(2)] have "li_parts L l = [[]]" "nalloc l = n" by auto
    with mv show ?thesis by auto
  qed
  then show "sh_ok live base sh'"
    and "sh_held sh' = sh_held sh" and "sh_held sh \<Longrightarrow> sh_fault sh' = sh_fault sh"
    and "r = None \<and> entries sh' = entries sh \<or>
      entries sh' = [] \<and> live (sh_pool sh') = base \<and>
      (\<exists>l. r = Some l \<and> li_parts L l = foldl (add_elt n) [[]] (concat (entries sh)))"
    by blast+
qed

lemma list_locked_ample:
  assumes "list_law L nalloc" and "ample m" and "buf_list_locked S L n m sh = (r, sh', m')"
  shows "r \<noteq> None"
proof -
  obtain l m1 where i: "li_init L n m = (Some l, m1)" "ample m1"
    by (rule list_init_ample [OF assms(1,2)])
  then obtain l' m2 where "copy_nodes L (sh_queue sh) l m1 = (Some l', m2)"
    using copy_nodes_ample [OF assms(1) i(2)] by blast
  with i assms(3) show ?thesis by (auto simp: buf_list_locked_def buf_move_locked_def)
qed

lemma list_locked_ample_rest:
  assumes "list_law L nalloc" and "ample m" and "buf_list_locked S L n m sh = (r, sh', m')"
  shows "ample m'"
proof -
  obtain l m1 where i: "li_init L n m = (Some l, m1)" "ample m1"
    by (rule list_init_ample [OF assms(1,2)])
  then obtain l' m2 where "copy_nodes L (sh_queue sh) l m1 = (Some l', m2)" "ample m2"
    using copy_nodes_ample [OF assms(1) i(2)] by blast
  with i assms(3) show ?thesis by (auto simp: buf_list_locked_def buf_move_locked_def)
qed

lemmas shared_locked_cases = push_locked_cases unshift_locked_cases list_locked_cases

section \<open>The queue as the rest of the module uses it\<close>

text \<open>
  \<open>entry_queue\<close> is the contract of the locked operations: \<open>good c s\<close> is the invariant in the
  context \<open>c\<close> (allocator, list functions, width of an entry), and \<open>contents s\<close> the queued log
  entries, oldest first. A failed operation changes nothing; taking everything yields one row per
  entry, in order, and one empty row when there is none.
\<close>

locale entry_queue =
  fixes good :: "'c \<Rightarrow> 's \<Rightarrow> bool"
    and contents :: "'s \<Rightarrow> ngx_str list list"
    and width :: "'c \<Rightarrow> nat"
    and push :: "'c \<Rightarrow> ngx_str list \<Rightarrow> 's \<Rightarrow> int \<times> 's"
    and unshift :: "'c \<Rightarrow> ngx_str list \<Rightarrow> 's \<Rightarrow> int \<times> 's"
    and take_rows :: "'c \<Rightarrow> mem \<Rightarrow> 's \<Rightarrow> ngx_str list list option \<times> 's"
    and len :: "'s \<Rightarrow> int"
  assumes push: "good c s \<Longrightarrow> length e = width c \<Longrightarrow> push c e s = (rc, s') \<Longrightarrow>
      good c s' \<and> (rc = NGX_ERROR \<and> contents s' = contents s \<or>
        rc \<in> {NGX_OK, NGX_DONE} \<and> contents s' = contents s @ [e])"
    and unshift: "good c s \<Longrightarrow> length e = width c \<Longrightarrow> unshift c e s = (rc, s') \<Longrightarrow>
      good c s' \<and> (rc = NGX_ERROR \<and> contents s' = contents s \<or>
        rc = NGX_OK \<and> contents s' = e # contents s)"
    and take_rows: "good c s \<Longrightarrow> take_rows c m s = (r, s') \<Longrightarrow>
      good c s' \<and> (r = None \<and> contents s' = contents s \<or>
        r = Some (if contents s = [] then [[]] else contents s) \<and> contents s' = [])"
    and len: "good c s \<Longrightarrow> len s = int (length (contents s))"

text \<open>A critical section that a process may execute while it holds the mutex.\<close>

datatype queue_op = Q_push "ngx_str list" | Q_unshift "ngx_str list" | Q_take mem

definition real_rows :: "ngx_str list list \<Rightarrow> ngx_str list list" where
  "real_rows rows = (if rows = [[]] then [] else rows)"

context entry_queue
begin

text \<open>One operation: the entries it put into the queue, the rows it took out.\<close>

fun exec :: "'c \<Rightarrow> queue_op \<Rightarrow> 's \<Rightarrow> ngx_str list list \<times> ngx_str list list \<times> 's" where
  "exec c (Q_push e) s = (let (rc, s) = push c e s in (if rc = NGX_ERROR then [] else [e], [], s))"
| "exec c (Q_unshift e) s =
     (let (rc, s) = unshift c e s in (if rc = NGX_ERROR then [] else [e], [], s))"
| "exec c (Q_take m) s =
     (case take_rows c m s of
        (None, s) \<Rightarrow> ([], [], s)
      | (Some rows, s) \<Rightarrow> ([], real_rows rows, s))"

fun run_ops :: "'c \<Rightarrow> queue_op list \<Rightarrow> 's \<Rightarrow> ngx_str list list \<times> ngx_str list list \<times> 's" where
  "run_ops c [] s = ([], [], s)"
| "run_ops c (q # qs) s =
     (let (a, t, s) = exec c q s; (a', t', s) = run_ops c qs s in (a @ a', t @ t', s))"

fun fits :: "'c \<Rightarrow> queue_op \<Rightarrow> bool" where
  "fits c (Q_push e) \<longleftrightarrow> length e = width c"
| "fits c (Q_unshift e) \<longleftrightarrow> length e = width c"
| "fits c (Q_take m) \<longleftrightarrow> 0 < width c"

fun is_unshift :: "queue_op \<Rightarrow> bool" where
  "is_unshift (Q_unshift e) = True"
| "is_unshift q = False"

lemma real_rows_taken:
  assumes "\<forall>e\<in>set es. e \<noteq> []"
  shows "real_rows (if es = [] then [[]] else es) = es"
  using assms by (cases es) (auto simp: real_rows_def)

lemma exec_step:
  assumes "good c s" and "fits c q" and "exec c q s = (a, t, s')"
    and "\<forall>e\<in>set (contents s). e \<noteq> []"
  shows "good c s' \<and> mset (contents s) + mset a = mset t + mset (contents s') \<and>
    (\<not> is_unshift q \<longrightarrow> contents s @ a = t @ contents s')"
proof (cases q)
  case (Q_push e)
  obtain rc s1 where p: "push c e s = (rc, s1)" by (cases "push c e s")
  with Q_push assms(2) push [OF assms(1) _ p] assms(3) show ?thesis by auto
next
  case (Q_unshift e)
  obtain rc s1 where p: "unshift c e s = (rc, s1)" by (cases "unshift c e s")
  with Q_unshift assms(2) unshift [OF assms(1) _ p] assms(3) show ?thesis by auto
next
  case (Q_take m)
  obtain r s1 where p: "take_rows c m s = (r, s1)" by (cases "take_rows c m s")
  with Q_take take_rows [OF assms(1) p] assms(3) real_rows_taken [OF assms(4)] show ?thesis
    by (cases r) auto
qed

text \<open>
  Conservation: whatever the operations do, the entries accepted are the entries taken and those
  still queued; without \<open>unshift\<close> they come out in the order in which they went in.
\<close>

lemma run_ops_conserve:
  assumes "\<And>s. good c s \<Longrightarrow> \<forall>e\<in>set (contents s). e \<noteq> []"
  shows "good c s \<Longrightarrow> \<forall>q\<in>set qs. fits c q \<Longrightarrow> run_ops c qs s = (a, t, s') \<Longrightarrow>
    good c s' \<and> mset (contents s) + mset a = mset t + mset (contents s') \<and>
    ((\<forall>q\<in>set qs. \<not> is_unshift q) \<longrightarrow> contents s @ a = t @ contents s')"
proof (induction qs arbitrary: s a t)
  case (Cons q qs)
  obtain a1 t1 s1 where e: "exec c q s = (a1, t1, s1)" by (cases "exec c q s") auto
  obtain a2 t2 where r: "run_ops c qs s1 = (a2, t2, s')" "a = a1 @ a2" "t = t1 @ t2"
    using Cons.prems(3) e by (auto split: prod.splits)
  have 1: "good c s1 \<and> mset (contents s) + mset a1 = mset t1 + mset (contents s1) \<and>
    (\<not> is_unshift q \<longrightarrow> contents s @ a1 = t1 @ contents s1)"
    using Cons.prems e assms by (intro exec_step) auto
  have 2: "good c s' \<and> mset (contents s1) + mset a2 = mset t2 + mset (contents s') \<and>
    ((\<forall>q\<in>set qs. \<not> is_unshift q) \<longrightarrow> contents s1 @ a2 = t2 @ contents s')"
    using Cons.prems r 1 by (intro Cons.IH) auto
  have "mset (contents s) + mset a = (mset (contents s) + mset a1) + mset a2"
    using r by simp
  also have "\<dots> = mset t1 + (mset (contents s1) + mset a2)" using 1 by (simp add: add.assoc)
  also have "\<dots> = mset t + mset (contents s')" using 2 r by (simp add: add.assoc)
  finally have m: "mset (contents s) + mset a = mset t + mset (contents s')" .
  have "contents s @ a = t @ contents s'" if "\<forall>q\<in>set (q # qs). \<not> is_unshift q"
  proof -
    have "contents s @ a = (contents s @ a1) @ a2" using r by simp
    also have "\<dots> = t1 @ (contents s1 @ a2)" using 1 that by simp
    also have "\<dots> = t @ contents s'" using 2 that r by simp
    finally show ?thesis .
  qed
  with m 2 show ?case by blast
qed simp

end

subsection \<open>The model's queue\<close>

record ('p, 'l) zone =
  zn_slab :: "'p slab"
  zn_live :: "'p \<Rightarrow> nat set"
  zn_base :: "nat set"
  zn_list :: "'l list_api"
  zn_nalloc :: "'l \<Rightarrow> nat"
  zn_width :: nat
  zn_buf :: buf

definition zone_good :: "('p, 'l) zone \<Rightarrow> 'p shctx \<Rightarrow> bool" where
  "zone_good z sh \<longleftrightarrow>
     slab_law (zn_slab z) (zn_live z) \<and> list_law (zn_list z) (zn_nalloc z) \<and> 0 < zn_width z \<and>
     sh_ok (zn_live z) (zn_base z) sh \<and> (\<forall>e\<in>set (entries sh). length e = zn_width z)"

definition zone_push :: "('p, 'l) zone \<Rightarrow> ngx_str list \<Rightarrow> 'p shctx \<Rightarrow> int \<times> 'p shctx" where
  "zone_push z = buf_push_locked (zn_slab z) (zn_buf z)"

definition zone_unshift :: "('p, 'l) zone \<Rightarrow> ngx_str list \<Rightarrow> 'p shctx \<Rightarrow> int \<times> 'p shctx" where
  "zone_unshift z = buf_unshift_locked (zn_slab z)"

definition zone_take ::
  "('p, 'l) zone \<Rightarrow> mem \<Rightarrow> 'p shctx \<Rightarrow> ngx_str list list option \<times> 'p shctx" where
  "zone_take z m sh =
     (let (r, sh, _) = buf_list_locked (zn_slab z) (zn_list z) (zn_width z) m sh
      in (map_option (li_parts (zn_list z)) r, sh))"

interpretation zoneq: entry_queue zone_good entries zn_width zone_push zone_unshift zone_take sh_len
proof unfold_locales
  fix z :: "('p, 'l) zone" and s s' :: "'p shctx" and e rc
  assume a: "zone_good z s" "length e = zn_width z" "zone_push z e s = (rc, s')"
  then show "zone_good z s' \<and> (rc = NGX_ERROR \<and> entries s' = entries s \<or>
        rc \<in> {NGX_OK, NGX_DONE} \<and> entries s' = entries s @ [e])"
    using push_locked_cases(1,4) [of "zn_slab z" "zn_live z" "zn_base z" s "zn_buf z" e rc s']
    by (auto simp: zone_good_def zone_push_def split: if_splits)
next
  fix z :: "('p, 'l) zone" and s s' :: "'p shctx" and e rc
  assume a: "zone_good z s" "length e = zn_width z" "zone_unshift z e s = (rc, s')"
  then show "zone_good z s' \<and> (rc = NGX_ERROR \<and> entries s' = entries s \<or>
        rc = NGX_OK \<and> entries s' = e # entries s)"
    using unshift_locked_cases(1,4) [of "zn_slab z" "zn_live z" "zn_base z" s e rc s']
    by (auto simp: zone_good_def zone_unshift_def)
next
  fix z :: "('p, 'l) zone" and s s' :: "'p shctx" and m r
  assume a: "zone_good z s" "zone_take z m s = (r, s')"
  obtain r0 m' where run: "buf_list_locked (zn_slab z) (zn_list z) (zn_width z) m s = (r0, s', m')"
    and r: "r = map_option (li_parts (zn_list z)) r0"
    using a(2) by (auto simp: zone_take_def split: prod.splits)
  have rows: "foldl (add_elt (zn_width z)) [[]] (concat (entries s)) =
      (if entries s = [] then [[]] else entries s)"
    using a(1) by (intro parts_rows) (auto simp: zone_good_def)
  show "zone_good z s' \<and> (r = None \<and> entries s' = entries s \<or>
        r = Some (if entries s = [] then [[]] else entries s) \<and> entries s' = [])"
    using a(1) r rows list_locked_cases(1,4) [OF _ _ _ run, of "zn_live z" "zn_nalloc z" "zn_base z"]
    by (auto simp: zone_good_def)
next
  fix z :: "('p, 'l) zone" and s :: "'p shctx"
  assume "zone_good z s"
  then show "sh_len s = int (length (entries s))" by (auto simp: zone_good_def intro: sh_ok_len)
qed

text \<open>The locked operations without the mutex: what a run of them does to the shared zone.\<close>

definition zone_exec ::
  "('p, 'l) zone \<Rightarrow> queue_op \<Rightarrow> 'p shctx \<Rightarrow>
   ngx_str list list \<times> ngx_str list list \<times> 'p shctx" where
  "zone_exec = zoneq.exec"

definition zone_run ::
  "('p, 'l) zone \<Rightarrow> queue_op list \<Rightarrow> 'p shctx \<Rightarrow>
   ngx_str list list \<times> ngx_str list list \<times> 'p shctx" where
  "zone_run = zoneq.run_ops"

lemma zone_exec_code [code]:
  "zone_exec z (Q_push e) s =
     (let (rc, s) = zone_push z e s in (if rc = NGX_ERROR then [] else [e], [], s))"
  "zone_exec z (Q_unshift e) s =
     (let (rc, s) = zone_unshift z e s in (if rc = NGX_ERROR then [] else [e], [], s))"
  "zone_exec z (Q_take m) s =
     (case zone_take z m s of (None, s) \<Rightarrow> ([], [], s) | (Some rows, s) \<Rightarrow> ([], real_rows rows, s))"
  by (simp_all add: zone_exec_def)

lemma zone_run_code [code]:
  "zone_run z [] s = ([], [], s)"
  "zone_run z (q # qs) s =
     (let (a, t, s) = zone_exec z q s; (a', t', s) = zone_run z qs s in (a @ a', t @ t', s))"
  by (simp_all add: zone_run_def zone_exec_def)

definition op_fits :: "('p, 'l) zone \<Rightarrow> queue_op \<Rightarrow> bool" where
  "op_fits z q = (case q of Q_push e \<Rightarrow> length e = zn_width z | Q_unshift e \<Rightarrow> length e = zn_width z
     | Q_take m \<Rightarrow> True)"

lemma zone_entries_not_Nil: "zone_good z sh \<Longrightarrow> \<forall>e\<in>set (entries sh). e \<noteq> []"
  by (auto simp: zone_good_def)

lemma op_fits_zoneq: "zone_good z sh \<Longrightarrow> op_fits z q \<Longrightarrow> zoneq.fits z q"
  by (cases q) (auto simp: op_fits_def zone_good_def)

section \<open>The freed node that is read\<close>

lemma clear_nodes_reads:
  assumes "slab_law S live"
  shows "distinct (concat (map node_blocks ns)) \<Longrightarrow> set (concat (map node_blocks ns)) \<subseteq> live p \<Longrightarrow>
    map fst (fst (clear_nodes S ns p)) = map node_addr ns \<and>
    (\<forall>(a, q)\<in>set (fst (clear_nodes S ns p)). a \<notin> live q)"
proof (induction ns arbitrary: p)
  case (Cons n ns)
  let ?p = "node_destroy S n p"
  have d: "live ?p = live p - set (node_blocks n)"
    using Cons.prems by (intro node_destroy_live [OF assms]) auto
  have "map fst (fst (clear_nodes S ns ?p)) = map node_addr ns \<and>
    (\<forall>(a, q)\<in>set (fst (clear_nodes S ns ?p)). a \<notin> live q)"
    using Cons.prems d by (intro Cons.IH) auto
  with d show ?case by (auto simp: Let_def split: prod.splits)
qed simp

section \<open>A concrete slab and list for the examples\<close>

text \<open>A slab with room for \<open>k\<close> more blocks; a block is named by a number not yet in use.\<close>

type_synonym slab_state = "nat \<times> nat list"

definition example_alloc :: "nat \<Rightarrow> slab_state \<Rightarrow> nat option \<times> slab_state" where
  "example_alloc n p =
     (case p of (k, bs) \<Rightarrow>
        if k = 0 then (None, p) else let a = Suc (fold max bs 0) in (Some a, (k - 1, a # bs)))"

definition example_slab :: "slab_state slab" where
  "example_slab = \<lparr>slab_calloc = example_alloc, slab_alloc = example_alloc,
     slab_free = \<lambda>a (k, bs). (k + 1, filter (\<lambda>b. b \<noteq> a) bs)\<rparr>"

definition example_live :: "slab_state \<Rightarrow> nat set" where
  "example_live p = set (snd p)"

lemma example_slab_law: "slab_law example_slab example_live"
proof -
  have "alloc_law example_live example_alloc"
    using fold_max_ge [where m = 0]
    by (fastforce simp: alloc_law_def example_alloc_def example_live_def Let_def
        split: if_splits dest: Suc_le_lessD)
  then show ?thesis
    by (auto simp: slab_law_def example_slab_def example_live_def split: prod.splits)
qed

definition example_list :: "(nat \<times> ngx_str list list) list_api" where
  "example_list = \<lparr>
     li_init = \<lambda>n m. let (ok, m) = palloc m in (if ok then Some (n, [[]]) else None, m),
     li_push = \<lambda>(n, ps) s m. let (ok, m) = palloc m in (if ok then Some (n, add_elt n ps s) else None, m),
     li_parts = snd\<rparr>"

lemma example_list_law: "list_law example_list fst"
proof -
  have "\<exists>l' m'. li_push example_list l s m = (Some l', m') \<and> ample m'" if "ample m" for l s m
    using that by (cases m; cases l) (auto simp: example_list_def)
  moreover have "\<exists>l' m'. li_init example_list n m = (Some l', m') \<and> ample m'" if "ample m" for n m
    using that by (cases m) (auto simp: example_list_def)
  moreover have "li_parts example_list l = [[]] \<and> fst l = n"
    if "li_init example_list n m = (Some l, m')" for n m l m'
    using that by (auto simp: example_list_def split: prod.splits if_splits)
  moreover have "li_parts example_list l' = add_elt (fst l) (li_parts example_list l) s \<and> fst l' = fst l"
    if "li_push example_list l s m = (Some l', m')" for l s m l' m'
    using that by (auto simp: example_list_def split: prod.splits if_splits)
  ultimately show ?thesis unfolding list_law_def by blast
qed

definition example_shctx :: "nat \<Rightarrow> slab_state shctx" where
  "example_shctx k = \<lparr>sh_queue = [], sh_len = 0, sh_pool = (k, []), sh_held = False, sh_fault = False\<rparr>"

definition example_zone :: "nat \<Rightarrow> int \<Rightarrow> (slab_state, nat \<times> ngx_str list list) zone" where
  "example_zone w mx = \<lparr>zn_slab = example_slab, zn_live = example_live, zn_base = {},
     zn_list = example_list, zn_nalloc = fst, zn_width = w,
     zn_buf = \<lparr>buf_max = mx, buf_flush = 0, buf_event = None\<rparr>\<rparr>"

lemma example_sh_ok: "sh_ok example_live {} (example_shctx k)"
  by (simp add: sh_ok_def example_shctx_def example_live_def queue_blocks_def)

lemma example_zone_good: "0 < w \<Longrightarrow> zone_good (example_zone w mx) (example_shctx k)"
  by (simp add: zone_good_def example_zone_def example_slab_law example_list_law example_sh_ok)
    (simp add: example_shctx_def entries_def)

section \<open>Properties\<close>

definition between_locks :: "('p \<Rightarrow> nat set) \<Rightarrow> nat set \<Rightarrow> 'p shctx \<Rightarrow> bool" where
  "between_locks live base sh \<longleftrightarrow> sh_ok live base sh \<and> \<not> sh_held sh \<and> \<not> sh_fault sh"

lemma between_locks_lock:
  "between_locks live base sh \<Longrightarrow>
   sh_ok live base (shmtx_lock sh) \<and> sh_held (shmtx_lock sh) \<and> \<not> sh_fault (shmtx_lock sh)"
  by (simp add: between_locks_def)

lemma between_locks_unlock:
  "sh_ok live base sh \<Longrightarrow> sh_held sh \<Longrightarrow> \<not> sh_fault sh \<Longrightarrow> between_locks live base (shmtx_unlock sh)"
  by (simp add: between_locks_def)

text \<open>
  C23. \<open>buf_push\<close>, with the mutex free: the entry is at the end of the queue, or the slab had no
  room and the queue is what it was, without a leaked block. It reports \<open>NGX_DONE\<close> exactly when
  the buffer has a maximum and the queue has reached it. Either way the zone is consistent and
  the mutex is free again.
\<close>

theorem queue_push:
  assumes "slab_law S live" and "between_locks live base sh" and "buf_push S b e sh = (rc, sh')"
  shows "between_locks live base sh' \<and>
    (rc = NGX_ERROR \<and> entries sh' = entries sh \<and> live (sh_pool sh') = live (sh_pool sh) \<or>
     rc \<noteq> NGX_ERROR \<and> entries sh' = entries sh @ [e] \<and>
     (rc = NGX_DONE \<longleftrightarrow> buf_max b \<noteq> 0 \<and> buf_max b \<le> int (length (entries sh'))))"
proof -
  obtain s1 where run: "buf_push_locked S b e (shmtx_lock sh) = (rc, s1)" and s1: "sh' = shmtx_unlock s1"
    using assms(3) by (auto simp: buf_push_def split: prod.splits)
  note l = between_locks_lock [OF assms(2)]
  note c = push_locked_cases [OF assms(1) conjunct1 [OF l] run]
  have ok: "between_locks live base sh'"
    unfolding s1 using c l by (intro between_locks_unlock) simp_all
  show ?thesis
  proof (cases "fst (node_create S e (sh_pool (shmtx_lock sh)))")
    case (Inl line)
    then obtain p where p: "node_create S e (sh_pool (shmtx_lock sh)) = (Inl line, p)"
      by (cases "node_create S e (sh_pool (shmtx_lock sh))") auto
    with run have "rc = NGX_ERROR" "sh_pool s1 = p" by (auto simp: buf_push_locked_def)
    with node_create_Inl [OF assms(1) p] c(4) ok s1 show ?thesis
      by (auto split: if_splits)
  next
    case (Inr n)
    then have "rc \<noteq> NGX_ERROR"
      using run by (cases "node_create S e (sh_pool (shmtx_lock sh))")
        (auto simp: buf_push_locked_def Let_def split: if_splits)
    with c(4) ok s1 show ?thesis by (auto split: if_splits)
  qed
qed

definition example_buf :: "int \<Rightarrow> buf" where
  "example_buf mx = \<lparr>buf_max = mx, buf_flush = 0, buf_event = None\<rparr>"

lemma example_push_eval:
  "fst (buf_push example_slab (example_buf 1) [Some [65]] (example_shctx 3)) = NGX_DONE"
  "entries (snd (buf_push example_slab (example_buf 1) [Some [65]] (example_shctx 3))) = [[Some [65]]]"
  by code_simp+

lemma example_between_locks: "between_locks example_live {} (example_shctx k)"
  using example_sh_ok by (simp add: between_locks_def) (simp add: example_shctx_def)

theorem queue_push_witness:
  "\<exists>sh'. buf_push example_slab (example_buf 1) [Some [65]] (example_shctx 3) = (NGX_DONE, sh') \<and>
     entries sh' = [[Some [65]]] \<and> between_locks example_live {} sh'"
proof -
  obtain rc sh' where run: "buf_push example_slab (example_buf 1) [Some [65]] (example_shctx 3) = (rc, sh')"
    by (cases "buf_push example_slab (example_buf 1) [Some [65]] (example_shctx 3)")
  with queue_push [OF example_slab_law example_between_locks run] example_push_eval
  show ?thesis by auto
qed

lemma push_between_locks:
  assumes "slab_law S live" and "between_locks live base sh"
  shows "between_locks live base (snd (buf_push S b e sh))"
proof -
  obtain rc s1 where run: "buf_push_locked S b e (shmtx_lock sh) = (rc, s1)"
    by (cases "buf_push_locked S b e (shmtx_lock sh)")
  note l = between_locks_lock [OF assms(2)]
  note c = push_locked_cases(1-3) [OF assms(1) conjunct1 [OF l] run]
  show ?thesis
    unfolding buf_push_def run Let_def prod.case snd_conv
    using c l by (intro between_locks_unlock) simp_all
qed

lemma example_push_between_locks:
  "between_locks example_live {} (snd (buf_push example_slab (example_buf 1) [Some [65]] (example_shctx 3)))"
  by (rule push_between_locks [OF example_slab_law example_between_locks])

text \<open>
  C24. \<open>buf_list\<close>, with the mutex free, when all queued entries have \<open>n\<close> columns: it moves the whole
  queue out, one list part per entry in the order of arrival, and frees every block of every
  node; or it fails and the queue is untouched. An empty queue gives a list with one empty part.
  It fails only when memory does.
\<close>

theorem queue_list:
  assumes "slab_law S live" and "list_law L nalloc" and "between_locks live base sh"
    and "0 < n" and "\<forall>e\<in>set (entries sh). length e = n"
    and "buf_list S L n m sh = (r, sh', m')"
  shows "between_locks live base sh' \<and> (ample m \<longrightarrow> r \<noteq> None) \<and>
    (case r of
       None \<Rightarrow> entries sh' = entries sh
     | Some l \<Rightarrow> entries sh' = [] \<and> live (sh_pool sh') = base \<and>
         li_parts L l = (if entries sh = [] then [[]] else entries sh))"
proof -
  obtain s1 where run: "buf_list_locked S L n m (shmtx_lock sh) = (r, s1, m')"
    and s1: "sh' = shmtx_unlock s1"
    using assms(6) by (auto simp: buf_list_def split: prod.splits)
  note l = between_locks_lock [OF assms(3)]
  note c = list_locked_cases [OF assms(1,2) conjunct1 [OF l] run]
  have ok: "between_locks live base sh'"
    unfolding s1 using c l by (intro between_locks_unlock) simp_all
  have rows: "foldl (add_elt n) [[]] (concat (entries sh)) = (if entries sh = [] then [[]] else entries sh)"
    using assms(4,5) by (intro parts_rows)
  have "ample m \<longrightarrow> r \<noteq> None" using list_locked_ample [OF assms(2) _ run] by blast
  with c(4) ok s1 rows show ?thesis by (auto split: if_splits)
qed

theorem queue_list_witness:
  "\<exists>l sh' m'. buf_list example_slab example_list 1 []
       (snd (buf_push example_slab (example_buf 1) [Some [65]] (example_shctx 3))) = (Some l, sh', m') \<and>
     li_parts example_list l = [[Some [65]]] \<and> entries sh' = []"
proof -
  define sh where "sh = snd (buf_push example_slab (example_buf 1) [Some [65]] (example_shctx 3))"
  have e: "entries sh = [[Some [65]]]"
    using example_push_eval by (simp add: sh_def)
  have b: "between_locks example_live {} sh"
    unfolding sh_def by (rule example_push_between_locks)
  obtain r sh' m' where run: "buf_list example_slab example_list 1 [] sh = (r, sh', m')"
    by (cases "buf_list example_slab example_list 1 [] sh")
  show ?thesis
    using queue_list [OF example_slab_law example_list_law b _ _ run] e run
    by (cases r) (auto simp: sh_def)
qed

text \<open>
  C7. Whatever sequence of pushes, unshifts and whole-queue reads the workers make, each accepted
  entry is either read exactly once or still queued; if nothing is unshifted, the entries are
  read in the order in which they were accepted. No operation leaks or double-frees a block of
  the zone (part of \<open>zone_good\<close>).
\<close>

theorem queue_exactly_once:
  assumes "zone_good z sh" and "\<forall>q\<in>set qs. op_fits z q" and "zone_run z qs sh = (accepted, read, sh')"
  shows "zone_good z sh' \<and>
    mset (entries sh) + mset accepted = mset read + mset (entries sh') \<and>
    ((\<forall>e. Q_unshift e \<notin> set qs) \<longrightarrow> entries sh @ accepted = read @ entries sh')"
proof -
  have fits: "\<forall>q\<in>set qs. zoneq.fits z q"
    using assms(2) op_fits_zoneq [OF assms(1)] by simp
  have "\<forall>q\<in>set qs. \<not> zoneq.is_unshift q" if "\<forall>e. Q_unshift e \<notin> set qs"
  proof
    fix q assume "q \<in> set qs"
    with that show "\<not> zoneq.is_unshift q" by (cases q) auto
  qed
  moreover have "zone_good z sh' \<and>
    mset (entries sh) + mset accepted = mset read + mset (entries sh') \<and>
    ((\<forall>q\<in>set qs. \<not> zoneq.is_unshift q) \<longrightarrow> entries sh @ accepted = read @ entries sh')"
    using assms(3) unfolding zone_run_def
    by (intro zoneq.run_ops_conserve [OF zone_entries_not_Nil assms(1) fits])
  ultimately show ?thesis by simp
qed

lemma example_run_eval:
  "fst (zone_run (example_zone 1 0) [Q_push [None], Q_push [Some [65]], Q_take []] (example_shctx 8)) =
     [[None], [Some [65]]]"
  "entries (snd (snd (zone_run (example_zone 1 0) [Q_push [None], Q_push [Some [65]], Q_take []]
     (example_shctx 8)))) = []"
  by code_simp+

theorem queue_exactly_once_witness:
  "\<exists>sh'. zone_run (example_zone 1 0) [Q_push [None], Q_push [Some [65]], Q_take []] (example_shctx 8) =
      ([[None], [Some [65]]], [[None], [Some [65]]], sh') \<and> entries sh' = []"
proof -
  obtain a t sh' where run: "zone_run (example_zone 1 0)
      [Q_push [None], Q_push [Some [65]], Q_take []] (example_shctx 8) = (a, t, sh')"
    by (cases "zone_run (example_zone 1 0) [Q_push [None], Q_push [Some [65]], Q_take []] (example_shctx 8)")
      auto
  moreover have "a = [[None], [Some [65]]]" "entries sh' = []"
    using example_run_eval run by auto
  moreover have "entries (example_shctx 8) = []" by (simp add: example_shctx_def entries_def)
  ultimately show ?thesis
    using queue_exactly_once [OF example_zone_good _ run] run
    by (simp add: op_fits_def example_zone_def)
qed

text \<open>
  C25. The loop that clears the queue advances by \<open>ngx_queue_next(q)\<close> after the node of \<open>q\<close> was
  freed: it reads the link of every node of the queue, in order, and at each of these reads the node
  is no longer allocated. When the loop ends, the blocks of all nodes are freed.
\<close>

theorem clear_reads_freed_nodes:
  assumes "slab_law S live" and "sh_ok live base sh"
    and "clear_nodes S (sh_queue sh) (sh_pool sh) = (reads, p')"
  shows "map fst reads = map node_addr (sh_queue sh) \<and> (\<forall>(a, p)\<in>set reads. a \<notin> live p) \<and> live p' = base"
proof -
  have q: "distinct (queue_blocks sh)" "set (queue_blocks sh) \<subseteq> live (sh_pool sh)"
    "live (sh_pool sh) - set (queue_blocks sh) = base"
    using assms(2) by (auto simp: sh_ok_def)
  with clear_nodes_reads [OF assms(1), of "sh_queue sh" "sh_pool sh"]
    clear_nodes_live [OF assms(1), of "sh_queue sh" "sh_pool sh"] assms(3)
  show ?thesis by (simp add: queue_blocks_def)
qed

definition example_shctx_1 :: "slab_state shctx" where
  "example_shctx_1 = snd (buf_push example_slab (example_buf 1) [Some [65]] (example_shctx 3))"

lemma example_shctx_1_addrs: "map node_addr (sh_queue example_shctx_1) = [3]"
  by code_simp

theorem clear_reads_freed_nodes_witness:
  "\<exists>p p'. clear_nodes example_slab (sh_queue example_shctx_1) (sh_pool example_shctx_1) = ([(3, p)], p') \<and>
     3 \<notin> example_live p \<and> example_live p' = {}"
proof -
  have ok: "sh_ok example_live {} example_shctx_1"
    using example_push_between_locks by (simp add: between_locks_def example_shctx_1_def)
  obtain reads p' where c: "clear_nodes example_slab (sh_queue example_shctx_1) (sh_pool example_shctx_1) = (reads, p')"
    by (cases "clear_nodes example_slab (sh_queue example_shctx_1) (sh_pool example_shctx_1)")
  from clear_reads_freed_nodes [OF example_slab_law ok c] example_shctx_1_addrs c show ?thesis
    by (cases reads) auto
qed

end
