(* ===== verification/Sqlite.thy ===== *)
theory Sqlite
  imports Column
begin

text \<open>
  The wrappers of \<open>ngx_http_sqlitelog_sqlite3.c\<close>: each calls one function of SQLite, passes its
  result on, and writes a line to nginx's error log when the call failed.

  SQLite is the parameter \<open>sqlite\<close>: its functions act on a state of any type \<open>'w\<close> that stands for
  everything SQLite and the operating system keep. Connections and statements are numbered, and
  \<open>None\<close> is the NULL pointer. \<open>sys\<close> is that state with the error log.
\<close>

section \<open>Result codes\<close>

text \<open>The values of the macros of \<open>sqlite3.h\<close>, and the table of their names.\<close>

abbreviation SQLITE_OK :: int where "SQLITE_OK \<equiv> 0"
abbreviation SQLITE_ERROR :: int where "SQLITE_ERROR \<equiv> 1"
abbreviation SQLITE_BUSY :: int where "SQLITE_BUSY \<equiv> 5"
abbreviation SQLITE_TOOBIG :: int where "SQLITE_TOOBIG \<equiv> 18"
abbreviation SQLITE_ROW :: int where "SQLITE_ROW \<equiv> 100"
abbreviation SQLITE_DONE :: int where "SQLITE_DONE \<equiv> 101"
abbreviation SQLITE_READONLY_DBMOVED :: int where "SQLITE_READONLY_DBMOVED \<equiv> 1032"

definition rcnames :: "(int \<times> string) list" where
  "rcnames = [
     (0, ''SQLITE_OK''), (1, ''SQLITE_ERROR''), (2, ''SQLITE_INTERNAL''), (3, ''SQLITE_PERM''),
     (4, ''SQLITE_ABORT''), (5, ''SQLITE_BUSY''), (6, ''SQLITE_LOCKED''), (7, ''SQLITE_NOMEM''),
     (8, ''SQLITE_READONLY''), (9, ''SQLITE_INTERRUPT''), (10, ''SQLITE_IOERR''),
     (11, ''SQLITE_CORRUPT''), (12, ''SQLITE_NOTFOUND''), (13, ''SQLITE_FULL''),
     (14, ''SQLITE_CANTOPEN''), (15, ''SQLITE_PROTOCOL''), (16, ''SQLITE_EMPTY''),
     (17, ''SQLITE_SCHEMA''), (18, ''SQLITE_TOOBIG''), (19, ''SQLITE_CONSTRAINT''),
     (20, ''SQLITE_MISMATCH''), (21, ''SQLITE_MISUSE''), (22, ''SQLITE_NOLFS''),
     (23, ''SQLITE_AUTH''), (24, ''SQLITE_FORMAT''), (25, ''SQLITE_RANGE''),
     (26, ''SQLITE_NOTADB''), (27, ''SQLITE_NOTICE''), (28, ''SQLITE_WARNING''),
     (100, ''SQLITE_ROW''), (101, ''SQLITE_DONE''), (257, ''SQLITE_ERROR_MISSING_COLLSEQ''),
     (513, ''SQLITE_ERROR_RETRY''), (769, ''SQLITE_ERROR_SNAPSHOT''),
     (266, ''SQLITE_IOERR_READ''), (522, ''SQLITE_IOERR_SHORT_READ''),
     (778, ''SQLITE_IOERR_WRITE''), (1034, ''SQLITE_IOERR_FSYNC''),
     (1290, ''SQLITE_IOERR_DIR_FSYNC''), (1546, ''SQLITE_IOERR_TRUNCATE''),
     (1802, ''SQLITE_IOERR_FSTAT''), (2058, ''SQLITE_IOERR_UNLOCK''),
     (2314, ''SQLITE_IOERR_RDLOCK''), (2570, ''SQLITE_IOERR_DELETE''),
     (2826, ''SQLITE_IOERR_BLOCKED''), (3082, ''SQLITE_IOERR_NOMEM''),
     (3338, ''SQLITE_IOERR_ACCESS''), (3594, ''SQLITE_IOERR_CHECKRESERVEDLOCK''),
     (3850, ''SQLITE_IOERR_LOCK''), (4106, ''SQLITE_IOERR_CLOSE''),
     (4362, ''SQLITE_IOERR_DIR_CLOSE''), (4618, ''SQLITE_IOERR_SHMOPEN''),
     (4874, ''SQLITE_IOERR_SHMSIZE''), (5130, ''SQLITE_IOERR_SHMLOCK''),
     (5386, ''SQLITE_IOERR_SHMMAP''), (5642, ''SQLITE_IOERR_SEEK''),
     (5898, ''SQLITE_IOERR_DELETE_NOENT''), (6154, ''SQLITE_IOERR_MMAP''),
     (6410, ''SQLITE_IOERR_GETTEMPPATH''), (6666, ''SQLITE_IOERR_CONVPATH''),
     (6922, ''SQLITE_IOERR_VNODE''), (7178, ''SQLITE_IOERR_AUTH''),
     (7434, ''SQLITE_IOERR_BEGIN_ATOMIC''), (7690, ''SQLITE_IOERR_COMMIT_ATOMIC''),
     (7946, ''SQLITE_IOERR_ROLLBACK_ATOMIC''), (262, ''SQLITE_LOCKED_SHAREDCACHE''),
     (518, ''SQLITE_LOCKED_VTAB''), (261, ''SQLITE_BUSY_RECOVERY''),
     (517, ''SQLITE_BUSY_SNAPSHOT''), (270, ''SQLITE_CANTOPEN_NOTEMPDIR''),
     (526, ''SQLITE_CANTOPEN_ISDIR''), (782, ''SQLITE_CANTOPEN_FULLPATH''),
     (1038, ''SQLITE_CANTOPEN_CONVPATH''), (1294, ''SQLITE_CANTOPEN_DIRTYWAL''),
     (1550, ''SQLITE_CANTOPEN_SYMLINK''), (267, ''SQLITE_CORRUPT_VTAB''),
     (523, ''SQLITE_CORRUPT_SEQUENCE''), (264, ''SQLITE_READONLY_RECOVERY''),
     (520, ''SQLITE_READONLY_CANTLOCK''), (776, ''SQLITE_READONLY_ROLLBACK''),
     (1032, ''SQLITE_READONLY_DBMOVED''), (1288, ''SQLITE_READONLY_CANTINIT''),
     (1544, ''SQLITE_READONLY_DIRECTORY''), (516, ''SQLITE_ABORT_ROLLBACK''),
     (275, ''SQLITE_CONSTRAINT_CHECK''), (531, ''SQLITE_CONSTRAINT_COMMITHOOK''),
     (787, ''SQLITE_CONSTRAINT_FOREIGNKEY''), (1043, ''SQLITE_CONSTRAINT_FUNCTION''),
     (1299, ''SQLITE_CONSTRAINT_NOTNULL''), (1555, ''SQLITE_CONSTRAINT_PRIMARYKEY''),
     (1811, ''SQLITE_CONSTRAINT_TRIGGER''), (2067, ''SQLITE_CONSTRAINT_UNIQUE''),
     (2323, ''SQLITE_CONSTRAINT_VTAB''), (2579, ''SQLITE_CONSTRAINT_ROWID''),
     (2835, ''SQLITE_CONSTRAINT_PINNED''), (283, ''SQLITE_NOTICE_RECOVER_WAL''),
     (539, ''SQLITE_NOTICE_RECOVER_ROLLBACK''), (284, ''SQLITE_WARNING_AUTOINDEX''),
     (279, ''SQLITE_AUTH_USER''), (256, ''SQLITE_OK_LOAD_PERMANENTLY''),
     (512, ''SQLITE_OK_SYMLINK'')
  ]"

definition rcname_cs :: "int \<Rightarrow> string" where
  "rcname_cs rc = (case map_of rcnames rc of Some name \<Rightarrow> name | None \<Rightarrow> '''')"

definition rcname :: "int \<Rightarrow> string" where
  "rcname rc = take (c_strlen (rcname_cs rc)) (rcname_cs rc)"

section \<open>SQLite's interface\<close>

type_synonym conn = nat
type_synonym stmt = nat

record 'w sqlite =
  s3_open_v2 :: "string \<Rightarrow> int \<Rightarrow> 'w \<Rightarrow> int \<times> conn option \<times> 'w"
  s3_prepare_v2 :: "conn option \<Rightarrow> string \<Rightarrow> 'w \<Rightarrow> int \<times> stmt option \<times> 'w"
  s3_bind_text :: "stmt option \<Rightarrow> int \<Rightarrow> ngx_str \<Rightarrow> 'w \<Rightarrow> int \<times> 'w"
  s3_bind_blob :: "stmt option \<Rightarrow> int \<Rightarrow> ngx_str \<Rightarrow> 'w \<Rightarrow> int \<times> 'w"
  s3_bind_null :: "stmt option \<Rightarrow> int \<Rightarrow> 'w \<Rightarrow> int \<times> 'w"
  s3_step :: "stmt option \<Rightarrow> 'w \<Rightarrow> int \<times> 'w"
  s3_finalize :: "stmt option \<Rightarrow> 'w \<Rightarrow> int \<times> 'w"
  s3_busy_timeout :: "conn option \<Rightarrow> int \<Rightarrow> 'w \<Rightarrow> int \<times> 'w"
  s3_exec :: "conn option \<Rightarrow> string \<Rightarrow> 'w \<Rightarrow> int \<times> 'w"
  s3_close :: "conn option \<Rightarrow> 'w \<Rightarrow> int \<times> 'w"
  s3_wal_checkpoint_v2 :: "conn option \<Rightarrow> int \<Rightarrow> 'w \<Rightarrow> int \<times> 'w"
  s3_errmsg :: "conn option \<Rightarrow> 'w \<Rightarrow> string"
  s3_extended_errcode :: "conn option \<Rightarrow> 'w \<Rightarrow> int"
  s3_column_count :: "stmt option \<Rightarrow> 'w \<Rightarrow> int"
  s3_column_text :: "stmt option \<Rightarrow> int \<Rightarrow> 'w \<Rightarrow> string"
  s3_column_int :: "stmt option \<Rightarrow> int \<Rightarrow> 'w \<Rightarrow> int"
  os_random :: "'w \<Rightarrow> nat \<times> 'w"
  os_msleep :: "int \<Rightarrow> 'w \<Rightarrow> 'w"

text \<open>
  The error log is oldest first. \<open>ub\<close> is not in the code: it is set when the code would read outside an
  array, after which C promises nothing.
\<close>

record 'w sys =
  sq :: 'w
  elog :: "log_line list"
  ub :: bool

definition log_error :: "string \<Rightarrow> log_arg list \<Rightarrow> 'w sys \<Rightarrow> 'w sys" where
  "log_error line args s = s\<lparr>elog := elog s @ [(line, args)]\<rparr>"

section \<open>The wrappers\<close>

definition errmsg :: "'w sqlite \<Rightarrow> conn option \<Rightarrow> 'w \<Rightarrow> string" where
  "errmsg S c w = take (c_strlen (s3_errmsg S c w)) (s3_errmsg S c w)"

text \<open>
  The part that all wrappers repeat after a failed call: the line names the extended result code
  of the connection if it differs from the primary one.
\<close>

definition report ::
  "'w sqlite \<Rightarrow> conn option \<Rightarrow> string \<Rightarrow> log_arg list \<Rightarrow> int \<Rightarrow> 'w sys \<Rightarrow> 'w sys" where
  "report S c line args rc_primary s =
     (let error_message = errmsg S c (sq s);
          rc_extended = s3_extended_errcode S c (sq s)
      in if rc_primary = rc_extended
         then log_error line (args @ [Arg_V (rcname rc_primary), Arg_d rc_primary, Arg_V error_message]) s
         else log_error line (args @ [Arg_V (rcname rc_extended), Arg_d rc_extended, Arg_V error_message]) s)"

text \<open>
  The name of a file and a script reach SQLite as C strings: it sees them up to the first NUL. The
  text of a prepared statement comes with its length.
\<close>

definition sqlite3_open_v2 ::
  "'w sqlite \<Rightarrow> string \<Rightarrow> int \<Rightarrow> 'w sys \<Rightarrow> int \<times> conn option \<times> 'w sys" where
  "sqlite3_open_v2 S filename flags s =
     (let (rc_primary, c, w) = s3_open_v2 S (upto_nul filename) flags (sq s); s = s\<lparr>sq := w\<rparr>
      in if rc_primary = SQLITE_OK then (rc_primary, c, s)
         else (rc_primary, c,
           report S c ''sqlitelog: sqlite3 failed to open database \"%V\" due to %V (%d): \"%V\"''
             [Arg_V filename] rc_primary s))"

definition sqlite3_prepare_v2 ::
  "'w sqlite \<Rightarrow> conn option \<Rightarrow> string \<Rightarrow> 'w sys \<Rightarrow> int \<times> stmt option \<times> 'w sys" where
  "sqlite3_prepare_v2 S c sql s =
     (let (rc_primary, st, w) = s3_prepare_v2 S c sql (sq s); s = s\<lparr>sq := w\<rparr>
      in if rc_primary = SQLITE_OK then (rc_primary, st, s)
         else (rc_primary, st,
           report S c ''sqlitelog: sqlite3 failed to prepare statement \"%V\" due to %V (%d): \"%V\"''
             [Arg_V sql] rc_primary s))"

text \<open>The length of a value.\<close>

definition val_len :: "ngx_str \<Rightarrow> int" where
  "val_len v = (case v of None \<Rightarrow> 0 | Some bs \<Rightarrow> int (length bs))"

definition sqlite3_bind_text ::
  "'w sqlite \<Rightarrow> conn option \<Rightarrow> stmt option \<Rightarrow> int \<Rightarrow> ngx_str \<Rightarrow> 'w sys \<Rightarrow> int \<times> 'w sys" where
  "sqlite3_bind_text S c st position val s =
     (let (rc_primary, w) = s3_bind_text S st position val (sq s); s = s\<lparr>sq := w\<rparr>
      in if rc_primary = SQLITE_OK then (rc_primary, s)
         else if rc_primary = SQLITE_TOOBIG
         then (rc_primary, log_error
           ''sqlitelog: sqlite3 failed to bind text of length %d to prepared statement due to %V (%d): \"%V\"''
           [Arg_d (val_len val), Arg_V (rcname rc_primary), Arg_d rc_primary, Arg_V (errmsg S c w)] s)
         else (rc_primary, report S c
           ''sqlitelog: sqlite3 failed to bind text \"%V\" to prepared statement due to %V (%d): \"%V\"''
           [Arg_V (val_text val)] rc_primary s))"

definition sqlite3_bind_blob ::
  "'w sqlite \<Rightarrow> conn option \<Rightarrow> stmt option \<Rightarrow> int \<Rightarrow> ngx_str \<Rightarrow> 'w sys \<Rightarrow> int \<times> 'w sys" where
  "sqlite3_bind_blob S c st position val s =
     (let (rc_primary, w) = s3_bind_blob S st position val (sq s); s = s\<lparr>sq := w\<rparr>
      in if rc_primary = SQLITE_OK then (rc_primary, s)
         else if rc_primary = SQLITE_TOOBIG
         then (rc_primary, log_error
           ''sqlitelog: sqlite3 failed to bind blob of length %d to prepared statement due to %V (%d): \"%V\"''
           [Arg_d (val_len val), Arg_V (rcname rc_primary), Arg_d rc_primary, Arg_V (errmsg S c w)] s)
         else (rc_primary, report S c
           ''sqlitelog: sqlite3 failed to bind blob to prepared statement due to %V (%d): \"%V\"''
           [] rc_primary s))"

definition sqlite3_bind_null ::
  "'w sqlite \<Rightarrow> conn option \<Rightarrow> stmt option \<Rightarrow> int \<Rightarrow> 'w sys \<Rightarrow> int \<times> 'w sys" where
  "sqlite3_bind_null S c st position s =
     (let (rc_primary, w) = s3_bind_null S st position (sq s); s = s\<lparr>sq := w\<rparr>
      in if rc_primary = SQLITE_OK then (rc_primary, s)
         else (rc_primary, report S c
           ''sqlitelog: sqlite3 failed to bind null to prepared statement due to %V (%d): \"%V\"''
           [] rc_primary s))"

definition sqlite3_step ::
  "'w sqlite \<Rightarrow> conn option \<Rightarrow> stmt option \<Rightarrow> 'w sys \<Rightarrow> int \<times> 'w sys" where
  "sqlite3_step S c st s =
     (let (rc_primary, w) = s3_step S st (sq s); s = s\<lparr>sq := w\<rparr>
      in if rc_primary = SQLITE_DONE \<or> rc_primary = SQLITE_ROW then (rc_primary, s)
         else (rc_primary, report S c
           ''sqlitelog: sqlite3 failed to step prepared statement due to %V (%d): \"%V\"''
           [] rc_primary s))"

definition sqlite3_finalize ::
  "'w sqlite \<Rightarrow> conn option \<Rightarrow> stmt option \<Rightarrow> 'w sys \<Rightarrow> int \<times> 'w sys" where
  "sqlite3_finalize S c st s =
     (let (rc_primary, w) = s3_finalize S st (sq s); s = s\<lparr>sq := w\<rparr>
      in if rc_primary = SQLITE_OK then (rc_primary, s)
         else (rc_primary, report S c
           ''sqlitelog: sqlite3 failed to finalize prepared statement due to %V (%d): \"%V\"''
           [] rc_primary s))"

definition sqlite3_busy_timeout ::
  "'w sqlite \<Rightarrow> conn option \<Rightarrow> int \<Rightarrow> 'w sys \<Rightarrow> int \<times> 'w sys" where
  "sqlite3_busy_timeout S c duration_ms s =
     (let (rc_primary, w) = s3_busy_timeout S c duration_ms (sq s); s = s\<lparr>sq := w\<rparr>
      in if rc_primary = SQLITE_OK then (rc_primary, s)
         else (rc_primary, report S c
           ''sqlitelog: sqlite3 failed to set busy timeout %d due to %V (%d): \"%V\"''
           [Arg_d duration_ms] rc_primary s))"

definition sqlite3_exec ::
  "'w sqlite \<Rightarrow> conn option \<Rightarrow> string \<Rightarrow> 'w sys \<Rightarrow> int \<times> 'w sys" where
  "sqlite3_exec S c sql s =
     (let (rc_primary, w) = s3_exec S c (upto_nul sql) (sq s); s = s\<lparr>sq := w\<rparr>
      in if rc_primary = SQLITE_OK then (rc_primary, s)
         else (rc_primary, report S c
           ''sqlitelog: sqlite3 failed to execute statement \"%V\" due to %V (%d): \"%V\"''
           [Arg_V sql] rc_primary s))"

definition sqlite3_close :: "'w sqlite \<Rightarrow> conn option \<Rightarrow> 'w sys \<Rightarrow> int \<times> 'w sys" where
  "sqlite3_close S c s =
     (let (rc_primary, w) = s3_close S c (sq s); s = s\<lparr>sq := w\<rparr>
      in if rc_primary = SQLITE_OK then (rc_primary, s)
         else (rc_primary, report S c
           ''sqlitelog: sqlite3 failed to close connection due to %V (%d): \"%V\"''
           [] rc_primary s))"

definition sqlite3_wal_checkpoint_v2 ::
  "'w sqlite \<Rightarrow> conn option \<Rightarrow> int \<Rightarrow> 'w sys \<Rightarrow> int \<times> 'w sys" where
  "sqlite3_wal_checkpoint_v2 S c emode s =
     (let (rc_primary, w) = s3_wal_checkpoint_v2 S c emode (sq s); s = s\<lparr>sq := w\<rparr>
      in if rc_primary = SQLITE_OK \<or> rc_primary = SQLITE_BUSY then (rc_primary, s)
         else (rc_primary, report S c
           ''sqlitelog: sqlite3 failed to execute WAL checkpoint due to %V (%d): \"%V\"''
           [] rc_primary s))"

section \<open>The contract of a wrapper\<close>

text \<open>
  \<open>line_names code line\<close>: the line ends with the name, the number and the message of \<open>code\<close>.

  \<open>reports wrap raw ok code\<close>: \<open>wrap\<close> has the result and the effect of the SQLite function \<open>raw\<close>; it
  writes nothing to the error log when the result is one of \<open>ok\<close>, and otherwise exactly one line,
  which names \<open>code\<close> of the result and of the state after the call. \<open>hands_out\<close> is the same for a
  function that also hands out a pointer (a connection or a statement): \<open>wrap\<close> hands out the same.
\<close>

definition line_names :: "int \<Rightarrow> log_line \<Rightarrow> bool" where
  "line_names code line \<longleftrightarrow>
     (\<exists>args msg. snd line = args @ [Arg_V (rcname code), Arg_d code, Arg_V msg])"

definition reports ::
  "('w sys \<Rightarrow> int \<times> 'w sys) \<Rightarrow> ('w \<Rightarrow> int \<times> 'w) \<Rightarrow> (int \<Rightarrow> bool) \<Rightarrow> (int \<Rightarrow> 'w \<Rightarrow> int) \<Rightarrow> bool" where
  "reports wrap raw ok code \<longleftrightarrow>
     (\<forall>s. case wrap s of (rc, s') \<Rightarrow>
        raw (sq s) = (rc, sq s') \<and> ub s' = ub s \<and>
        (if ok rc then elog s' = elog s
         else \<exists>line. elog s' = elog s @ [line] \<and> line_names (code rc (sq s')) line))"

definition hands_out ::
  "('w sys \<Rightarrow> int \<times> 'a option \<times> 'w sys) \<Rightarrow> ('w \<Rightarrow> int \<times> 'a option \<times> 'w) \<Rightarrow> ('a option \<Rightarrow> 'w \<Rightarrow> int) \<Rightarrow> bool"
  where
  "hands_out wrap raw code \<longleftrightarrow>
     (\<forall>s. case wrap s of (rc, ptr, s') \<Rightarrow>
        raw (sq s) = (rc, ptr, sq s') \<and> ub s' = ub s \<and>
        (if rc = SQLITE_OK then elog s' = elog s
         else \<exists>line. elog s' = elog s @ [line] \<and> line_names (code ptr (sq s')) line))"

locale wrapped_call =
  fixes wrap :: "'x \<Rightarrow> 'w sys \<Rightarrow> int \<times> 'w sys"
    and raw :: "'x \<Rightarrow> 'w \<Rightarrow> int \<times> 'w"
    and ok :: "int \<Rightarrow> bool"
    and code :: "'x \<Rightarrow> int \<Rightarrow> 'w \<Rightarrow> int"
  assumes contract: "reports (wrap x) (raw x) ok (code x)"
begin

lemma at_state:
  "case wrap x s of (rc, s') \<Rightarrow> raw x (sq s) = (rc, sq s') \<and> ub s' = ub s \<and>
     (if ok rc then elog s' = elog s
      else \<exists>line. elog s' = elog s @ [line] \<and> line_names (code x rc (sq s')) line)"
  using contract [of x] unfolding reports_def by (rule spec)

lemma result: "wrap x s = (rc, s') \<Longrightarrow> raw x (sq s) = (rc, sq s') \<and> ub s' = ub s"
  using at_state [of x s] by simp

lemma silent: "wrap x s = (rc, s') \<Longrightarrow> ok rc \<Longrightarrow> elog s' = elog s"
  using at_state [of x s] by simp

lemma one_line:
  assumes "wrap x s = (rc, s')" and "\<not> ok rc"
  obtains line where "elog s' = elog s @ [line]" and "line_names (code x rc (sq s')) line"
  using at_state [of x s] assms by auto

lemma log_grows: "wrap x s = (rc, s') \<Longrightarrow> \<exists>ls. elog s' = elog s @ ls"
  using silent one_line by (cases "ok rc") (metis append_Nil2, blast)

end

lemma sys_update_simps [simp]:
  "sq (log_error line args s) = sq s" "ub (log_error line args s) = ub s"
  "elog (log_error line args s) = elog s @ [(line, args)]"
  by (simp_all add: log_error_def)

lemma report_spec [simp]:
  "sq (report S c line args rc s) = sq s" "ub (report S c line args rc s) = ub s"
  by (simp_all add: report_def Let_def)

lemma report_line:
  "\<exists>l. elog (report S c line args rc s) = elog s @ [l] \<and>
     line_names (s3_extended_errcode S c (sq s)) l"
  by (auto simp: report_def Let_def line_names_def)

lemma names_rc: "line_names rc (line, args @ [Arg_V (rcname rc), Arg_d rc, Arg_V msg])"
  by (auto simp: line_names_def)

abbreviation ext_code :: "'w sqlite \<Rightarrow> conn option \<Rightarrow> int \<Rightarrow> 'w \<Rightarrow> int" where
  "ext_code S c \<equiv> \<lambda>rc w. s3_extended_errcode S c w"

abbreviation bind_code :: "'w sqlite \<Rightarrow> conn option \<Rightarrow> int \<Rightarrow> 'w \<Rightarrow> int" where
  "bind_code S c \<equiv> \<lambda>rc w. if rc = SQLITE_TOOBIG then rc else s3_extended_errcode S c w"

lemma reports_I:
  assumes "\<And>s rc s'. wrap s = (rc, s') \<Longrightarrow> raw (sq s) = (rc, sq s') \<and> ub s' = ub s \<and>
    (ok rc \<longrightarrow> elog s' = elog s) \<and>
    (\<not> ok rc \<longrightarrow> (\<exists>line. elog s' = elog s @ [line] \<and> line_names (code rc (sq s')) line))"
  shows "reports wrap raw ok code"
  unfolding reports_def using assms by (simp split: prod.splits)

lemma report_exists:
  "\<exists>l. elog (report S c line args rc (s\<lparr>sq := w\<rparr>)) = elog s @ [l] \<and>
     line_names (s3_extended_errcode S c w) l"
  using report_line [of S c line args rc "s\<lparr>sq := w\<rparr>"] by simp

lemma finalize_reports:
  "reports (sqlite3_finalize S c st) (s3_finalize S st) (\<lambda>rc. rc = SQLITE_OK) (ext_code S c)"
  by (rule reports_I)
    (auto simp: sqlite3_finalize_def Let_def report_exists simp del: split_paired_Ex
      split: prod.splits if_splits)

lemma step_reports:
  "reports (sqlite3_step S c st) (s3_step S st) (\<lambda>rc. rc = SQLITE_DONE \<or> rc = SQLITE_ROW) (ext_code S c)"
  by (rule reports_I)
    (auto simp: sqlite3_step_def Let_def report_exists simp del: split_paired_Ex
      split: prod.splits if_splits)

lemma bind_null_reports:
  "reports (sqlite3_bind_null S c st i) (s3_bind_null S st i) (\<lambda>rc. rc = SQLITE_OK) (ext_code S c)"
  by (rule reports_I)
    (auto simp: sqlite3_bind_null_def Let_def report_exists simp del: split_paired_Ex
      split: prod.splits if_splits)

lemma bind_text_reports:
  "reports (sqlite3_bind_text S c st i v) (s3_bind_text S st i v) (\<lambda>rc. rc = SQLITE_OK) (bind_code S c)"
  by (rule reports_I)
    (auto simp: sqlite3_bind_text_def Let_def report_exists simp del: split_paired_Ex
      intro: names_rc [where args = "[_]", simplified] split: prod.splits if_splits)

lemma bind_blob_reports:
  "reports (sqlite3_bind_blob S c st i v) (s3_bind_blob S st i v) (\<lambda>rc. rc = SQLITE_OK) (bind_code S c)"
  by (rule reports_I)
    (auto simp: sqlite3_bind_blob_def Let_def report_exists simp del: split_paired_Ex
      intro: names_rc [where args = "[_]", simplified] split: prod.splits if_splits)

lemma busy_timeout_reports:
  "reports (sqlite3_busy_timeout S c ms) (s3_busy_timeout S c ms) (\<lambda>rc. rc = SQLITE_OK) (ext_code S c)"
  by (rule reports_I)
    (auto simp: sqlite3_busy_timeout_def Let_def report_exists simp del: split_paired_Ex
      split: prod.splits if_splits)

lemma exec_reports:
  "reports (sqlite3_exec S c sql) (s3_exec S c (upto_nul sql)) (\<lambda>rc. rc = SQLITE_OK) (ext_code S c)"
  by (rule reports_I)
    (auto simp: sqlite3_exec_def Let_def report_exists simp del: split_paired_Ex
      split: prod.splits if_splits)

lemma close_reports:
  "reports (sqlite3_close S c) (s3_close S c) (\<lambda>rc. rc = SQLITE_OK) (ext_code S c)"
  by (rule reports_I)
    (auto simp: sqlite3_close_def Let_def report_exists simp del: split_paired_Ex
      split: prod.splits if_splits)

lemma wal_checkpoint_reports:
  "reports (sqlite3_wal_checkpoint_v2 S c emode) (s3_wal_checkpoint_v2 S c emode)
     (\<lambda>rc. rc = SQLITE_OK \<or> rc = SQLITE_BUSY) (ext_code S c)"
  by (rule reports_I)
    (auto simp: sqlite3_wal_checkpoint_v2_def Let_def report_exists simp del: split_paired_Ex
      split: prod.splits if_splits)

text \<open>For \<open>open\<close> the connection asked for its error is the one the call produced.\<close>

lemma prepare_hands_out:
  "hands_out (sqlite3_prepare_v2 S c sql) (s3_prepare_v2 S c sql) (\<lambda>st. s3_extended_errcode S c)"
  by (auto simp: hands_out_def sqlite3_prepare_v2_def Let_def report_exists simp del: split_paired_Ex
      split: prod.splits if_splits)

lemma open_hands_out:
  "hands_out (sqlite3_open_v2 S f fl) (s3_open_v2 S (upto_nul f) fl) (s3_extended_errcode S)"
  by (auto simp: hands_out_def sqlite3_open_v2_def Let_def report_exists simp del: split_paired_Ex
      split: prod.splits if_splits)

lemma handed_out:
  assumes "hands_out wrap raw code" and "wrap s = (rc, ptr, s')"
  shows "raw (sq s) = (rc, ptr, sq s') \<and> ub s' = ub s"
  using assms(1) [unfolded hands_out_def, rule_format, of s] assms(2) by simp

interpretation wfin: wrapped_call "\<lambda>(S, c, st). sqlite3_finalize S c st" "\<lambda>(S, c, st). s3_finalize S st"
  "\<lambda>rc. rc = SQLITE_OK" "\<lambda>(S, c, st). ext_code S c"
  by unfold_locales (auto simp: finalize_reports)

interpretation wstep: wrapped_call "\<lambda>(S, c, st). sqlite3_step S c st" "\<lambda>(S, c, st). s3_step S st"
  "\<lambda>rc. rc = SQLITE_DONE \<or> rc = SQLITE_ROW" "\<lambda>(S, c, st). ext_code S c"
  by unfold_locales (auto simp: step_reports)

interpretation wtext: wrapped_call "\<lambda>(S, c, st, i, v). sqlite3_bind_text S c st i v"
  "\<lambda>(S, c, st, i, v). s3_bind_text S st i v" "\<lambda>rc. rc = SQLITE_OK" "\<lambda>(S, c, st, i, v). bind_code S c"
  by unfold_locales (auto simp: bind_text_reports)

interpretation wblob: wrapped_call "\<lambda>(S, c, st, i, v). sqlite3_bind_blob S c st i v"
  "\<lambda>(S, c, st, i, v). s3_bind_blob S st i v" "\<lambda>rc. rc = SQLITE_OK" "\<lambda>(S, c, st, i, v). bind_code S c"
  by unfold_locales (auto simp: bind_blob_reports)

interpretation wexec: wrapped_call "\<lambda>(S, c, sql). sqlite3_exec S c sql" "\<lambda>(S, c, sql). s3_exec S c (upto_nul sql)"
  "\<lambda>rc. rc = SQLITE_OK" "\<lambda>(S, c, sql). ext_code S c"
  by unfold_locales (auto simp: exec_reports)

interpretation wclose: wrapped_call "\<lambda>(S, c). sqlite3_close S c" "\<lambda>(S, c). s3_close S c"
  "\<lambda>rc. rc = SQLITE_OK" "\<lambda>(S, c). ext_code S c"
  by unfold_locales (auto simp: close_reports)

interpretation wbusy: wrapped_call "\<lambda>(S, c, ms). sqlite3_busy_timeout S c ms"
  "\<lambda>(S, c, ms). s3_busy_timeout S c ms" "\<lambda>rc. rc = SQLITE_OK" "\<lambda>(S, c, ms). ext_code S c"
  by unfold_locales (auto simp: busy_timeout_reports)

interpretation wckpt: wrapped_call "\<lambda>(S, c, e). sqlite3_wal_checkpoint_v2 S c e"
  "\<lambda>(S, c, e). s3_wal_checkpoint_v2 S c e" "\<lambda>rc. rc = SQLITE_OK \<or> rc = SQLITE_BUSY"
  "\<lambda>(S, c, e). ext_code S c"
  by unfold_locales (auto simp: wal_checkpoint_reports)

lemmas finalize_result = wfin.result [of "(S, c, st)" for S c st, simplified]
lemmas step_result = wstep.result [of "(S, c, st)" for S c st, simplified]
lemmas bind_text_result = wtext.result [of "(S, c, st, i, v)" for S c st i v, simplified]
lemmas bind_blob_result = wblob.result [of "(S, c, st, i, v)" for S c st i v, simplified]
lemmas exec_result = wexec.result [of "(S, c, sql)" for S c sql, simplified]
lemmas close_result = wclose.result [of "(S, c)" for S c, simplified]
lemmas busy_timeout_result = wbusy.result [of "(S, c, ms)" for S c ms, simplified]
lemmas wal_checkpoint_result = wckpt.result [of "(S, c, e)" for S c e, simplified]

lemmas prepare_result = handed_out [OF prepare_hands_out]
lemmas open_result = handed_out [OF open_hands_out]

text \<open>The statements of a transaction have no NUL.\<close>

lemma upto_nul_txn [simp]:
  "upto_nul ''BEGIN EXCLUSIVE TRANSACTION'' = ''BEGIN EXCLUSIVE TRANSACTION''"
  "upto_nul ''COMMIT'' = ''COMMIT''" "upto_nul ''ROLLBACK'' = ''ROLLBACK''"
  by (simp_all add: upto_nul_def)

lemma exec_txn:
  "sqlite3_exec S c ''BEGIN EXCLUSIVE TRANSACTION'' s = (rc, s') \<Longrightarrow>
    s3_exec S c ''BEGIN EXCLUSIVE TRANSACTION'' (sq s) = (rc, sq s') \<and> ub s' = ub s"
  "sqlite3_exec S c ''COMMIT'' s = (rc, s') \<Longrightarrow> s3_exec S c ''COMMIT'' (sq s) = (rc, sq s') \<and> ub s' = ub s"
  "sqlite3_exec S c ''ROLLBACK'' s = (rc, s') \<Longrightarrow> s3_exec S c ''ROLLBACK'' (sq s) = (rc, sq s') \<and> ub s' = ub s"
  using exec_result upto_nul_txn by metis+

section \<open>Properties\<close>

text \<open>
  C26. Every wrapper returns what the SQLite function returned, hands out the connection or statement
  that it handed out, and has exactly its effect, on the file name or script up to its first NUL; it is
  silent on success, and writes exactly one error line otherwise, which names the extended result
  code of the connection (a value that is too big is reported with its primary code). Stepping
  succeeds with DONE or ROW, a checkpoint also with BUSY.
\<close>

theorem wrappers_report:
  "hands_out (sqlite3_open_v2 S f fl) (s3_open_v2 S (upto_nul f) fl) (s3_extended_errcode S) \<and>
   hands_out (sqlite3_prepare_v2 S c sql) (s3_prepare_v2 S c sql) (\<lambda>st. s3_extended_errcode S c) \<and>
   reports (sqlite3_bind_text S c st i v) (s3_bind_text S st i v) (\<lambda>rc. rc = SQLITE_OK) (bind_code S c) \<and>
   reports (sqlite3_bind_blob S c st i v) (s3_bind_blob S st i v) (\<lambda>rc. rc = SQLITE_OK) (bind_code S c) \<and>
   reports (sqlite3_bind_null S c st i) (s3_bind_null S st i) (\<lambda>rc. rc = SQLITE_OK) (ext_code S c) \<and>
   reports (sqlite3_step S c st) (s3_step S st) (\<lambda>rc. rc = SQLITE_DONE \<or> rc = SQLITE_ROW) (ext_code S c) \<and>
   reports (sqlite3_finalize S c st) (s3_finalize S st) (\<lambda>rc. rc = SQLITE_OK) (ext_code S c) \<and>
   reports (sqlite3_busy_timeout S c ms) (s3_busy_timeout S c ms) (\<lambda>rc. rc = SQLITE_OK) (ext_code S c) \<and>
   reports (sqlite3_exec S c sql) (s3_exec S c (upto_nul sql)) (\<lambda>rc. rc = SQLITE_OK) (ext_code S c) \<and>
   reports (sqlite3_close S c) (s3_close S c) (\<lambda>rc. rc = SQLITE_OK) (ext_code S c) \<and>
   reports (sqlite3_wal_checkpoint_v2 S c emode) (s3_wal_checkpoint_v2 S c emode)
     (\<lambda>rc. rc = SQLITE_OK \<or> rc = SQLITE_BUSY) (ext_code S c)"
  by (intro conjI open_hands_out prepare_hands_out bind_text_reports bind_blob_reports bind_null_reports step_reports
      finalize_reports busy_timeout_reports exec_reports close_reports wal_checkpoint_reports)

text \<open>The primary code of an extended code is its low byte.\<close>

definition primary_code :: "int \<Rightarrow> int" where
  "primary_code rc = rc mod 256"

lemma rcnames_distinct: "distinct (map fst rcnames)" "distinct (map snd rcnames)"
  by code_simp+

lemma rcnames_no_nul: "list_all (\<lambda>(code, name). nul \<notin> set name) rcnames"
  by code_simp

lemma rcname_eq: "rcname rc = rcname_cs rc"
proof (cases "map_of rcnames rc")
  case (Some name)
  then have "nul \<notin> set name"
    using rcnames_no_nul by (auto simp: list_all_iff dest: map_of_SomeD)
  with Some show ?thesis by (simp add: rcname_def rcname_cs_def c_strlen_no_nul)
qed (simp add: rcname_def rcname_cs_def)

lemma rcname_no_nul: "nul \<notin> set (rcname rc)"
proof (cases "map_of rcnames rc")
  case (Some name)
  then have "nul \<notin> set name"
    using rcnames_no_nul by (auto simp: list_all_iff dest: map_of_SomeD)
  with Some show ?thesis by (simp add: rcname_eq rcname_cs_def)
qed (simp add: rcname_eq rcname_cs_def)

lemma rcname_entry: "(code, name) \<in> set rcnames \<Longrightarrow> rcname code = name"
  using rcnames_distinct(1) by (simp add: rcname_eq rcname_cs_def)

lemma rcnames_prefix:
  "list_all (\<lambda>(code, name). let p = rcname_cs (primary_code code) in take (length p) name = p) rcnames"
  by code_simp

text \<open>
  The table of names has an entry per code and a code per name; the name of every extended code
  starts with the name of its primary code, and codes that are not in the table have the empty
  name. So the line in the error log identifies the result code.
\<close>

theorem rcname_table:
  "distinct (map fst rcnames) \<and> distinct (map snd rcnames) \<and>
   list_all (\<lambda>(code, name). rcname code = name \<and>
     ngx_has_prefix name (rcname (primary_code code))) rcnames \<and>
   (rc \<in> set (map fst rcnames) \<or> rcname rc = '''')"
proof (intro conjI)
  show "distinct (map fst rcnames)" "distinct (map snd rcnames)" by (rule rcnames_distinct)+
  show "list_all (\<lambda>(code, name). rcname code = name \<and>
     ngx_has_prefix name (rcname (primary_code code))) rcnames"
    unfolding list_all_iff
  proof clarify
    fix code name assume in_table: "(code, name) \<in> set rcnames"
    let ?p = "rcname (primary_code code)"
    have "take (length ?p) name = ?p"
      using rcnames_prefix in_table by (auto simp: list_all_iff Let_def rcname_eq)
    with rcname_no_nul show "rcname code = name \<and> ngx_has_prefix name ?p"
      using rcname_entry [OF in_table] by (metis append_take_drop_id ngx_has_prefix_iff)
  qed
  show "rc \<in> set (map fst rcnames) \<or> rcname rc = ''''"
  proof (cases "map_of rcnames rc")
    case None
    then show ?thesis by (simp add: rcname_eq rcname_cs_def)
  next
    case (Some name)
    from map_of_SomeD [OF this] show ?thesis by force
  qed
qed

end
