(* ===== verification/Sqlite_Laws.thy ===== *)
theory Sqlite_Laws
  imports Sqlite
begin

text \<open>
  What SQLite's documentation promises, as far as the database component relies on it: prepared
  INSERT statements and transactions (\<open>sqlite_law\<close>), connections (\<open>conn_law\<close>), and what sleeps
  (\<open>sleep_law\<close>). The last section is a small SQLite in memory that keeps these promises, on which
  the witnesses of the database properties run.
\<close>

section \<open>What SQLite promises\<close>

text \<open>
  \<open>v_rows c w\<close> are the rows that the connection \<open>c\<close> has committed to the log table, \<open>v_txn c w\<close> the
  rows of its open transaction, if one is open, and \<open>v_params k w\<close> the connection and the
  parameters of the prepared INSERT \<open>k\<close>.
\<close>

record 'w view =
  v_rows :: "conn \<Rightarrow> 'w \<Rightarrow> ngx_str list list"
  v_txn :: "conn \<Rightarrow> 'w \<Rightarrow> ngx_str list list option"
  v_params :: "stmt \<Rightarrow> 'w \<Rightarrow> (conn \<times> ngx_str list) option"

definition same_rows :: "'w view \<Rightarrow> conn \<Rightarrow> 'w \<Rightarrow> 'w \<Rightarrow> bool" where
  "same_rows V c w w' \<longleftrightarrow> v_rows V c w' = v_rows V c w \<and> v_txn V c w' = v_txn V c w"

text \<open>A row inserted: into the table, or into the open transaction.\<close>

definition row_added :: "'w view \<Rightarrow> conn \<Rightarrow> ngx_str list \<Rightarrow> 'w \<Rightarrow> 'w \<Rightarrow> bool" where
  "row_added V c r w w' \<longleftrightarrow>
     (case v_txn V c w of
        None \<Rightarrow> v_rows V c w' = v_rows V c w @ [r] \<and> v_txn V c w' = None
      | Some rs \<Rightarrow> v_rows V c w' = v_rows V c w \<and> v_txn V c w' = Some (rs @ [r]))"

text \<open>
  A failed statement commits nothing; SQLite may have rolled the open transaction back
  (documented for FULL, IOERR, NOMEM, BUSY and INTERRUPT).
\<close>

definition nothing_added :: "'w view \<Rightarrow> conn \<Rightarrow> 'w \<Rightarrow> 'w \<Rightarrow> bool" where
  "nothing_added V c w w' \<longleftrightarrow>
     v_rows V c w' = v_rows V c w \<and> (v_txn V c w' = v_txn V c w \<or> v_txn V c w' = None)"

text \<open>Preparing \<open>sql\<close>, an INSERT with \<open>n\<close> parameters: they start as NULL.\<close>

definition prepare_law :: "'w sqlite \<Rightarrow> 'w view \<Rightarrow> string \<Rightarrow> nat \<Rightarrow> bool" where
  "prepare_law S V sql n \<longleftrightarrow>
     (\<forall>c w rc st w'. s3_prepare_v2 S (Some c) sql w = (rc, st, w') \<longrightarrow>
        same_rows V c w w' \<and>
        (rc = SQLITE_OK \<longrightarrow> (\<exists>k. st = Some k \<and> v_params V k w' = Some (c, replicate n None))))"

definition bind_law ::
  "'w view \<Rightarrow> (stmt option \<Rightarrow> int \<Rightarrow> ngx_str \<Rightarrow> 'w \<Rightarrow> int \<times> 'w) \<Rightarrow> bool" where
  "bind_law V bnd \<longleftrightarrow>
     (\<forall>k c r i v w rc w'. v_params V k w = Some (c, r) \<and> bnd (Some k) i v w = (rc, w') \<longrightarrow>
        same_rows V c w w' \<and>
        (rc = SQLITE_OK \<longrightarrow> 1 \<le> i \<and> nat i \<le> length r \<and>
           v_params V k w' = Some (c, r[nat i - 1 := v])))"

definition step_law :: "'w sqlite \<Rightarrow> 'w view \<Rightarrow> bool" where
  "step_law S V \<longleftrightarrow>
     (\<forall>k c r w rc w'. v_params V k w = Some (c, r) \<and> s3_step S (Some k) w = (rc, w') \<longrightarrow>
        (if rc = SQLITE_DONE
         then row_added V c r w w' \<and> fst (s3_finalize S (Some k) w') = SQLITE_OK
         else rc \<noteq> SQLITE_OK \<and> nothing_added V c w w'))"

definition finalize_law :: "'w sqlite \<Rightarrow> 'w view \<Rightarrow> bool" where
  "finalize_law S V \<longleftrightarrow> (\<forall>st w c. same_rows V c w (snd (s3_finalize S st w)))"

text \<open>
  Transactions. BEGIN fails when one is open; a failed COMMIT leaves it open or has rolled it
  back; a failed ROLLBACK means that none was open.
\<close>

definition txn_law :: "'w sqlite \<Rightarrow> 'w view \<Rightarrow> bool" where
  "txn_law S V \<longleftrightarrow>
     (\<forall>c w rc w'. s3_exec S (Some c) ''BEGIN EXCLUSIVE TRANSACTION'' w = (rc, w') \<longrightarrow>
        (if rc = SQLITE_OK
         then v_txn V c w = None \<and> v_rows V c w' = v_rows V c w \<and> v_txn V c w' = Some []
         else same_rows V c w w')) \<and>
     (\<forall>c w rc w'. s3_exec S (Some c) ''COMMIT'' w = (rc, w') \<longrightarrow>
        (if rc = SQLITE_OK
         then \<exists>rs. v_txn V c w = Some rs \<and> v_rows V c w' = v_rows V c w @ rs \<and> v_txn V c w' = None
         else nothing_added V c w w')) \<and>
     (\<forall>c w rc w'. s3_exec S (Some c) ''ROLLBACK'' w = (rc, w') \<longrightarrow>
        v_rows V c w' = v_rows V c w \<and> v_txn V c w' = None)"

definition sqlite_law :: "'w sqlite \<Rightarrow> 'w view \<Rightarrow> fmt \<Rightarrow> bool" where
  "sqlite_law S V f \<longleftrightarrow>
     prepare_law S V (fmt_sql_insert f) (length (fmt_columns f)) \<and>
     bind_law V (s3_bind_text S) \<and> bind_law V (s3_bind_blob S) \<and>
     step_law S V \<and> finalize_law S V \<and> txn_law S V"

lemma same_rows_refl [simp]: "same_rows V c w w"
  by (simp add: same_rows_def)

lemma same_rows_trans: "same_rows V c w w1 \<Longrightarrow> same_rows V c w1 w2 \<Longrightarrow> same_rows V c w w2"
  by (simp add: same_rows_def)

lemma row_added_same:
  "same_rows V c w w1 \<Longrightarrow> row_added V c r w1 w2 \<Longrightarrow> same_rows V c w2 w3 \<Longrightarrow> row_added V c r w w3"
  by (auto simp: same_rows_def row_added_def split: option.splits)

lemma nothing_added_same:
  "same_rows V c w w1 \<Longrightarrow> nothing_added V c w1 w2 \<Longrightarrow> same_rows V c w2 w3 \<Longrightarrow> nothing_added V c w w3"
  by (auto simp: same_rows_def nothing_added_def)

lemma same_nothing_added: "same_rows V c w w' \<Longrightarrow> nothing_added V c w w'"
  by (simp add: same_rows_def nothing_added_def)

section \<open>Connections\<close>

text \<open>
  \<open>conns w\<close> are the open connections. Opening yields a new one, even when it fails (unless memory
  was short); closing ends one, and closing NULL does nothing; nothing else opens or closes.
\<close>

definition conn_open_law :: "'w sqlite \<Rightarrow> ('w \<Rightarrow> conn set) \<Rightarrow> bool" where
  "conn_open_law S conns \<longleftrightarrow>
     (\<forall>f fl w rc c w'. s3_open_v2 S f fl w = (rc, c, w') \<longrightarrow>
        (rc = SQLITE_OK \<longrightarrow> c \<noteq> None) \<and>
        set_option c \<inter> conns w = {} \<and> conns w' = conns w \<union> set_option c)"

definition conn_close_law :: "'w sqlite \<Rightarrow> ('w \<Rightarrow> conn set) \<Rightarrow> bool" where
  "conn_close_law S conns \<longleftrightarrow>
     (\<forall>c w rc w'. s3_close S c w = (rc, w') \<longrightarrow>
        (c = None \<longrightarrow> rc = SQLITE_OK) \<and>
        conns w' = (if rc = SQLITE_OK then conns w - set_option c else conns w))"

definition conn_law :: "'w sqlite \<Rightarrow> ('w \<Rightarrow> conn set) \<Rightarrow> bool" where
  "conn_law S conns \<longleftrightarrow>
     conn_open_law S conns \<and> conn_close_law S conns \<and>
     (\<forall>c ms w. conns (snd (s3_busy_timeout S c ms w)) = conns w) \<and>
     (\<forall>c sql w. conns (snd (s3_exec S c sql w)) = conns w)"

lemma conn_law_open:
  "conn_law S conns \<Longrightarrow> s3_open_v2 S f fl w = (rc, c, w') \<Longrightarrow>
   (rc = SQLITE_OK \<longrightarrow> c \<noteq> None) \<and> set_option c \<inter> conns w = {} \<and> conns w' = conns w \<union> set_option c"
  unfolding conn_law_def conn_open_law_def by simp

lemma conn_law_close:
  "conn_law S conns \<Longrightarrow> s3_close S c w = (rc, w') \<Longrightarrow>
   (c = None \<longrightarrow> rc = SQLITE_OK) \<and>
   conns w' = (if rc = SQLITE_OK then conns w - set_option c else conns w)"
  unfolding conn_law_def conn_close_law_def by simp

section \<open>Sleeping\<close>

text \<open>\<open>slept w\<close> are the sleeps so far, in milliseconds; of the functions called here only
  \<open>ngx_msleep\<close> adds one.\<close>

definition sleep_law :: "'w sqlite \<Rightarrow> ('w \<Rightarrow> int list) \<Rightarrow> bool" where
  "sleep_law S slept \<longleftrightarrow>
     (\<forall>ms w. slept (os_msleep S ms w) = slept w @ [ms]) \<and>
     (\<forall>w. slept (snd (os_random S w)) = slept w) \<and>
     (\<forall>c sql w. slept (snd (snd (s3_prepare_v2 S c sql w))) = slept w) \<and>
     (\<forall>st w. slept (snd (s3_step S st w)) = slept w) \<and>
     (\<forall>st w. slept (snd (s3_finalize S st w)) = slept w) \<and>
     (\<forall>c e w. slept (snd (s3_wal_checkpoint_v2 S c e w)) = slept w)"

section \<open>A SQLite in memory\<close>

text \<open>
  One table, into which every prepared statement that is not a PRAGMA inserts a row. \<open>mq_room\<close>
  is the number of rows that fit, \<open>mq_busy\<close> the number of checkpoint attempts that find the
  database busy, \<open>mq_moved\<close> tells that the file was moved away, so that inserting fails until a
  new connection is opened.
\<close>

record mem_sqlite =
  mq_next :: nat
  mq_conns :: "conn list"
  mq_rows :: "conn \<Rightarrow> ngx_str list list"
  mq_txn :: "conn \<Rightarrow> ngx_str list list option"
  mq_stmts :: "(stmt \<times> conn \<times> ngx_str list \<times> bool) list"
  mq_room :: nat
  mq_moved :: bool
  mq_busy :: nat
  mq_timeout :: int
  mq_err :: int
  mq_slept :: "int list"

definition mem_init :: mem_sqlite where
  "mem_init = \<lparr>mq_next = 1, mq_conns = [], mq_rows = \<lambda>_. [], mq_txn = \<lambda>_. None, mq_stmts = [],
     mq_room = 100, mq_moved = False, mq_busy = 0, mq_timeout = 0, mq_err = 0, mq_slept = []\<rparr>"

definition n_params :: "string \<Rightarrow> nat" where
  "n_params sql = length (filter (\<lambda>c. c = CHR ''?'') sql)"

definition mem_open :: "string \<Rightarrow> int \<Rightarrow> mem_sqlite \<Rightarrow> int \<times> conn option \<times> mem_sqlite" where
  "mem_open f fl w =
     (let c = Suc (fold max (mq_conns w) 0)
      in (SQLITE_OK, Some c, w\<lparr>mq_conns := c # mq_conns w, mq_rows := (mq_rows w)(c := []),
            mq_txn := (mq_txn w)(c := None), mq_moved := False, mq_err := 0\<rparr>))"

definition mem_prepare :: "conn option \<Rightarrow> string \<Rightarrow> mem_sqlite \<Rightarrow> int \<times> stmt option \<times> mem_sqlite" where
  "mem_prepare c sql w =
     (case c of
        None \<Rightarrow> (21, None, w)
      | Some c \<Rightarrow>
          let k = mq_next w
          in (SQLITE_OK, Some k, w\<lparr>mq_next := Suc k,
                mq_stmts := (k, c, replicate (n_params sql) None, ngx_has_prefix sql ''PRAGMA'')
                  # mq_stmts w, mq_err := 0\<rparr>))"

definition mem_bind :: "stmt option \<Rightarrow> int \<Rightarrow> ngx_str \<Rightarrow> mem_sqlite \<Rightarrow> int \<times> mem_sqlite" where
  "mem_bind st i v w =
     (case st of
        None \<Rightarrow> (21, w)
      | Some k \<Rightarrow>
          (case map_of (mq_stmts w) k of
             None \<Rightarrow> (21, w)
           | Some (c, r, pragma) \<Rightarrow>
               if 1 \<le> i \<and> nat i \<le> length r
               then (SQLITE_OK, w\<lparr>mq_stmts := (k, c, r[nat i - 1 := v], pragma) # mq_stmts w\<rparr>)
               else (25, w\<lparr>mq_err := 25\<rparr>)))"

definition mem_step :: "stmt option \<Rightarrow> mem_sqlite \<Rightarrow> int \<times> mem_sqlite" where
  "mem_step st w =
     (case st of
        None \<Rightarrow> (21, w)
      | Some k \<Rightarrow>
          (case map_of (mq_stmts w) k of
             None \<Rightarrow> (21, w)
           | Some (c, r, pragma) \<Rightarrow>
               if pragma then (SQLITE_ROW, w)
               else if mq_moved w then (8, w\<lparr>mq_err := SQLITE_READONLY_DBMOVED\<rparr>)
               else if mq_room w = 0 then (13, w\<lparr>mq_err := 13\<rparr>)
               else (SQLITE_DONE,
                 (case mq_txn w c of
                    None \<Rightarrow> w\<lparr>mq_rows := (mq_rows w)(c := mq_rows w c @ [r])\<rparr>
                  | Some rs \<Rightarrow> w\<lparr>mq_txn := (mq_txn w)(c := Some (rs @ [r]))\<rparr>)
                 \<lparr>mq_room := mq_room w - 1\<rparr>)))"

definition mem_exec :: "conn option \<Rightarrow> string \<Rightarrow> mem_sqlite \<Rightarrow> int \<times> mem_sqlite" where
  "mem_exec c sql w =
     (case c of
        None \<Rightarrow> (21, w)
      | Some c \<Rightarrow>
          if sql = ''BEGIN EXCLUSIVE TRANSACTION''
          then (case mq_txn w c of
                  None \<Rightarrow> (SQLITE_OK, w\<lparr>mq_txn := (mq_txn w)(c := Some [])\<rparr>)
                | Some rs \<Rightarrow> (SQLITE_ERROR, w\<lparr>mq_err := SQLITE_ERROR\<rparr>))
          else if sql = ''COMMIT''
          then (case mq_txn w c of
                  None \<Rightarrow> (SQLITE_ERROR, w\<lparr>mq_err := SQLITE_ERROR\<rparr>)
                | Some rs \<Rightarrow> (SQLITE_OK, w\<lparr>mq_rows := (mq_rows w)(c := mq_rows w c @ rs),
                                          mq_txn := (mq_txn w)(c := None), mq_err := 0\<rparr>))
          else if sql = ''ROLLBACK''
          then (case mq_txn w c of
                  None \<Rightarrow> (SQLITE_ERROR, w\<lparr>mq_err := SQLITE_ERROR\<rparr>)
                | Some rs \<Rightarrow> (SQLITE_OK, w\<lparr>mq_txn := (mq_txn w)(c := None), mq_err := 0\<rparr>))
          else (SQLITE_OK, w\<lparr>mq_err := 0\<rparr>))"

definition mem_close :: "conn option \<Rightarrow> mem_sqlite \<Rightarrow> int \<times> mem_sqlite" where
  "mem_close c w =
     (case c of
        None \<Rightarrow> (SQLITE_OK, w)
      | Some c \<Rightarrow> (SQLITE_OK, w\<lparr>mq_conns := filter (\<lambda>x. x \<noteq> c) (mq_conns w)\<rparr>))"

definition mem_api :: "mem_sqlite sqlite" where
  "mem_api = \<lparr>
     s3_open_v2 = mem_open, s3_prepare_v2 = mem_prepare,
     s3_bind_text = mem_bind, s3_bind_blob = mem_bind,
     s3_bind_null = \<lambda>st i. mem_bind st i None,
     s3_step = mem_step, s3_finalize = \<lambda>st w. (SQLITE_OK, w),
     s3_busy_timeout = \<lambda>c ms w. (SQLITE_OK, w\<lparr>mq_timeout := ms\<rparr>),
     s3_exec = mem_exec, s3_close = mem_close,
     s3_wal_checkpoint_v2 = \<lambda>c e w.
       if 0 < mq_busy w then (SQLITE_BUSY, w\<lparr>mq_busy := mq_busy w - 1\<rparr>) else (SQLITE_OK, w),
     s3_errmsg = \<lambda>c w. ''error'',
     s3_extended_errcode = \<lambda>c w. if c = None then 7 else mq_err w,
     s3_column_count = \<lambda>st w. 1, s3_column_text = \<lambda>st i w. ''wal'',
     s3_column_int = \<lambda>st i w. mq_timeout w,
     os_random = \<lambda>w. (12345, w),
     os_msleep = \<lambda>ms w. w\<lparr>mq_slept := mq_slept w @ [ms]\<rparr>\<rparr>"

definition mem_view :: "mem_sqlite view" where
  "mem_view = \<lparr>
     v_rows = \<lambda>c w. mq_rows w c,
     v_txn = \<lambda>c w. mq_txn w c,
     v_params = \<lambda>k w. case map_of (mq_stmts w) k of
       Some (c, r, False) \<Rightarrow> Some (c, r) | _ \<Rightarrow> None\<rparr>"

definition mem_conns :: "mem_sqlite \<Rightarrow> conn set" where
  "mem_conns w = set (mq_conns w)"

text \<open>A connection opened on a fresh table, and an INSERT of two columns.\<close>

definition mem_start :: "mem_sqlite sys" where
  "mem_start = \<lparr>sq = snd (snd (mem_open ''log.db'' 6 mem_init)), elog = [], ub = False\<rparr>"

definition mem_fmt :: fmt where
  "mem_fmt =
     (let o1 = example_ops ! 0
      in \<lparr>fmt_name = ''f'',
        fmt_columns = [
          \<lparr>col_name = ''a'', col_type = ''TEXT'', col_op = o1, col_bind = Bind_text\<rparr>,
          \<lparr>col_name = ''b'', col_type = ''BLOB'', col_op = o1, col_bind = Bind_blob\<rparr>],
        fmt_sql_create = ''CREATE TABLE IF NOT EXISTS t (a TEXT, b BLOB)'',
        fmt_sql_insert = ''INSERT INTO t VALUES (?,?)''\<rparr>)"

lemma mem_prepare_law: "prepare_law mem_api mem_view (fmt_sql_insert mem_fmt) (length (fmt_columns mem_fmt))"
proof -
  have n: "n_params (fmt_sql_insert mem_fmt) = 2" and len: "length (fmt_columns mem_fmt) = 2"
    and np: "\<not> ngx_has_prefix (fmt_sql_insert mem_fmt) ''PRAGMA''"
    by (simp_all add: mem_fmt_def Let_def n_params_def ngx_has_prefix_iff)
  show ?thesis
    unfolding prepare_law_def
    by (auto simp: mem_api_def mem_prepare_def mem_view_def same_rows_def Let_def n len np)
qed

lemma mem_bind_law: "bind_law mem_view mem_bind"
  unfolding bind_law_def
  by (auto simp: mem_bind_def mem_view_def same_rows_def split: option.splits bool.splits if_splits)

lemma mem_step_law: "step_law mem_api mem_view"
  unfolding step_law_def
  by (auto simp: mem_api_def mem_step_def mem_view_def row_added_def nothing_added_def
      split: option.splits bool.splits if_splits)

lemma mem_txn_law: "txn_law mem_api mem_view"
  unfolding txn_law_def
  by (auto simp: mem_api_def mem_exec_def mem_view_def same_rows_def nothing_added_def
      split: option.splits if_splits)

lemma mem_sqlite_law: "sqlite_law mem_api mem_view mem_fmt"
  using mem_prepare_law mem_bind_law mem_step_law mem_txn_law
  by (simp add: sqlite_law_def finalize_law_def) (simp add: mem_api_def)

lemma mem_conn_law: "conn_law mem_api mem_conns"
proof -
  have "Suc (fold max cs 0) \<notin> set cs" for cs :: "nat list"
    using fold_max_ge [of _ cs 0] by (metis not_less_eq_eq order_refl)
  then show ?thesis
    by (auto simp: conn_law_def conn_open_law_def conn_close_law_def mem_api_def mem_open_def
        mem_close_def mem_exec_def mem_conns_def Let_def split: option.splits if_splits)
qed

lemma mem_sleep_law: "sleep_law mem_api mq_slept"
  by (auto simp: sleep_law_def mem_api_def mem_prepare_def mem_step_def Let_def
      split: option.splits)

end
