(* ===== verification/Db.thy ===== *)
theory Db
  imports Sqlite_Laws
begin

text \<open>
  The database component: \<open>ngx_http_sqlitelog_db.c\<close>. Opening, closing and testing a database,
  inserting one row or a list of rows with one retry after the file was moved away, and the WAL
  checkpoint with its sleep loop.

  The proofs rest on the contract with SQLite of theory Sqlite_Laws, in terms of the rows a
  connection has committed and the rows of its open transaction.
\<close>

section \<open>State\<close>

record db =
  db_conn :: "conn option"
  db_filename :: string
  db_fmt :: fmt
  db_init_sql :: "string option"

section \<open>Opening and closing\<close>

definition db_close :: "'w sqlite \<Rightarrow> db \<Rightarrow> 'w sys \<Rightarrow> int \<times> db \<times> 'w sys" where
  "db_close S d s =
     (let (rc_close, s) = sqlite3_close S (db_conn d) s
      in if rc_close \<noteq> SQLITE_OK then (rc_close, d, s)
         else (rc_close, d\<lparr>db_conn := None\<rparr>, s))"

text \<open>\<open>SQLITE_OPEN_CREATE | SQLITE_OPEN_READWRITE\<close>.\<close>

abbreviation open_filemode :: int where "open_filemode \<equiv> 6"

definition db_open :: "'w sqlite \<Rightarrow> db \<Rightarrow> 'w sys \<Rightarrow> int \<times> db \<times> 'w sys" where
  "db_open S d s =
     (let (rc_open, c, s) = sqlite3_open_v2 S (db_filename d) open_filemode s;
          d = d\<lparr>db_conn := c\<rparr>
      in if rc_open \<noteq> SQLITE_OK
         then let (rc_close, d, s) = db_close S d s
              in (if rc_close \<noteq> SQLITE_OK then rc_close else rc_open, d, s)
         else
           let (rc_timeout, s) = sqlite3_busy_timeout S (db_conn d) 1000 s
           in if rc_timeout \<noteq> SQLITE_OK then (rc_timeout, d, s)
           else
             let (rc_table, s) = sqlite3_exec S (db_conn d) (fmt_sql_create (db_fmt d)) s
             in if rc_table \<noteq> SQLITE_OK then (rc_table, d, s)
             else
               case db_init_sql d of
                 None \<Rightarrow> (SQLITE_OK, d, s)
               | Some script \<Rightarrow>
                   let (rc_script, s) = sqlite3_exec S (db_conn d) script s
                   in if rc_script \<noteq> SQLITE_OK then (rc_script, d, s) else (SQLITE_OK, d, s))"

definition db_init :: "'w sqlite \<Rightarrow> db \<Rightarrow> 'w sys \<Rightarrow> int \<times> db \<times> 'w sys" where
  "db_init S d s =
     (if db_conn d \<noteq> None
      then let (rc_close, d, s) = db_close S d s
           in if rc_close \<noteq> SQLITE_OK then (rc_close, d, s) else db_open S d s
      else db_open S d s)"

definition db_test :: "'w sqlite \<Rightarrow> db \<Rightarrow> 'w sys \<Rightarrow> int \<times> 'w sys" where
  "db_test S d s =
     (let memdb = \<lparr>db_conn = None, db_filename = '':memory:'', db_fmt = db_fmt d,
                   db_init_sql = db_init_sql d\<rparr>;
          (rc_init, memdb, s) = db_init S memdb s;
          (rc_close, memdb, s) = db_close S memdb s
      in (if rc_init \<noteq> SQLITE_OK then rc_init else rc_close, s))"

section \<open>Inserting one row\<close>

fun call_bind ::
  "bind_fn \<Rightarrow> 'w sqlite \<Rightarrow> conn option \<Rightarrow> stmt option \<Rightarrow> int \<Rightarrow> ngx_str \<Rightarrow> 'w sys \<Rightarrow> int \<times> 'w sys" where
  "call_bind Bind_text = sqlite3_bind_text"
| "call_bind Bind_blob = sqlite3_bind_blob"

text \<open>
  The bind loop: \<open>cols\<close> is what the pointer \<open>col\<close> still has in front of it. Going past the last
  column reads outside the array.
\<close>

fun bind_loop ::
  "'w sqlite \<Rightarrow> conn option \<Rightarrow> stmt option \<Rightarrow> col list \<Rightarrow> int \<Rightarrow> ngx_str list \<Rightarrow> 'w sys \<Rightarrow> int \<times> 'w sys"
where
  "bind_loop S c st cols param [] s = (SQLITE_OK, s)"
| "bind_loop S c st [] param (elt # elts) s = (SQLITE_ERROR, s\<lparr>ub := True\<rparr>)"
| "bind_loop S c st (col # cols) param (elt # elts) s =
     (let (rc_bind, s) = call_bind (col_bind col) S c st param elt s
      in if rc_bind \<noteq> SQLITE_OK then (rc_bind, s)
         else bind_loop S c st cols (param + 1) elts s)"

definition try_insert :: "'w sqlite \<Rightarrow> db \<Rightarrow> ngx_str list \<Rightarrow> 'w sys \<Rightarrow> int \<times> 'w sys" where
  "try_insert S d elts s =
     (let (rc_prepare, st, s) = sqlite3_prepare_v2 S (db_conn d) (fmt_sql_insert (db_fmt d)) s;
          (rc_bind, s) =
            (if rc_prepare = SQLITE_OK
             then bind_loop S (db_conn d) st (fmt_columns (db_fmt d)) 1 elts s else (SQLITE_OK, s));
          (rc_step, s) =
            (if rc_prepare = SQLITE_OK \<and> rc_bind = SQLITE_OK
             then sqlite3_step S (db_conn d) st s else (SQLITE_OK, s));
          (rc_finalize, s) = sqlite3_finalize S (db_conn d) st s
      in (if rc_prepare \<noteq> SQLITE_OK then rc_prepare
          else if rc_bind \<noteq> SQLITE_OK then rc_bind
          else if rc_step \<noteq> SQLITE_DONE then rc_step
          else rc_finalize, s))"

definition db_insert :: "'w sqlite \<Rightarrow> db \<Rightarrow> ngx_str list \<Rightarrow> 'w sys \<Rightarrow> int \<times> db \<times> 'w sys" where
  "db_insert S d elts s =
     (let (rc_insert, s) = try_insert S d elts s
      in if rc_insert \<noteq> SQLITE_OK \<and>
            s3_extended_errcode S (db_conn d) (sq s) = SQLITE_READONLY_DBMOVED
         then let (rc_init, d, s) = db_init S d s
              in if rc_init \<noteq> SQLITE_OK then (rc_init, d, s)
                 else let (rc_insert, s) = try_insert S d elts s in (rc_insert, d, s)
         else (rc_insert, d, s))"

section \<open>Inserting a list\<close>

text \<open>The loop over the parts, which ends at the first one that fails.\<close>

fun insert_parts :: "'w sqlite \<Rightarrow> db \<Rightarrow> ngx_str list list \<Rightarrow> 'w sys \<Rightarrow> int \<times> 'w sys" where
  "insert_parts S d [] s = (SQLITE_OK, s)"
| "insert_parts S d (part # parts) s =
     (let (rc_insert, s) = try_insert S d part s
      in if rc_insert \<noteq> SQLITE_OK then (rc_insert, s) else insert_parts S d parts s)"

definition try_insert_list :: "'w sqlite \<Rightarrow> db \<Rightarrow> ngx_str list list \<Rightarrow> 'w sys \<Rightarrow> int \<times> 'w sys" where
  "try_insert_list S d parts s =
     (let (rc_begin, s) = sqlite3_exec S (db_conn d) ''BEGIN EXCLUSIVE TRANSACTION'' s
      in if rc_begin \<noteq> SQLITE_OK then (rc_begin, s)
         else
           let (rc_insert, s) = insert_parts S d parts s;
               (rc_end, s) =
                 sqlite3_exec S (db_conn d) (if rc_insert = SQLITE_OK then ''COMMIT'' else ''ROLLBACK'') s
           in (if rc_insert \<noteq> SQLITE_OK then rc_insert else rc_end, s))"

definition db_insert_list ::
  "'w sqlite \<Rightarrow> db \<Rightarrow> ngx_str list list \<Rightarrow> 'w sys \<Rightarrow> int \<times> db \<times> 'w sys" where
  "db_insert_list S d parts s =
     (let (rc_list, s) = try_insert_list S d parts s;
          rc_extended = s3_extended_errcode S (db_conn d) (sq s)
      in if rc_list \<noteq> SQLITE_OK \<and>
            (rc_extended = SQLITE_READONLY_DBMOVED \<or> rc_extended = SQLITE_OK)
         then let (rc_init, d, s) = db_init S d s
              in if rc_init \<noteq> SQLITE_OK then (rc_init, d, s)
                 else let (rc_list, s) = try_insert_list S d parts s in (rc_list, d, s)
         else (rc_list, d, s))"

section \<open>The WAL checkpoint\<close>

text \<open>
  A PRAGMA that yields one value: \<open>get\<close> reads it from the first column. The two functions of the
  code differ in the text and in \<open>get\<close>.
\<close>

definition pragma_value ::
  "'w sqlite \<Rightarrow> db \<Rightarrow> string \<Rightarrow> (stmt option \<Rightarrow> 'w \<Rightarrow> 'v) \<Rightarrow> 'v \<Rightarrow> 'w sys \<Rightarrow> int \<times> 'v \<times> 'w sys" where
  "pragma_value S d sql get value s =
     (let (rc_prepare, st, s) = sqlite3_prepare_v2 S (db_conn d) sql s;
          (rc_step, s) =
            (if rc_prepare = SQLITE_OK then sqlite3_step S (db_conn d) st s else (SQLITE_OK, s));
          stepped = (rc_prepare = SQLITE_OK \<and> rc_step = SQLITE_ROW);
          columns = (if stepped then s3_column_count S st (sq s) else 0);
          s = (if stepped \<and> columns \<noteq> 1
               then log_error ''sqlitelog: failed to get correct amount of columns from \"%V\"; expected 1, got %d''
                      [Arg_V sql, Arg_d columns] s
               else s);
          value = (if stepped \<and> columns = 1 then get st (sq s) else value);
          (rc_finalize, s) = sqlite3_finalize S (db_conn d) st s
      in (if rc_prepare \<noteq> SQLITE_OK then rc_prepare
          else if rc_step \<noteq> SQLITE_ROW then rc_step
          else if columns \<noteq> 1 then SQLITE_ERROR
          else if rc_finalize \<noteq> SQLITE_OK then rc_finalize
          else SQLITE_OK, value, s))"

definition db_is_wal :: "'w sqlite \<Rightarrow> db \<Rightarrow> bool \<Rightarrow> 'w sys \<Rightarrow> int \<times> bool \<times> 'w sys" where
  "db_is_wal S d is_wal s =
     pragma_value S d ''PRAGMA journal_mode'' (\<lambda>st w. s3_column_text S st 0 w = ''wal'') is_wal s"

definition db_get_busy_timeout :: "'w sqlite \<Rightarrow> db \<Rightarrow> int \<Rightarrow> 'w sys \<Rightarrow> int \<times> int \<times> 'w sys" where
  "db_get_busy_timeout S d ms s =
     pragma_value S d ''PRAGMA busy_timeout'' (\<lambda>st w. s3_column_int S st 0 w) ms s"

function shrink :: "nat \<Rightarrow> nat" where
  "shrink r = (if 100 < r then shrink (r div 10) else r)"
  by auto
termination by (relation "measure id") auto

declare shrink.simps [simp del]

lemma shrink_le: "shrink r \<le> 100"
  by (induction r rule: shrink.induct) (subst shrink.simps, simp)

abbreviation SQLITE_CHECKPOINT_TRUNCATE :: int where "SQLITE_CHECKPOINT_TRUNCATE \<equiv> 3"

text \<open>The sleep loop; it returns the last result code and the total time slept.\<close>

function checkpoint_loop ::
  "'w sqlite \<Rightarrow> conn option \<Rightarrow> int \<Rightarrow> int \<Rightarrow> int \<Rightarrow> 'w sys \<Rightarrow> int \<times> int \<times> 'w sys" where
  "checkpoint_loop S c busy_timeout rc_ckpt total_slept s =
     (if rc_ckpt \<noteq> SQLITE_BUSY then (rc_ckpt, total_slept, s)
      else
        let (r, w) = os_random S (sq s);
            sleep_dur = 50 + int (shrink r);
            s = s\<lparr>sq := os_msleep S sleep_dur w\<rparr>;
            total_slept = total_slept + sleep_dur;
            (rc_ckpt, s) = sqlite3_wal_checkpoint_v2 S c SQLITE_CHECKPOINT_TRUNCATE s
        in if busy_timeout \<le> total_slept then (rc_ckpt, total_slept, s)
           else checkpoint_loop S c busy_timeout rc_ckpt total_slept s)"
  by auto
termination
  by (relation "measure (\<lambda>(S, c, busy_timeout, rc, total_slept, s). nat (busy_timeout - total_slept))")
    auto

declare checkpoint_loop.simps [simp del]

definition db_checkpoint :: "'w sqlite \<Rightarrow> db \<Rightarrow> 'w sys \<Rightarrow> int \<times> 'w sys" where
  "db_checkpoint S d s =
     (let (rc_wal, is_wal, s) = db_is_wal S d False s
      in if rc_wal \<noteq> SQLITE_OK
         then (rc_wal, log_error ''sqlitelog: failed to get journal mode prior to WAL checkpoint'' [] s)
         else if \<not> is_wal then (SQLITE_OK, s)
         else
           let (rc_timeout, busy_timeout, s) = db_get_busy_timeout S d 0 s
           in if rc_timeout \<noteq> SQLITE_OK
              then (rc_timeout, log_error ''sqlitelog: failed to get busy timeout prior to WAL checkpoint'' [] s)
              else
                let (rc_ckpt, s) = sqlite3_wal_checkpoint_v2 S (db_conn d) SQLITE_CHECKPOINT_TRUNCATE s;
                    (rc_ckpt, total_slept, s) = checkpoint_loop S (db_conn d) busy_timeout rc_ckpt 0 s
                in if rc_ckpt = SQLITE_BUSY
                   then (SQLITE_OK, log_error
                     ''sqlitelog: checkpoint loop concluded with SQLITE_BUSY, total slept: %d ms, busy timeout: %d ms''
                     [Arg_d total_slept, Arg_d busy_timeout] s)
                   else (rc_ckpt, s))"

section \<open>Inserting one row: proofs\<close>

definition padded :: "nat \<Rightarrow> ngx_str list \<Rightarrow> ngx_str list" where
  "padded n vs = vs @ replicate (n - length vs) None"

lemma padded_full [simp]: "length vs = n \<Longrightarrow> padded n vs = vs"
  by (simp add: padded_def)

lemma call_bind_law:
  assumes "bind_law V (s3_bind_text S)" and "bind_law V (s3_bind_blob S)"
    and "call_bind b S c0 (Some k) i v s = (rc, s')" and "v_params V k (sq s) = Some (c, r)"
  shows "ub s' = ub s \<and> same_rows V c (sq s) (sq s') \<and>
    (rc = SQLITE_OK \<longrightarrow> 1 \<le> i \<and> nat i \<le> length r \<and> v_params V k (sq s') = Some (c, r[nat i - 1 := v]))"
proof -
  have "\<exists>bnd. bind_law V bnd \<and> bnd (Some k) i v (sq s) = (rc, sq s') \<and> ub s' = ub s"
    using assms(1-3) bind_text_result bind_blob_result by (cases b) fastforce+
  with assms(4) show ?thesis unfolding bind_law_def by blast
qed

lemma update_padded:
  assumes "length don < n"
  shows "(don @ replicate (n - length don) None)[length don := v] =
    (don @ [v]) @ replicate (n - length (don @ [v])) None"
  using assms by (simp add: list_update_append Suc_diff_Suc [symmetric])

lemma bind_loop_spec:
  assumes "bind_law V (s3_bind_text S)" and "bind_law V (s3_bind_blob S)"
  shows "bind_loop S c0 (Some k) cols (int (length don) + 1) vs s = (rc, s') \<Longrightarrow>
    v_params V k (sq s) = Some (c, padded n don) \<Longrightarrow> length don \<le> n \<Longrightarrow>
    length don + length vs \<le> n \<Longrightarrow> length vs \<le> length cols \<Longrightarrow>
    ub s' = ub s \<and> same_rows V c (sq s) (sq s') \<and>
    (rc = SQLITE_OK \<longrightarrow> v_params V k (sq s') = Some (c, padded n (don @ vs)))"
proof (induction vs arbitrary: don cols s)
  case (Cons v vs)
  obtain col cols' where cols: "cols = col # cols'" using Cons.prems by (cases cols) auto
  obtain rc1 s1 where b: "call_bind (col_bind col) S c0 (Some k) (int (length don) + 1) v s = (rc1, s1)"
    by (cases "call_bind (col_bind col) S c0 (Some k) (int (length don) + 1) v s")
  note law = call_bind_law [OF assms b Cons.prems(2)]
  show ?case
  proof (cases "rc1 = SQLITE_OK")
    case False
    with Cons.prems(1) cols b law show ?thesis by auto
  next
    case True
    have "nat (int (length don) + 1) - 1 = length don" by simp
    with law True have p: "v_params V k (sq s1) = Some (c, padded n (don @ [v]))"
      using Cons.prems(4) update_padded [of don n v] by (simp add: padded_def)
    have "bind_loop S c0 (Some k) cols' (int (length (don @ [v])) + 1) vs s1 = (rc, s')"
      using Cons.prems(1) cols b True by (simp add: ac_simps)
    from Cons.IH [OF this p] Cons.prems cols law show ?thesis
      by (auto intro: same_rows_trans)
  qed
qed auto

text \<open>The functional specification of one attempt to insert a row.\<close>

lemma try_insert_spec:
  assumes law: "sqlite_law S V (db_fmt d)" and conn: "db_conn d = Some c"
    and len: "length vs \<le> length (fmt_columns (db_fmt d))"
    and run: "try_insert S d vs s = (rc, s')"
  shows "ub s' = ub s \<and>
    (if rc = SQLITE_OK then row_added V c (padded (length (fmt_columns (db_fmt d))) vs) (sq s) (sq s')
     else nothing_added V c (sq s) (sq s'))"
proof -
  let ?n = "length (fmt_columns (db_fmt d))"
  obtain rc_prepare st s1 where p: "sqlite3_prepare_v2 S (Some c) (fmt_sql_insert (db_fmt d)) s = (rc_prepare, st, s1)"
    by (cases "sqlite3_prepare_v2 S (Some c) (fmt_sql_insert (db_fmt d)) s") auto
  note pr = prepare_result [OF p]
  then have sr1: "same_rows V c (sq s) (sq s1)"
    and par: "rc_prepare = SQLITE_OK \<Longrightarrow> \<exists>k. st = Some k \<and> v_params V k (sq s1) = Some (c, replicate ?n None)"
    using law unfolding sqlite_law_def prepare_law_def by blast+
  have fin: "same_rows V c (sq t) (sq t') \<and> ub t' = ub t \<and> rcf = fst (s3_finalize S st (sq t))"
    if "sqlite3_finalize S (Some c) st t = (rcf, t')" for t t' rcf
    using finalize_result [OF that] law unfolding sqlite_law_def finalize_law_def
    by (metis fst_conv snd_conv)
  show ?thesis
  proof (cases "rc_prepare = SQLITE_OK")
    case False
    obtain rcf s2 where f: "sqlite3_finalize S (Some c) st s1 = (rcf, s2)"
      by (cases "sqlite3_finalize S (Some c) st s1")
    have "rc = rc_prepare" "s' = s2"
      using run p f False by (simp_all add: try_insert_def conn)
    with fin [OF f] pr sr1 False same_rows_trans [of V c "sq s" "sq s1" "sq s2"] show ?thesis
      by (auto intro: same_nothing_added)
  next
    case True
    obtain k where k: "st = Some k" "v_params V k (sq s1) = Some (c, padded ?n [])"
      using par [OF True] by (auto simp: padded_def)
    obtain rcb s2 where b: "bind_loop S (Some c) (Some k) (fmt_columns (db_fmt d)) 1 vs s1 = (rcb, s2)"
      by (cases "bind_loop S (Some c) (Some k) (fmt_columns (db_fmt d)) 1 vs s1")
    have bs: "ub s2 = ub s1 \<and> same_rows V c (sq s1) (sq s2) \<and>
        (rcb = SQLITE_OK \<longrightarrow> v_params V k (sq s2) = Some (c, padded ?n vs))"
      using law bind_loop_spec [of V S "Some c" k "fmt_columns (db_fmt d)" "[]" vs s1 rcb s2 c ?n] b k(2) len
      by (simp add: sqlite_law_def)
    show ?thesis
    proof (cases "rcb = SQLITE_OK")
      case False
      obtain rcf s3 where f: "sqlite3_finalize S (Some c) st s2 = (rcf, s3)"
        by (cases "sqlite3_finalize S (Some c) st s2")
      have "rc = rcb" "s' = s3"
        using run p k b f True False by (simp_all add: try_insert_def conn)
      moreover have "same_rows V c (sq s) (sq s3)"
        using sr1 bs fin [OF f] by (blast intro: same_rows_trans)
      ultimately show ?thesis
        using fin [OF f] pr bs False by (auto intro: same_nothing_added)
    next
      case True
      obtain rcs s3 where stp: "sqlite3_step S (Some c) (Some k) s2 = (rcs, s3)"
        by (cases "sqlite3_step S (Some c) (Some k) s2")
      note sres = step_result [OF stp]
      have slaw: "if rcs = SQLITE_DONE
          then row_added V c (padded ?n vs) (sq s2) (sq s3) \<and> fst (s3_finalize S (Some k) (sq s3)) = SQLITE_OK
          else rcs \<noteq> SQLITE_OK \<and> nothing_added V c (sq s2) (sq s3)"
        using law sres bs True unfolding sqlite_law_def step_law_def by blast
      obtain rcf s4 where f: "sqlite3_finalize S (Some c) st s3 = (rcf, s4)"
        by (cases "sqlite3_finalize S (Some c) st s3")
      have res: "rc = (if rcs \<noteq> SQLITE_DONE then rcs else rcf)" "s' = s4"
        using run p k b stp f True \<open>rc_prepare = SQLITE_OK\<close> by (simp_all add: try_insert_def conn)
      have pre: "same_rows V c (sq s) (sq s2)" using sr1 bs by (blast intro: same_rows_trans)
      show ?thesis
      proof (cases "rcs = SQLITE_DONE")
        case True
        with slaw fin [OF f] k res have "rc = SQLITE_OK" by simp
        with True slaw fin [OF f] res pre pr bs sres show ?thesis
          by (auto intro: row_added_same)
      next
        case False
        have "nothing_added V c (sq s) (sq s4)"
          using False slaw pre fin [OF f] nothing_added_same by metis
        with False show ?thesis
          using fin [OF f] res slaw pr bs sres by auto
      qed
    qed
  qed
qed

section \<open>Inserting a list: proofs\<close>

lemma law_txn:
  assumes "sqlite_law S V f"
  shows "s3_exec S (Some c) ''BEGIN EXCLUSIVE TRANSACTION'' w = (rc, w') \<Longrightarrow>
      (if rc = SQLITE_OK
       then v_txn V c w = None \<and> v_rows V c w' = v_rows V c w \<and> v_txn V c w' = Some []
       else same_rows V c w w')"
    and "s3_exec S (Some c) ''COMMIT'' w = (rc, w') \<Longrightarrow>
      (if rc = SQLITE_OK
       then \<exists>rs. v_txn V c w = Some rs \<and> v_rows V c w' = v_rows V c w @ rs \<and> v_txn V c w' = None
       else nothing_added V c w w')"
    and "s3_exec S (Some c) ''ROLLBACK'' w = (rc, w') \<Longrightarrow>
      v_rows V c w' = v_rows V c w \<and> v_txn V c w' = None"
  using assms unfolding sqlite_law_def txn_law_def by blast+

lemma insert_parts_spec:
  assumes law: "sqlite_law S V (db_fmt d)" and conn: "db_conn d = Some c"
  shows "insert_parts S d parts s = (rc, s') \<Longrightarrow>
    \<forall>part\<in>set parts. length part \<le> length (fmt_columns (db_fmt d)) \<Longrightarrow>
    v_txn V c (sq s) = Some rs \<Longrightarrow>
    ub s' = ub s \<and> v_rows V c (sq s') = v_rows V c (sq s) \<and>
    (rc = SQLITE_OK \<longrightarrow>
      v_txn V c (sq s') = Some (rs @ map (padded (length (fmt_columns (db_fmt d)))) parts))"
proof (induction parts arbitrary: s rs)
  case (Cons part parts)
  obtain rc1 s1 where t: "try_insert S d part s = (rc1, s1)" by (cases "try_insert S d part s")
  note one = try_insert_spec [OF law conn _ t]
  show ?case
  proof (cases "rc1 = SQLITE_OK")
    case False
    with Cons.prems t one show ?thesis by (auto simp: nothing_added_def)
  next
    case True
    with one Cons.prems(2,3) have 1: "ub s1 = ub s" "v_rows V c (sq s1) = v_rows V c (sq s)"
      "v_txn V c (sq s1) = Some (rs @ [padded (length (fmt_columns (db_fmt d))) part])"
      by (auto simp: row_added_def)
    have "insert_parts S d parts s1 = (rc, s')" using Cons.prems(1) t True by simp
    from Cons.IH [OF this _ 1(3)] Cons.prems(2) 1 show ?thesis by simp
  qed
qed simp

lemma try_insert_list_spec:
  assumes law: "sqlite_law S V (db_fmt d)" and conn: "db_conn d = Some c"
    and len: "\<forall>part\<in>set parts. length part \<le> length (fmt_columns (db_fmt d))"
    and run: "try_insert_list S d parts s = (rc, s')"
  shows "ub s' = ub s \<and>
    (if rc = SQLITE_OK
     then v_txn V c (sq s) = None \<and> v_txn V c (sq s') = None \<and>
       v_rows V c (sq s') = v_rows V c (sq s) @ map (padded (length (fmt_columns (db_fmt d)))) parts
     else v_rows V c (sq s') = v_rows V c (sq s))"
proof -
  obtain rcb s1 where b: "sqlite3_exec S (Some c) ''BEGIN EXCLUSIVE TRANSACTION'' s = (rcb, s1)"
    by (cases "sqlite3_exec S (Some c) ''BEGIN EXCLUSIVE TRANSACTION'' s")
  note br = exec_txn(1) [OF b] law_txn(1) [OF law conjunct1 [OF exec_txn(1) [OF b]]]
  show ?thesis
  proof (cases "rcb = SQLITE_OK")
    case False
    with run conn b br show ?thesis by (auto simp: try_insert_list_def same_rows_def)
  next
    case True
    with br have 1: "v_txn V c (sq s) = None" "v_rows V c (sq s1) = v_rows V c (sq s)"
      "v_txn V c (sq s1) = Some []"
      by auto
    obtain rci s2 where i: "insert_parts S d parts s1 = (rci, s2)" by (cases "insert_parts S d parts s1")
    note ip = insert_parts_spec [OF law conn i len 1(3)]
    show ?thesis
    proof (cases "rci = SQLITE_OK")
      case True
      obtain rce s3 where e: "sqlite3_exec S (Some c) ''COMMIT'' s2 = (rce, s3)"
        by (cases "sqlite3_exec S (Some c) ''COMMIT'' s2")
      have res: "rc = rce" "s' = s3"
        using run conn b i e True \<open>rcb = SQLITE_OK\<close> by (simp_all add: try_insert_list_def)
      note er = exec_txn(2) [OF e] law_txn(2) [OF law conjunct1 [OF exec_txn(2) [OF e]]]
      show ?thesis
      proof (cases "rce = SQLITE_OK")
        case True
        with er ip \<open>rci = SQLITE_OK\<close> 1 br res show ?thesis by auto
      next
        case False
        with er ip 1 br res show ?thesis by (auto simp: nothing_added_def)
      qed
    next
      case False
      obtain rce s3 where e: "sqlite3_exec S (Some c) ''ROLLBACK'' s2 = (rce, s3)"
        by (cases "sqlite3_exec S (Some c) ''ROLLBACK'' s2")
      have res: "rc = rci" "s' = s3"
        using run conn b i e False \<open>rcb = SQLITE_OK\<close> by (simp_all add: try_insert_list_def)
      note er = exec_txn(3) [OF e] law_txn(3) [OF law conjunct1 [OF exec_txn(3) [OF e]]]
      with ip 1 br res False show ?thesis by auto
    qed
  qed
qed

section \<open>The retry after the file was moved\<close>

text \<open>
  Both insertions are retried once, on a fresh connection, when the extended result code of the
  first attempt is \<open>worth\<close> it.
\<close>

locale retrying =
  fixes attempt :: "'w sqlite \<Rightarrow> db \<Rightarrow> 'x \<Rightarrow> 'w sys \<Rightarrow> int \<times> 'w sys"
    and worth :: "int \<Rightarrow> bool"
    and whole :: "'w sqlite \<Rightarrow> db \<Rightarrow> 'x \<Rightarrow> 'w sys \<Rightarrow> int \<times> db \<times> 'w sys"
  assumes whole: "attempt S d x s = (rc, s1) \<Longrightarrow>
    whole S d x s =
      (if rc \<noteq> SQLITE_OK \<and> worth (s3_extended_errcode S (db_conn d) (sq s1))
       then case db_init S d s1 of (rc_init, d2, s2) \<Rightarrow>
         if rc_init \<noteq> SQLITE_OK then (rc_init, d2, s2)
         else case attempt S d2 x s2 of (rc2, s3) \<Rightarrow> (rc2, d2, s3)
       else (rc, d, s1))"
begin

text \<open>Success means that exactly one attempt succeeded, the last one.\<close>

lemma ok_once:
  assumes "whole S d x s = (SQLITE_OK, d', s')"
  shows "\<exists>s0. attempt S d' x s0 = (SQLITE_OK, s') \<and>
    (d' = d \<and> s0 = s \<or>
     (\<exists>rc s1. attempt S d x s = (rc, s1) \<and> rc \<noteq> SQLITE_OK \<and>
       worth (s3_extended_errcode S (db_conn d) (sq s1)) \<and> db_init S d s1 = (SQLITE_OK, d', s0)))"
proof -
  obtain rc s1 where a: "attempt S d x s = (rc, s1)" by (cases "attempt S d x s")
  from assms whole [OF a] a show ?thesis
    by (auto split: if_splits prod.splits)
qed

lemma retried:
  assumes "attempt S d x s = (rc, s1)" and "rc \<noteq> SQLITE_OK"
    and "worth (s3_extended_errcode S (db_conn d) (sq s1))"
    and "db_init S d s1 = (SQLITE_OK, d2, s2)" and "attempt S d2 x s2 = (rc2, s3)"
  shows "whole S d x s = (rc2, d2, s3)"
  using whole [OF assms(1)] assms(2-5) by simp

text \<open>An error that is not worth a retry is returned as it is, on the same connection.\<close>

lemma no_retry:
  assumes "attempt S d x s = (rc, s1)" and "rc \<noteq> SQLITE_OK"
    and "\<not> worth (s3_extended_errcode S (db_conn d) (sq s1))"
  shows "whole S d x s = (rc, d, s1)"
  using whole [OF assms(1)] assms(2,3) by simp

end

interpretation row: retrying try_insert "\<lambda>rc. rc = SQLITE_READONLY_DBMOVED" db_insert
  by unfold_locales (simp add: db_insert_def split: prod.splits)

interpretation rows: retrying try_insert_list "\<lambda>rc. rc = SQLITE_READONLY_DBMOVED \<or> rc = SQLITE_OK"
  db_insert_list
  by unfold_locales (simp add: db_insert_list_def split: prod.splits)

section \<open>Connections\<close>

lemma exec_conns:
  "conn_law S conns \<Longrightarrow> sqlite3_exec S c sql s = (rc, s') \<Longrightarrow> conns (sq s') = conns (sq s)"
  using exec_result unfolding conn_law_def by (metis snd_conv)

lemma busy_timeout_conns:
  "conn_law S conns \<Longrightarrow> sqlite3_busy_timeout S c ms s = (rc, s') \<Longrightarrow> conns (sq s') = conns (sq s)"
  using busy_timeout_result unfolding conn_law_def by (metis snd_conv)

text \<open>The connections that do not belong to the database \<open>d\<close>.\<close>

definition others :: "('w \<Rightarrow> conn set) \<Rightarrow> db \<Rightarrow> 'w sys \<Rightarrow> conn set" where
  "others conns d s = conns (sq s) - set_option (db_conn d)"

definition owns :: "('w \<Rightarrow> conn set) \<Rightarrow> db \<Rightarrow> 'w sys \<Rightarrow> bool" where
  "owns conns d s \<longleftrightarrow> set_option (db_conn d) \<subseteq> conns (sq s)"

lemma db_close_conns:
  assumes "conn_law S conns" and "db_close S d s = (rc, d', s')"
  shows "others conns d' s' = others conns d s \<and> (owns conns d s \<longrightarrow> owns conns d' s') \<and>
    db_fmt d' = db_fmt d \<and> (rc = SQLITE_OK \<longleftrightarrow> db_conn d' = None) \<and>
    (rc \<noteq> SQLITE_OK \<longrightarrow> d' = d)"
proof -
  obtain rc1 s1 where c: "sqlite3_close S (db_conn d) s = (rc1, s1)"
    by (cases "sqlite3_close S (db_conn d) s")
  note l = conn_law_close [OF assms(1) conjunct1 [OF close_result [OF c]]]
  from assms(2) c have "rc = rc1" "s' = s1"
    "d' = (if rc1 = SQLITE_OK then d\<lparr>db_conn := None\<rparr> else d)"
    by (auto simp: db_close_def split: if_splits)
  with l show ?thesis by (auto simp: others_def owns_def)
qed

lemma db_close_None: "db_close S d s = (SQLITE_OK, d', s') \<Longrightarrow> db_conn d' = None"
  by (auto simp: db_close_def split: prod.splits if_splits)

lemma db_open_conns:
  assumes law: "conn_law S conns" and "db_conn d = None" and run: "db_open S d s = (rc, d', s')"
  shows "others conns d' s' = conns (sq s) \<and> owns conns d' s' \<and> db_fmt d' = db_fmt d \<and>
    (rc = SQLITE_OK \<longrightarrow> db_conn d' \<noteq> None)"
proof -
  obtain rc1 c s1 where o: "sqlite3_open_v2 S (db_filename d) open_filemode s = (rc1, c, s1)"
    by (cases "sqlite3_open_v2 S (db_filename d) open_filemode s") auto
  note l = conn_law_open [OF law conjunct1 [OF open_result [OF o]]]
  let ?d = "d\<lparr>db_conn := c\<rparr>"
  have 1: "others conns ?d s1 = conns (sq s)" "owns conns ?d s1"
    using l by (auto simp: others_def owns_def)
  show ?thesis
  proof (cases "rc1 = SQLITE_OK")
    case False
    obtain rc2 d2 s2 where cl: "db_close S ?d s1 = (rc2, d2, s2)" by (cases "db_close S ?d s1") auto
    note k = db_close_conns [OF law cl]
    have "rc \<noteq> SQLITE_OK" "d' = d2" "s' = s2"
      using run o cl False by (auto simp: db_open_def split: if_splits)
    with k 1 show ?thesis by auto
  next
    case True
    have keep: "others conns ?d t = conns (sq s) \<and> owns conns ?d t" if "conns (sq t) = conns (sq s1)" for t :: "'a sys"
      using 1 that by (simp add: others_def owns_def)
    obtain rt s2 where t: "sqlite3_busy_timeout S c 1000 s1 = (rt, s2)"
      by (cases "sqlite3_busy_timeout S c 1000 s1")
    obtain rx s3 where x: "sqlite3_exec S c (fmt_sql_create (db_fmt d)) s2 = (rx, s3)"
      by (cases "sqlite3_exec S c (fmt_sql_create (db_fmt d)) s2")
    obtain ri s4 where i: "sqlite3_exec S c (the (db_init_sql d)) s3 = (ri, s4)"
      by (cases "sqlite3_exec S c (the (db_init_sql d)) s3")
    have "db_open S d s =
        (if rt \<noteq> SQLITE_OK then (rt, ?d, s2) else if rx \<noteq> SQLITE_OK then (rx, ?d, s3)
         else case db_init_sql d of None \<Rightarrow> (SQLITE_OK, ?d, s3) | Some _ \<Rightarrow> (ri, ?d, s4))"
      using o True t x i by (auto simp: db_open_def Let_def split: option.split)
    with run have "d' = ?d" and "s' \<in> {s2, s3, s4}"
      by (auto split: if_splits option.splits)
    moreover have "conns (sq s2) = conns (sq s1)" "conns (sq s3) = conns (sq s1)"
      "conns (sq s4) = conns (sq s1)"
      using busy_timeout_conns [OF law t] exec_conns [OF law x] exec_conns [OF law i] by auto
    ultimately have "d' = ?d" "conns (sq s') = conns (sq s1)" by auto
    with keep [of s'] l True show ?thesis by simp
  qed
qed

lemma db_init_conns:
  assumes law: "conn_law S conns" and run: "db_init S d s = (rc, d', s')"
  shows "others conns d' s' = others conns d s \<and> (owns conns d s \<longrightarrow> owns conns d' s') \<and>
    db_fmt d' = db_fmt d \<and> (rc = SQLITE_OK \<longrightarrow> db_conn d' \<noteq> None)"
proof (cases "db_conn d")
  case None
  with run db_open_conns [OF law None, of s rc d' s'] show ?thesis
    by (simp add: db_init_def others_def)
next
  case (Some c)
  obtain rc1 d1 s1 where cl: "db_close S d s = (rc1, d1, s1)" by (cases "db_close S d s") auto
  note k = db_close_conns [OF law cl]
  show ?thesis
  proof (cases "rc1 = SQLITE_OK")
    case False
    with run Some cl k show ?thesis by (auto simp: db_init_def)
  next
    case True
    with run Some cl have o: "db_open S d1 s1 = (rc, d', s')" by (simp add: db_init_def)
    with True k db_open_conns [OF law _ o] show ?thesis by (auto simp: others_def)
  qed
qed

text \<open>
  A reported success of the whole operation, with the retry: the rows are committed exactly once.
\<close>

lemma db_insert_list_committed:
  assumes "sqlite_law S V (db_fmt d)" and "conn_law S conns" and "db_conn d = Some c"
    and "\<forall>part\<in>set parts. length part \<le> length (fmt_columns (db_fmt d))"
    and "db_insert_list S d parts s = (SQLITE_OK, d', s')"
  shows "\<exists>c' s0. db_conn d' = Some c' \<and> try_insert_list S d' parts s0 = (SQLITE_OK, s') \<and>
    v_txn V c' (sq s0) = None \<and> v_txn V c' (sq s') = None \<and>
    v_rows V c' (sq s') = v_rows V c' (sq s0) @ map (padded (length (fmt_columns (db_fmt d)))) parts \<and>
    (d' = d \<and> s0 = s \<or>
     (\<exists>rc s1. try_insert_list S d parts s = (rc, s1) \<and> rc \<noteq> SQLITE_OK \<and>
        v_rows V c (sq s1) = v_rows V c (sq s) \<and>
        s3_extended_errcode S (Some c) (sq s1) \<in> {SQLITE_READONLY_DBMOVED, SQLITE_OK} \<and>
        db_init S d s1 = (SQLITE_OK, d', s0)))"
proof -
  from rows.ok_once [OF assms(5)] obtain s0 where
    ok: "try_insert_list S d' parts s0 = (SQLITE_OK, s')" and
    which: "d' = d \<and> s0 = s \<or>
      (\<exists>rc s1. try_insert_list S d parts s = (rc, s1) \<and> rc \<noteq> SQLITE_OK \<and>
        (s3_extended_errcode S (db_conn d) (sq s1) = SQLITE_READONLY_DBMOVED \<or>
         s3_extended_errcode S (db_conn d) (sq s1) = SQLITE_OK) \<and> db_init S d s1 = (SQLITE_OK, d', s0))"
    by blast
  have same: "db_fmt d' = db_fmt d" "db_conn d' \<noteq> None"
    using which db_init_conns [OF assms(2)] assms(3) by auto
  then obtain c' where c': "db_conn d' = Some c'" by blast
  have "v_txn V c' (sq s0) = None" "v_txn V c' (sq s') = None"
    "v_rows V c' (sq s') = v_rows V c' (sq s0) @ map (padded (length (fmt_columns (db_fmt d)))) parts"
    using try_insert_list_spec [OF _ c' _ ok, of V] assms(1,4) same(1) by simp_all
  moreover have "v_rows V c (sq s1) = v_rows V c (sq s)"
    if "try_insert_list S d parts s = (rc, s1)" "rc \<noteq> SQLITE_OK" for rc s1
    using try_insert_list_spec [OF assms(1,3,4) that(1)] that(2) by simp
  ultimately show ?thesis using c' which assms(3) ok by auto
qed

lemma db_insert_list_ok:
  assumes "sqlite_law S V (db_fmt d)" and "conn_law S conns" and "db_conn d = Some c"
    and "\<forall>part\<in>set parts. length part \<le> length (fmt_columns (db_fmt d))"
    and "db_insert_list S d parts s = (SQLITE_OK, d', s')"
  shows "\<exists>c' s0. db_conn d' = Some c' \<and>
    v_rows V c' (sq s') = v_rows V c' (sq s0) @ map (padded (length (fmt_columns (db_fmt d)))) parts \<and>
    (d' = d \<and> s0 = s \<or>
     (\<exists>rc s1. try_insert_list S d parts s = (rc, s1) \<and> rc \<noteq> SQLITE_OK \<and>
        v_rows V c (sq s1) = v_rows V c (sq s) \<and>
        s3_extended_errcode S (Some c) (sq s1) \<in> {SQLITE_READONLY_DBMOVED, SQLITE_OK} \<and>
        db_init S d s1 = (SQLITE_OK, d', s0)))"
  using db_insert_list_committed [OF assms] by blast

text \<open>No operation changes the name, the format or the script of a database.\<close>

definition same_config :: "db \<Rightarrow> db \<Rightarrow> bool" where
  "same_config d d' \<longleftrightarrow>
     db_filename d' = db_filename d \<and> db_fmt d' = db_fmt d \<and> db_init_sql d' = db_init_sql d"

lemma same_config_refl [simp]: "same_config d d"
  by (simp add: same_config_def)

lemma same_config_trans: "same_config d d1 \<Longrightarrow> same_config d1 d2 \<Longrightarrow> same_config d d2"
  by (simp add: same_config_def)

lemma db_close_config: "db_close S d s = (rc, d', s') \<Longrightarrow> same_config d d'"
  by (auto simp: db_close_def same_config_def split: prod.splits if_splits)

lemma db_open_config: "db_open S d s = (rc, d', s') \<Longrightarrow> same_config d d'"
  by (auto simp: db_open_def Let_def same_config_def dest!: db_close_config
      split: prod.splits if_splits option.splits)

lemma db_init_config: "db_init S d s = (rc, d', s') \<Longrightarrow> same_config d d'"
  by (auto simp: db_init_def intro: same_config_trans dest: db_open_config db_close_config
      split: prod.splits if_splits)

lemma db_insert_config: "db_insert S d vs s = (rc, d', s') \<Longrightarrow> same_config d d'"
  by (auto simp: db_insert_def Let_def dest: db_init_config split: prod.splits if_splits)

lemma db_insert_list_config: "db_insert_list S d parts s = (rc, d', s') \<Longrightarrow> same_config d d'"
  by (auto simp: db_insert_list_def Let_def dest: db_init_config split: prod.splits if_splits)

section \<open>The checkpoint: proofs\<close>

lemma wrapper_sleeps:
  assumes "sleep_law S slept"
  shows "sqlite3_prepare_v2 S c sql s = (rc, st, s') \<Longrightarrow> slept (sq s') = slept (sq s)"
    and "sqlite3_step S c st s = (rc, s') \<Longrightarrow> slept (sq s') = slept (sq s)"
    and "sqlite3_finalize S c st s = (rc, s') \<Longrightarrow> slept (sq s') = slept (sq s)"
    and "sqlite3_wal_checkpoint_v2 S c e s = (rc, s') \<Longrightarrow> slept (sq s') = slept (sq s)"
  using assms prepare_result [of S c sql s rc st s'] step_result [of S c st s rc s']
    finalize_result [of S c st s rc s'] wal_checkpoint_result [of S c e s rc s']
  unfolding sleep_law_def by (metis snd_conv)+

text \<open>The value of a PRAGMA is the given one or one that SQLite returned; nothing sleeps.\<close>

lemma pragma_value_spec:
  assumes law: "sleep_law S slept" and run: "pragma_value S d sql get v s = (rc, v', s')"
  shows "slept (sq s') = slept (sq s) \<and> (v' = v \<or> (\<exists>st w. v' = get st w))"
proof -
  obtain rcp st s1 where p: "sqlite3_prepare_v2 S (db_conn d) sql s = (rcp, st, s1)"
    by (cases "sqlite3_prepare_v2 S (db_conn d) sql s") auto
  obtain rcs s2 where t: "(if rcp = SQLITE_OK then sqlite3_step S (db_conn d) st s1 else (SQLITE_OK, s1)) = (rcs, s2)"
    by (cases "if rcp = SQLITE_OK then sqlite3_step S (db_conn d) st s1 else (SQLITE_OK, s1)")
  define s3 where "s3 = (if rcp = SQLITE_OK \<and> rcs = SQLITE_ROW \<and> s3_column_count S st (sq s2) \<noteq> 1
    then log_error ''sqlitelog: failed to get correct amount of columns from \"%V\"; expected 1, got %d''
      [Arg_V sql, Arg_d (s3_column_count S st (sq s2))] s2 else s2)"
  obtain rcf s4 where f: "sqlite3_finalize S (db_conn d) st s3 = (rcf, s4)"
    by (cases "sqlite3_finalize S (db_conn d) st s3")
  have s': "s' = s4" and v': "v' = v \<or> v' = get st (sq s3)"
    using run p t f by (auto simp: pragma_value_def s3_def Let_def split: if_splits)
  have "slept (sq s2) = slept (sq s1)"
    using t wrapper_sleeps(2) [OF law] by (auto split: if_splits)
  moreover have "sq s3 = sq s2" by (simp add: s3_def)
  ultimately have "slept (sq s4) = slept (sq s)"
    using wrapper_sleeps(1) [OF law p] wrapper_sleeps(3) [OF law f] by simp
  with s' v' show ?thesis by blast
qed

text \<open>The sleeps \<open>ds\<close> of a loop that has slept \<open>slp\<close> before: each but the first only below the timeout.\<close>

definition sleeps_below :: "int \<Rightarrow> int \<Rightarrow> int list \<Rightarrow> bool" where
  "sleeps_below T slp ds \<longleftrightarrow> (\<forall>n. 0 < n \<longrightarrow> n < length ds \<longrightarrow> slp + sum_list (take n ds) < T)"

lemma sleeps_below_Cons: "sleeps_below T slp [d]"
  "slp + d < T \<Longrightarrow> sleeps_below T (slp + d) ds \<Longrightarrow> sleeps_below T slp (d # ds)"
  by (auto simp: sleeps_below_def take_Cons' algebra_simps)
    (metis One_nat_def Suc_diff_1 Suc_less_eq add.right_neutral less_one not_less_eq sum_list.Nil take0)+

lemma checkpoint_loop_spec:
  assumes law: "sleep_law S slept"
  shows "checkpoint_loop S c T rc slp s = (rc', slp', s') \<Longrightarrow>
    \<exists>ds. slept (sq s') = slept (sq s) @ ds \<and> (\<forall>ms\<in>set ds. 50 \<le> ms \<and> ms \<le> 150) \<and>
      slp' = slp + sum_list ds \<and> sleeps_below T slp ds \<and> (rc' = SQLITE_BUSY \<longrightarrow> T \<le> slp')"
  using law
proof (induction S c T rc slp s rule: checkpoint_loop.induct)
  case (1 S c T rc slp s)
  show ?case
  proof (cases "rc = SQLITE_BUSY")
    case False
    with "1.prems"(1) show ?thesis
      by (intro exI [of _ "[]"]) (simp add: checkpoint_loop.simps sleeps_below_def)
  next
    case True
    obtain r w where r: "os_random S (sq s) = (r, w)" by (cases "os_random S (sq s)")
    define d where "d = 50 + int (shrink r)"
    define s1 where "s1 = s\<lparr>sq := os_msleep S d w\<rparr>"
    obtain rc2 s2 where k: "sqlite3_wal_checkpoint_v2 S c SQLITE_CHECKPOINT_TRUNCATE s1 = (rc2, s2)"
      by (cases "sqlite3_wal_checkpoint_v2 S c SQLITE_CHECKPOINT_TRUNCATE s1")
    have step: "checkpoint_loop S c T rc slp s =
        (if T \<le> slp + d then (rc2, slp + d, s2) else checkpoint_loop S c T rc2 (slp + d) s2)"
      using True r k by (subst checkpoint_loop.simps) (simp add: d_def s1_def)
    have d: "50 \<le> d" "d \<le> 150" using shrink_le [of r] by (simp_all add: d_def)
    have w: "slept w = slept (sq s)"
      using "1.prems"(2) r unfolding sleep_law_def by (metis snd_conv)
    have sl: "slept (sq s2) = slept (sq s) @ [d]"
      using wrapper_sleeps(4) [OF "1.prems"(2) k] "1.prems"(2) w by (simp add: s1_def sleep_law_def)
    show ?thesis
    proof (cases "T \<le> slp + d")
      case True
      with step "1.prems"(1) sl d show ?thesis
        by (intro exI [of _ "[d]"]) (simp add: sleeps_below_Cons)
    next
      case False
      with step "1.prems"(1) have rest: "checkpoint_loop S c T rc2 (slp + d) s2 = (rc', slp', s')"
        by simp
      have "\<exists>ds. slept (sq s') = slept (sq s2) @ ds \<and> (\<forall>ms\<in>set ds. 50 \<le> ms \<and> ms \<le> 150) \<and>
          slp' = slp + d + sum_list ds \<and> sleeps_below T (slp + d) ds \<and> (rc' = SQLITE_BUSY \<longrightarrow> T \<le> slp')"
        using True False r rest k "1.prems"(2) unfolding s1_def d_def
        by (intro "1.IH" [OF _ refl _ refl refl refl]) (auto simp: d_def s1_def)
      then obtain ds where ds: "slept (sq s') = slept (sq s2) @ ds" "\<forall>ms\<in>set ds. 50 \<le> ms \<and> ms \<le> 150"
        "slp' = slp + d + sum_list ds" "sleeps_below T (slp + d) ds" "rc' = SQLITE_BUSY \<longrightarrow> T \<le> slp'"
        by blast
      with False sl d show ?thesis
        by (intro exI [of _ "d # ds"]) (simp add: sleeps_below_Cons)
    qed
  qed
qed

text \<open>In all less than the timeout and one more sleep; one sleep if the timeout is not positive.\<close>

lemma sleeps_below_bound:
  assumes "sleeps_below T 0 ds" and "\<forall>ms\<in>set ds. 50 \<le> ms \<and> ms \<le> (150::int)"
  shows "if T \<le> 0 then length ds \<le> 1 else sum_list ds < T + 150"
proof (cases "length ds \<le> 1")
  case True
  with assms(2) show ?thesis by (cases ds) auto
next
  case False
  then obtain x ys y where ds: "ds = x # ys @ [y]"
    by (cases ds; cases "tl ds" rule: rev_cases) auto
  have "sum_list (take (Suc (length ys)) ds) < T"
    using assms(1) ds unfolding sleeps_below_def by (metis add_0 length_Cons length_append_singleton lessI zero_less_Suc)
  then have "x + sum_list ys < T" by (simp add: ds)
  moreover have "0 \<le> sum_list ys" using assms(2) ds by (intro sum_list_nonneg) force
  ultimately show ?thesis using assms(2) ds by auto
qed

section \<open>Properties\<close>

definition mem_db :: db where
  "mem_db = \<lparr>db_conn = Some 1, db_filename = ''log.db'', db_fmt = mem_fmt, db_init_sql = None\<rparr>"

lemma mem_db_simps [simp]:
  "db_conn mem_db = Some 1" "db_fmt mem_db = mem_fmt" "length (fmt_columns mem_fmt) = 2"
  by (simp_all add: mem_db_def mem_fmt_def Let_def)

lemma mem_db_law: "sqlite_law mem_api mem_view (db_fmt mem_db)"
  by (simp add: mem_sqlite_law)

text \<open>The same start with room for \<open>n\<close> rows, and a list of two entries.\<close>

definition mem_start_room :: "nat \<Rightarrow> mem_sqlite sys" where
  "mem_start_room n = mem_start\<lparr>sq := (sq mem_start)\<lparr>mq_room := n\<rparr>\<rparr>"

abbreviation two_rows :: "ngx_str list list" where
  "two_rows \<equiv> [[Some [65], None], [Some [66], Some [67]]]"

abbreviation one_row :: "ngx_str list list" where
  "one_row \<equiv> [[Some [65], None]]"

text \<open>
  C4. One attempt to insert a list: if it reports OK, all its parts are committed as rows, in
  order, and no transaction is left open; otherwise not a single row is committed. A part with
  fewer values than columns becomes a row filled up with NULLs. No column beyond the format is
  read.
\<close>

theorem list_all_or_nothing:
  assumes "sqlite_law S V (db_fmt d)" and "db_conn d = Some c"
    and "\<forall>part\<in>set parts. length part \<le> length (fmt_columns (db_fmt d))"
    and "try_insert_list S d parts s = (rc, s')"
  shows "ub s' = ub s \<and>
    (if rc = SQLITE_OK
     then v_txn V c (sq s') = None \<and>
       v_rows V c (sq s') = v_rows V c (sq s) @ map (padded (length (fmt_columns (db_fmt d)))) parts
     else v_rows V c (sq s') = v_rows V c (sq s))"
  using try_insert_list_spec [OF assms] by simp

lemma mem_list_eval:
  "fst (try_insert_list mem_api mem_db two_rows mem_start) = SQLITE_OK"
  "fst (try_insert_list mem_api mem_db two_rows (mem_start_room 1)) = 13"
  by code_simp+

lemma mem_start_rows: "v_rows mem_view 1 (sq mem_start) = []" "v_rows mem_view 1 (sq (mem_start_room n)) = []"
  "v_txn mem_view 1 (sq mem_start) = None"
  by (simp_all add: mem_view_def mem_start_def mem_start_room_def mem_open_def mem_init_def Let_def)

theorem list_all_or_nothing_witness:
  "v_rows mem_view 1 (sq (snd (try_insert_list mem_api mem_db two_rows mem_start))) = two_rows \<and>
   v_rows mem_view 1 (sq (snd (try_insert_list mem_api mem_db two_rows (mem_start_room 1)))) = []"
  using list_all_or_nothing [of mem_api mem_view mem_db 1 two_rows mem_start, OF _ _ _ surjective_pairing]
    list_all_or_nothing [of mem_api mem_view mem_db 1 two_rows "mem_start_room 1", OF _ _ _ surjective_pairing]
    mem_sqlite_law mem_list_eval mem_start_rows
  by simp

text \<open>
  C5. \<open>db_insert_list\<close> reports OK only after exactly one attempt committed the whole list: the
  first one, or one retry on a newly opened connection after a first attempt that committed
  nothing and whose extended result code was DBMOVED or OK.
\<close>

theorem list_inserted_once:
  assumes "sqlite_law S V (db_fmt d)" and "conn_law S conns" and "db_conn d = Some c"
    and "\<forall>part\<in>set parts. length part \<le> length (fmt_columns (db_fmt d))"
    and "db_insert_list S d parts s = (SQLITE_OK, d', s')"
  shows "\<exists>c' s0. db_conn d' = Some c' \<and>
    v_rows V c' (sq s') = v_rows V c' (sq s0) @ map (padded (length (fmt_columns (db_fmt d)))) parts \<and>
    (d' = d \<and> s0 = s \<or>
     (\<exists>rc s1. try_insert_list S d parts s = (rc, s1) \<and> rc \<noteq> SQLITE_OK \<and>
        v_rows V c (sq s1) = v_rows V c (sq s) \<and>
        s3_extended_errcode S (Some c) (sq s1) \<in> {SQLITE_READONLY_DBMOVED, SQLITE_OK} \<and>
        db_init S d s1 = (SQLITE_OK, d', s0)))"
  by (rule db_insert_list_ok [OF assms])

lemma mem_insert_list_eval:
  "fst (db_insert_list mem_api mem_db one_row mem_start) = SQLITE_OK"
  "db_conn (fst (snd (db_insert_list mem_api mem_db one_row mem_start))) = Some 1"
  by code_simp+

theorem list_inserted_once_witness:
  "\<exists>d' s' (s0 :: mem_sqlite sys). db_insert_list mem_api mem_db one_row mem_start = (SQLITE_OK, d', s') \<and>
     v_rows mem_view 1 (sq s') = v_rows mem_view 1 (sq s0) @ one_row"
proof -
  obtain rc d' s' where run: "db_insert_list mem_api mem_db one_row mem_start = (rc, d', s')"
    by (cases "db_insert_list mem_api mem_db one_row mem_start") auto
  with mem_insert_list_eval have rc: "rc = SQLITE_OK" and conn: "db_conn d' = Some 1" by auto
  have len: "\<forall>part\<in>set one_row. length part \<le> length (fmt_columns (db_fmt mem_db))" by simp
  obtain c' and s0 :: "mem_sqlite sys" where "db_conn d' = Some c'" and
    "v_rows mem_view c' (sq s') = v_rows mem_view c' (sq s0) @ map (padded (length (fmt_columns (db_fmt mem_db)))) one_row"
    using list_inserted_once [OF mem_db_law mem_conn_law mem_db_simps(1) len run [unfolded rc]] by blast
  with conn run rc show ?thesis by (intro exI [of _ d'] exI [of _ s'] exI [of _ s0]) simp
qed

text \<open>
  \<open>db_insert\<close> reports OK only after exactly one attempt added the row: the first one, or one
  retry on a newly opened connection after a first attempt that added nothing because the file
  was moved.
\<close>

theorem row_inserted_once:
  assumes "sqlite_law S V (db_fmt d)" and "conn_law S conns" and "db_conn d = Some c"
    and "length vs = length (fmt_columns (db_fmt d))"
    and "db_insert S d vs s = (SQLITE_OK, d', s')"
  shows "\<exists>c' s0. db_conn d' = Some c' \<and> try_insert S d' vs s0 = (SQLITE_OK, s') \<and>
    row_added V c' vs (sq s0) (sq s') \<and>
    (d' = d \<and> s0 = s \<or>
     (\<exists>rc s1. try_insert S d vs s = (rc, s1) \<and> rc \<noteq> SQLITE_OK \<and> nothing_added V c (sq s) (sq s1) \<and>
        s3_extended_errcode S (Some c) (sq s1) = SQLITE_READONLY_DBMOVED \<and>
        db_init S d s1 = (SQLITE_OK, d', s0)))"
proof -
  from row.ok_once [OF assms(5)] obtain s0 where
    ok: "try_insert S d' vs s0 = (SQLITE_OK, s')" and
    which: "d' = d \<and> s0 = s \<or>
      (\<exists>rc s1. try_insert S d vs s = (rc, s1) \<and> rc \<noteq> SQLITE_OK \<and>
        s3_extended_errcode S (db_conn d) (sq s1) = SQLITE_READONLY_DBMOVED \<and>
        db_init S d s1 = (SQLITE_OK, d', s0))"
    by blast
  have same: "db_fmt d' = db_fmt d" "db_conn d' \<noteq> None"
    using which db_init_conns [OF assms(2)] assms(3) by auto
  then obtain c' where c': "db_conn d' = Some c'" by blast
  have "row_added V c' vs (sq s0) (sq s')"
    using try_insert_spec [OF _ c' _ ok, of V] assms(1,4) same(1) by simp
  moreover have "nothing_added V c (sq s) (sq s1)"
    if "try_insert S d vs s = (rc, s1)" "rc \<noteq> SQLITE_OK" for rc s1
    using try_insert_spec [OF assms(1,3) _ that(1)] that(2) assms(4) by simp
  ultimately show ?thesis using c' which assms(3) ok by auto
qed

lemma mem_row_eval:
  "fst (db_insert mem_api mem_db [Some [65], None] mem_start) = SQLITE_OK"
  "db_conn (fst (snd (db_insert mem_api mem_db [Some [65], None] mem_start))) = Some 1"
  by code_simp+

theorem row_inserted_once_witness:
  "\<exists>d' s' (s0 :: mem_sqlite sys). db_insert mem_api mem_db [Some [65], None] mem_start = (SQLITE_OK, d', s') \<and>
     row_added mem_view 1 [Some [65], None] (sq s0) (sq s')"
proof -
  obtain rc d' s' where run: "db_insert mem_api mem_db [Some [65], None] mem_start = (rc, d', s')"
    by (cases "db_insert mem_api mem_db [Some [65], None] mem_start") auto
  with mem_row_eval have rc: "rc = SQLITE_OK" and conn: "db_conn d' = Some 1" by auto
  have len: "length [Some [65], None] = length (fmt_columns (db_fmt mem_db))" by simp
  obtain c' and s0 :: "mem_sqlite sys" where "db_conn d' = Some c'" and
    "row_added mem_view c' [Some [65], None] (sq s0) (sq s')"
    using row_inserted_once [OF mem_db_law mem_conn_law mem_db_simps(1) len run [unfolded rc]] by blast
  with conn run rc show ?thesis by (intro exI [of _ d'] exI [of _ s'] exI [of _ s0]) simp
qed

text \<open>
  If a transaction is still open, because a COMMIT failed and the code does not roll back
  after that, the next list is refused at BEGIN and the state is what it was: the transaction
  stays open and the rows of both lists stay uncommitted.
\<close>

theorem open_transaction_blocks:
  assumes "sqlite_law S V (db_fmt d)" and "db_conn d = Some c" and "v_txn V c (sq s) = Some rs"
    and "try_insert_list S d parts s = (rc, s')"
  shows "rc \<noteq> SQLITE_OK \<and> same_rows V c (sq s) (sq s')"
proof -
  obtain rcb s1 where b: "sqlite3_exec S (Some c) ''BEGIN EXCLUSIVE TRANSACTION'' s = (rcb, s1)"
    by (cases "sqlite3_exec S (Some c) ''BEGIN EXCLUSIVE TRANSACTION'' s")
  from law_txn(1) [OF assms(1) conjunct1 [OF exec_txn(1) [OF b]]] assms(3)
  have "rcb \<noteq> SQLITE_OK" "same_rows V c (sq s) (sq s1)" by (auto split: if_splits)
  with assms(2,4) b show ?thesis by (simp add: try_insert_list_def)
qed

definition mem_txn_open :: "mem_sqlite sys" where
  "mem_txn_open = mem_start\<lparr>sq := (sq mem_start)\<lparr>mq_txn := (\<lambda>_. Some two_rows)\<rparr>\<rparr>"

theorem open_transaction_blocks_witness:
  "fst (try_insert_list mem_api mem_db two_rows mem_txn_open) \<noteq> SQLITE_OK \<and>
   same_rows mem_view 1 (sq mem_txn_open) (sq (snd (try_insert_list mem_api mem_db two_rows mem_txn_open)))"
  using mem_sqlite_law
  by (intro open_transaction_blocks [of mem_api mem_view mem_db 1 mem_txn_open two_rows two_rows,
        OF _ _ _ surjective_pairing]) (simp_all add: mem_view_def mem_txn_open_def)

text \<open>
  A SQLite whose table is full, reduced to the number of connections it has opened and the
  extended result code: every step fails with FULL, everything else succeeds.
\<close>

definition full_api :: "(nat \<times> int) sqlite" where
  "full_api = \<lparr>
     s3_open_v2 = \<lambda>f fl (n, e). (SQLITE_OK, Some 1, (Suc n, SQLITE_OK)),
     s3_prepare_v2 = \<lambda>c sql (n, e). (SQLITE_OK, Some 1, (n, SQLITE_OK)),
     s3_bind_text = \<lambda>st i v w. (SQLITE_OK, w), s3_bind_blob = \<lambda>st i v w. (SQLITE_OK, w),
     s3_bind_null = \<lambda>st i w. (SQLITE_OK, w),
     s3_step = \<lambda>st (n, e). (13, (n, 13)), s3_finalize = \<lambda>st w. (13, w),
     s3_busy_timeout = \<lambda>c ms (n, e). (SQLITE_OK, (n, SQLITE_OK)),
     s3_exec = \<lambda>c sql (n, e). (SQLITE_OK, (n, SQLITE_OK)), s3_close = \<lambda>c w. (SQLITE_OK, w),
     s3_wal_checkpoint_v2 = \<lambda>c e w. (SQLITE_OK, w),
     s3_errmsg = \<lambda>c w. ''full'', s3_extended_errcode = \<lambda>c w. snd w,
     s3_column_count = \<lambda>st w. 1, s3_column_text = \<lambda>st i w. [], s3_column_int = \<lambda>st i w. 0,
     os_random = \<lambda>w. (0, w), os_msleep = \<lambda>ms w. w\<rparr>"

definition full_sys :: "(nat \<times> int) sys" where
  "full_sys = \<lparr>sq = (1, 0), elog = [], ub = False\<rparr>"

text \<open>
  The retry of a list is not only for a moved file: when the table is full, the INSERT fails,
  the ROLLBACK succeeds, and since the extended result code is then OK, a new connection is opened
  and the whole list is tried again, with the same result. A single row is not retried after the
  same error.
\<close>

theorem rolled_back_error_reopens:
  "fst (db_insert_list full_api mem_db one_row full_sys) = 13 \<and>
   fst (sq (snd (snd (db_insert_list full_api mem_db one_row full_sys)))) = 2 \<and>
   fst (db_insert full_api mem_db [None, None] full_sys) = 13 \<and>
   fst (sq (snd (snd (db_insert full_api mem_db [None, None] full_sys)))) = 1"
  by code_simp

text \<open>
  C28. Initialising a database never loses a connection: the connections that are not the
  database's own are the same before and after, and the one it opened, if any, is the one it
  records. When it reports OK it has a connection. A failure after opening leaves the new
  connection open and recorded.
\<close>

theorem init_keeps_connections:
  assumes "conn_law S conns" and "owns conns d s" and "db_init S d s = (rc, d', s')"
  shows "conns (sq s') - set_option (db_conn d') = conns (sq s) - set_option (db_conn d) \<and>
    set_option (db_conn d') \<subseteq> conns (sq s') \<and> (rc = SQLITE_OK \<longrightarrow> db_conn d' \<noteq> None)"
  using db_init_conns [OF assms(1,3)] assms(2) by (simp add: others_def owns_def)

theorem init_keeps_connections_witness:
  "\<exists>rc d' s'. db_init mem_api mem_db mem_start = (rc, d', s') \<and>
     mem_conns (sq s') - set_option (db_conn d') = {}"
proof -
  obtain rc d' s' where run: "db_init mem_api mem_db mem_start = (rc, d', s')"
    by (cases "db_init mem_api mem_db mem_start") auto
  have c: "mem_conns (sq mem_start) = {1}"
    by (simp add: mem_conns_def mem_start_def mem_open_def mem_init_def Let_def)
  then have "owns mem_conns mem_db mem_start" by (simp add: owns_def)
  from init_keeps_connections [OF mem_conn_law this run] run c show ?thesis by auto
qed

text \<open>
  Testing a configuration in memory opens a connection of its own and leaves no connection
  behind when it reports OK; the connections of others are not touched in any case.
\<close>

theorem test_closes_connection:
  assumes "conn_law S conns" and "db_test S d s = (rc, s')"
  shows "conns (sq s) \<subseteq> conns (sq s') \<and> (rc = SQLITE_OK \<longrightarrow> conns (sq s') = conns (sq s))"
proof -
  define memdb where "memdb = \<lparr>db_conn = None, db_filename = '':memory:'', db_fmt = db_fmt d,
    db_init_sql = db_init_sql d\<rparr>"
  obtain rci d1 s1 where i: "db_init S memdb s = (rci, d1, s1)" by (cases "db_init S memdb s") auto
  obtain rcc d2 s2 where cl: "db_close S d1 s1 = (rcc, d2, s2)" by (cases "db_close S d1 s1") auto
  have res: "rc = (if rci \<noteq> SQLITE_OK then rci else rcc)" "s' = s2"
    using assms(2) i cl by (simp_all add: db_test_def memdb_def Let_def)
  have "others conns d2 s2 = conns (sq s)"
    using db_init_conns [OF assms(1) i] db_close_conns [OF assms(1) cl]
    by (simp add: others_def memdb_def)
  then have eq: "conns (sq s) = conns (sq s') - set_option (db_conn d2)"
    by (simp add: others_def res(2))
  have "db_conn d2 = None" if "rc = SQLITE_OK"
    using that res(1) cl db_close_None [of S d1 s1 d2 s2] by (simp split: if_splits)
  then show ?thesis unfolding eq by auto
qed

theorem test_closes_connection_witness:
  "mem_conns (sq mem_start) \<subseteq> mem_conns (sq (snd (db_test mem_api mem_db mem_start)))"
  using test_closes_connection [OF mem_conn_law surjective_pairing] by blast

text \<open>
  C29. The checkpoint always ends. It sleeps between 50 and 150 ms at a time, goes on to another sleep
  only while the time slept is below the busy timeout that SQLite reported, and so sleeps less than
  the timeout plus 150 ms in all (at most once, if the timeout is not positive).
\<close>

theorem checkpoint_sleeps:
  assumes "sleep_law S slept" and "db_is_wal S d False s = (rc_wal, is_wal, s1)"
    and "db_get_busy_timeout S d 0 s1 = (rc_timeout, t, s2)" and "db_checkpoint S d s = (rc, s')"
  shows "\<exists>ds. slept (sq s') = slept (sq s) @ ds \<and> (\<forall>ms\<in>set ds. 50 \<le> ms \<and> ms \<le> 150) \<and>
    (\<forall>n. 0 < n \<longrightarrow> n < length ds \<longrightarrow> sum_list (take n ds) < t) \<and>
    (if t \<le> 0 then length ds \<le> 1 else sum_list ds < t + 150)"
proof -
  note w = assms(2) and b = assms(3)
  obtain rck s3 where k: "sqlite3_wal_checkpoint_v2 S (db_conn d) SQLITE_CHECKPOINT_TRUNCATE s2 = (rck, s3)"
    by (cases "sqlite3_wal_checkpoint_v2 S (db_conn d) SQLITE_CHECKPOINT_TRUNCATE s2")
  obtain rcl n s4 where l: "checkpoint_loop S (db_conn d) t rck 0 s3 = (rcl, n, s4)"
    by (cases "checkpoint_loop S (db_conn d) t rck 0 s3") auto
  have 1: "slept (sq s1) = slept (sq s)" "slept (sq s2) = slept (sq s)" "slept (sq s3) = slept (sq s)"
    using pragma_value_spec [OF assms(1) w [unfolded db_is_wal_def]]
      pragma_value_spec [OF assms(1) b [unfolded db_get_busy_timeout_def]]
      wrapper_sleeps(4) [OF assms(1) k] by simp_all
  obtain ds where ds: "slept (sq s4) = slept (sq s3) @ ds" "\<forall>ms\<in>set ds. 50 \<le> ms \<and> ms \<le> 150"
    "sleeps_below t 0 ds"
    using checkpoint_loop_spec [OF assms(1) l] by auto
  have "sq s' \<in> {sq s1, sq s2, sq s4}"
    using assms(4) w b k l by (auto simp: db_checkpoint_def split: if_splits)
  then consider "slept (sq s') = slept (sq s)" | "sq s' = sq s4" using 1 by auto
  then show ?thesis
  proof cases
    case 1
    then show ?thesis by (intro exI [of _ "[]"]) simp
  next
    case 2
    with ds 1 sleeps_below_bound [OF ds(3,2)] show ?thesis
      by (intro exI [of _ ds]) (simp add: sleeps_below_def)
  qed
qed

definition mem_busy :: "mem_sqlite sys" where
  "mem_busy = mem_start\<lparr>sq := (sq mem_start)\<lparr>mq_busy := 3, mq_timeout := 124\<rparr>\<rparr>"

definition mem_calm :: "mem_sqlite sqlite" where
  "mem_calm = mem_api\<lparr>os_random := \<lambda>w. (12, w)\<rparr>"

lemma mem_calm_sleep_law: "sleep_law mem_calm mq_slept"
  using mem_sleep_law by (simp add: sleep_law_def mem_calm_def)

lemma mem_busy_eval:
  "fst (snd (db_get_busy_timeout mem_calm mem_db 0 (snd (snd (db_is_wal mem_calm mem_db False mem_busy))))) = 124"
  "mq_slept (sq (snd (db_checkpoint mem_calm mem_db mem_busy))) = [62, 62]"
  by code_simp+

text \<open>The database stays busy: two sleeps of 62 ms reach the timeout of 124 ms.\<close>

theorem checkpoint_sleeps_witness:
  "mq_slept (sq (snd (db_checkpoint mem_calm mem_db mem_busy))) = [62, 62] \<and>
   (\<exists>ds. mq_slept (sq (snd (db_checkpoint mem_calm mem_db mem_busy))) = mq_slept (sq mem_busy) @ ds \<and>
     (\<forall>n. 0 < n \<longrightarrow> n < length ds \<longrightarrow> sum_list (take n ds) < 124) \<and> sum_list ds < 274)"
proof -
  obtain rw wal s1 where w: "db_is_wal mem_calm mem_db False mem_busy = (rw, wal, s1)"
    by (cases "db_is_wal mem_calm mem_db False mem_busy") auto
  obtain rt t s2 where b: "db_get_busy_timeout mem_calm mem_db 0 s1 = (rt, t, s2)"
    by (cases "db_get_busy_timeout mem_calm mem_db 0 s1") auto
  obtain rc s' where c: "db_checkpoint mem_calm mem_db mem_busy = (rc, s')"
    by (cases "db_checkpoint mem_calm mem_db mem_busy")
  have "t = 124" using mem_busy_eval(1) w b by simp
  with checkpoint_sleeps [OF mem_calm_sleep_law w b c] c mem_busy_eval(2) show ?thesis by auto
qed

end
