(* ===== verification/Handler.thy ===== *)
theory Handler
  imports Db Buffer
begin

text \<open>
  From a request to the database: the request handlers of \<open>ngx_http_sqlitelog_module.c\<close>, the flush
  of \<open>ngx_http_sqlitelog_buf.c\<close> and the thread handlers of \<open>ngx_http_sqlitelog_thread.c\<close>.

  \<open>world\<close> is what one worker process sees: its own configuration of one server (\<open>srv\<close>), SQLite and
  the error log, the shared zone, and nginx's pools and thread queue. A handler that locks the
  zone, works outside the lock and locks it again is the composition of one function per part, so
  that theory Concurrency can interleave the parts of several workers.
\<close>

section \<open>State\<close>

text \<open>The functions of others: SQLite, the slab, lists, request variables, complex values.\<close>

record ('w, 'p, 'l) deps =
  dp_sqlite :: "'w sqlite"
  dp_slab :: "'p slab"
  dp_list :: "'l list_api"
  dp_env :: ngx_env
  dp_complex_value :: "string \<Rightarrow> request \<Rightarrow> string option"
  dp_pid :: int

record srv =
  sv_enabled :: int
  sv_filter :: "string option"
  sv_db :: db
  sv_buf :: "buf option"

text \<open>
  A posted task with its context: \<open>tk_db\<close> is the copy of the database (None when the code does not
  set it), \<open>tk_entry\<close> the log entry or NULL.
\<close>

datatype task_handler = Thread_insert_1 | Thread_insert_n | Thread_flush

record task =
  tk_handler :: task_handler
  tk_db :: "db option"
  tk_entry :: "ngx_str list option"

text \<open>
  \<open>wd_mem\<close> is the schedule of outcomes of the calls that can fail: allocations, pools, and posting
  a task. \<open>wd_pools\<close> counts the pools the module created and has not destroyed, \<open>wd_blocked\<close> the
  times it raised \<open>r->main->blocked\<close> (nothing lowers it); \<open>wd_tp\<close> tells whether a thread pool is
  configured.
\<close>

record ('w, 'p) world =
  wd_srv :: srv
  wd_sys :: "'w sys"
  wd_sh :: "'p shctx"
  wd_mem :: mem
  wd_pools :: int
  wd_blocked :: int
  wd_tasks :: "task list"
  wd_tp :: bool

abbreviation wd_db :: "('w, 'p) world \<Rightarrow> db" where
  "wd_db wd \<equiv> sv_db (wd_srv wd)"

definition set_db :: "db \<Rightarrow> ('w, 'p) world \<Rightarrow> ('w, 'p) world" where
  "set_db d wd = wd\<lparr>wd_srv := (wd_srv wd)\<lparr>sv_db := d\<rparr>\<rparr>"

definition set_buf :: "buf \<Rightarrow> ('w, 'p) world \<Rightarrow> ('w, 'p) world" where
  "set_buf b wd = wd\<lparr>wd_srv := (wd_srv wd)\<lparr>sv_buf := Some b\<rparr>\<rparr>"

text \<open>A line of the error log about the database of the server.\<close>

definition wd_log :: "string \<Rightarrow> ('w, 'p) world \<Rightarrow> ('w, 'p) world" where
  "wd_log line wd = wd\<lparr>wd_sys := log_error line [Arg_V (db_filename (wd_db wd))] (wd_sys wd)\<rparr>"

definition wd_palloc :: "('w, 'p) world \<Rightarrow> bool \<times> ('w, 'p) world" where
  "wd_palloc wd = (let (ok, m) = palloc (wd_mem wd) in (ok, wd\<lparr>wd_mem := m\<rparr>))"

definition create_pool :: "('w, 'p) world \<Rightarrow> bool \<times> ('w, 'p) world" where
  "create_pool wd =
     (let (ok, wd) = wd_palloc wd
      in (ok, if ok then wd\<lparr>wd_pools := wd_pools wd + 1\<rparr> else wd))"

definition destroy_pool :: "('w, 'p) world \<Rightarrow> ('w, 'p) world" where
  "destroy_pool wd = wd\<lparr>wd_pools := wd_pools wd - 1\<rparr>"

section \<open>One entry at a time\<close>

definition handle_1 ::
  "('w, 'p, 'l) deps \<Rightarrow> ngx_str list \<Rightarrow> ('w, 'p) world \<Rightarrow> int \<times> ('w, 'p) world" where
  "handle_1 D entry wd =
     (let (rc_insert, d, s) = db_insert (dp_sqlite D) (wd_db wd) entry (wd_sys wd);
          wd = set_db d (wd\<lparr>wd_sys := s\<rparr>)
      in if rc_insert \<noteq> SQLITE_OK
         then (NGX_ERROR,
           wd_log ''sqlitelog: handle 1 failed to insert record into database \"%V\"'' wd)
         else (NGX_OK, wd))"

text \<open>
  \<open>ngx_thread_task_alloc\<close> and \<open>ngx_thread_task_post\<close> are nginx's: the first allocates, the second
  queues the task or fails.
\<close>

definition post_task :: "task \<Rightarrow> ('w, 'p) world \<Rightarrow> int \<times> ('w, 'p) world" where
  "post_task t wd =
     (let (ok_post, wd) = wd_palloc wd
      in if ok_post then (NGX_OK, wd\<lparr>wd_tasks := wd_tasks wd @ [t]\<rparr>) else (NGX_ERROR, wd))"

definition handle_1_async ::
  "('w, 'p, 'l) deps \<Rightarrow> ngx_str list \<Rightarrow> ('w, 'p) world \<Rightarrow> int \<times> ('w, 'p) world" where
  "handle_1_async D entry wd =
     (let (ok_task, wd) = wd_palloc wd
      in if \<not> ok_task then (NGX_ERROR, wd)
         else
           let (rc_post, wd) = post_task
                 \<lparr>tk_handler = Thread_insert_1, tk_db = Some (wd_db wd), tk_entry = Some entry\<rparr> wd
           in if rc_post \<noteq> NGX_OK
              then (rc_post, wd\<lparr>wd_sys := log_error ''sqlitelog: handle 1 async, rc_post: %d''
                                           [Arg_d rc_post] (wd_sys wd)\<rparr>)
              else (NGX_OK, wd\<lparr>wd_blocked := wd_blocked wd + 1\<rparr>))"

section \<open>Through the buffer\<close>

text \<open>
  A push or unshift writes the error line of its node to the log when it cannot create the node;
  theory Buffer leaves the log out, so the callers add the line.
\<close>

definition node_log :: "('w, 'p, 'l) deps \<Rightarrow> ngx_str list \<Rightarrow> ('w, 'p) world \<Rightarrow> ('w, 'p) world" where
  "node_log D entry wd =
     (case fst (node_create (dp_slab D) entry (sh_pool (wd_sh wd))) of
        Inl (line, args) \<Rightarrow> wd\<lparr>wd_sys := log_error line args (wd_sys wd)\<rparr>
      | Inr _ \<Rightarrow> wd)"

text \<open>
  Steps 1 to 4 of \<open>handle_n\<close>: the part under the lock. \<open>Inl rc\<close> is \<open>return rc\<close>; \<open>Inr (rows,
  rc_push)\<close> goes on with the list.
\<close>

definition handle_n_locked ::
  "('w, 'p, 'l) deps \<Rightarrow> buf \<Rightarrow> ngx_str list \<Rightarrow> ('w, 'p) world \<Rightarrow>
   (int + ngx_str list list \<times> int) \<times> ('w, 'p) world" where
  "handle_n_locked D b entry wd =
     (let sh = shmtx_lock (wd_sh wd);
          wd = node_log D entry wd;
          (rc_push, sh) = buf_push_locked (dp_slab D) b entry sh
      in if rc_push = NGX_OK then (Inl NGX_OK, wd\<lparr>wd_sh := shmtx_unlock sh\<rparr>)
         else
           let (rc_list, sh, m) =
                 buf_list_locked (dp_slab D) (dp_list D) (length entry) (wd_mem wd) sh;
               wd = wd\<lparr>wd_mem := m\<rparr>
           in case rc_list of
                None \<Rightarrow> (Inl NGX_ERROR,
                  wd_log ''sqlitelog: handle n failed to create list after buffer push on database \"%V\"''
                    (wd\<lparr>wd_sh := shmtx_unlock sh\<rparr>))
              | Some l \<Rightarrow>
                  (Inr (li_parts (dp_list D) l, rc_push),
                   set_buf (buf_timer_reset b) (wd\<lparr>wd_sh := shmtx_unlock sh\<rparr>)))"

text \<open>Step 5.\<close>

definition handle_n_insert ::
  "('w, 'p, 'l) deps \<Rightarrow> ngx_str list list \<Rightarrow> ('w, 'p) world \<Rightarrow> int \<times> ('w, 'p) world" where
  "handle_n_insert D rows wd =
     (let (rc_insert, d, s) = db_insert_list (dp_sqlite D) (wd_db wd) rows (wd_sys wd);
          wd = set_db d (wd\<lparr>wd_sys := s\<rparr>)
      in if rc_insert \<noteq> SQLITE_OK
         then (NGX_ERROR,
           wd_log ''sqlitelog: handle n failed to insert list into database \"%V\"'' wd)
         else (NGX_OK, wd))"

text \<open>The entry that did not fit goes to the head of the queue, which is now empty or new.\<close>

definition handle_n_unshift ::
  "('w, 'p, 'l) deps \<Rightarrow> ngx_str list \<Rightarrow> ('w, 'p) world \<Rightarrow> int \<times> ('w, 'p) world" where
  "handle_n_unshift D entry wd =
     (let (rc_unshift, sh) = buf_unshift (dp_slab D) entry (wd_sh wd);
          wd = (node_log D entry wd)\<lparr>wd_sh := sh\<rparr>
      in if rc_unshift \<noteq> NGX_OK
         then (NGX_ERROR,
           wd_log ''sqlitelog: handle n failed to unshift node after overflow on database \"%V\"'' wd)
         else (NGX_OK, wd))"

definition handle_n ::
  "('w, 'p, 'l) deps \<Rightarrow> buf \<Rightarrow> ngx_str list \<Rightarrow> ('w, 'p) world \<Rightarrow> int \<times> ('w, 'p) world" where
  "handle_n D b entry wd =
     (case handle_n_locked D b entry wd of
        (Inl rc, wd) \<Rightarrow> (rc, wd)
      | (Inr (rows, rc_push), wd) \<Rightarrow>
          let (rc, wd) = handle_n_insert D rows wd
          in if rc \<noteq> NGX_OK then (NGX_ERROR, wd)
             else if rc_push = NGX_ERROR then handle_n_unshift D entry wd
             else (NGX_OK, wd))"

definition handle_n_async ::
  "('w, 'p, 'l) deps \<Rightarrow> buf \<Rightarrow> ngx_str list \<Rightarrow> ('w, 'p) world \<Rightarrow> int \<times> ('w, 'p) world" where
  "handle_n_async D b entry wd =
     (let (rc_push, sh) = buf_push (dp_slab D) b entry (wd_sh wd);
          wd = (node_log D entry wd)\<lparr>wd_sh := sh\<rparr>
      in if rc_push = NGX_OK then (NGX_OK, wd)
         else
           let (ok_task, wd) = wd_palloc wd
           in if \<not> ok_task then (NGX_ERROR, wd)
              else post_task
                \<lparr>tk_handler = Thread_insert_n, tk_db = Some (wd_db wd),
                 tk_entry = (if rc_push = NGX_DONE then None else Some entry)\<rparr> wd)"

section \<open>The request handler\<close>

text \<open>The label \<open>failed\<close>: close the database and disable the module in this worker.\<close>

definition handler_failed :: "('w, 'p, 'l) deps \<Rightarrow> ('w, 'p) world \<Rightarrow> int \<times> ('w, 'p) world" where
  "handler_failed D wd =
     (let s = log_error ''sqlitelog: handler disabled for worker process %d''
                [Arg_d (dp_pid D)] (wd_sys wd);
          (rc_close, d, s) = db_close (dp_sqlite D) (wd_db wd) s;
          wd = set_db d (wd\<lparr>wd_sys := s\<rparr>);
          wd = (if rc_close \<noteq> SQLITE_OK
                then wd_log ''sqlitelog: handler failed to close database \"%V\"'' wd else wd)
      in (NGX_ERROR, wd\<lparr>wd_srv := (wd_srv wd)\<lparr>sv_enabled := 0\<rparr>\<rparr>))"

text \<open>The choice of the function that handles the log entry, and its call.\<close>

definition handle_entry ::
  "('w, 'p, 'l) deps \<Rightarrow> ngx_str list \<Rightarrow> ('w, 'p) world \<Rightarrow> int \<times> ('w, 'p) world" where
  "handle_entry D entry wd =
     (if wd_tp wd
      then (case sv_buf (wd_srv wd) of
              Some b \<Rightarrow> handle_n_async D b entry wd
            | None \<Rightarrow> handle_1_async D entry wd)
      else (case sv_buf (wd_srv wd) of
              Some b \<Rightarrow> handle_n D b entry wd
            | None \<Rightarrow> handle_1 D entry wd))"

text \<open>
  From the choice of the pool on. A log entry that would overrun its buffer (see theory Op) sets
  \<open>ub\<close>.
\<close>

definition handler_entry ::
  "('w, 'p, 'l) deps \<Rightarrow> request \<Rightarrow> ('w, 'p) world \<Rightarrow> int \<times> ('w, 'p) world" where
  "handler_entry D r wd =
     (let (entry, r, m) =
            log_entry (dp_env D) r (map col_op (fmt_columns (db_fmt (wd_db wd)))) (wd_mem wd);
          wd = wd\<lparr>wd_mem := m\<rparr>
      in case entry of
           Inl fault \<Rightarrow>
             handler_failed D (wd\<lparr>wd_sys := (log_error
               ''sqlitelog: failed to get log entry for request, '' [] (wd_sys wd))
               \<lparr>ub := (ub (wd_sys wd) \<or> fault = Overrun)\<rparr>\<rparr>)
         | Inr entry \<Rightarrow>
             let (rc, wd) = handle_entry D entry wd
             in if rc \<noteq> NGX_OK
                then handler_failed D
                  (wd_log ''sqlitelog: failed to handle log entry for database \"%V\"'' wd)
                else (NGX_OK, wd))"

definition handler ::
  "('w, 'p, 'l) deps \<Rightarrow> request \<Rightarrow> ('w, 'p) world \<Rightarrow> int \<times> ('w, 'p) world" where
  "handler D r wd =
     (if sv_enabled (wd_srv wd) = 0 then (NGX_OK, wd)
      else
        let accepted =
              (case sv_filter (wd_srv wd) of
                 None \<Rightarrow> Inr True
               | Some f \<Rightarrow>
                   (case dp_complex_value D f r of
                      None \<Rightarrow> Inl NGX_ERROR
                    | Some condition \<Rightarrow> Inr (\<not> ngx_str_is_false condition)))
        in case accepted of
             Inl rc \<Rightarrow> (rc, wd)
           | Inr False \<Rightarrow> (NGX_OK, wd)
           | Inr True \<Rightarrow>
               if wd_tp wd
               then let (ok_pool, wd) = create_pool wd
                    in if \<not> ok_pool
                       then (NGX_ERROR, wd\<lparr>wd_sys := log_error
                         ''sqlitelog: failed to allocate %z bytes for pool during request handler''
                         [] (wd_sys wd)\<rparr>)
                       else handler_entry D r wd
               else handler_entry D r wd)"

section \<open>Flushing\<close>

text \<open>Steps 1 to 4 of a flush under the lock, on the pool that was created for it.\<close>

definition buf_flush_locked ::
  "('w, 'p, 'l) deps \<Rightarrow> buf \<Rightarrow> ('w, 'p) world \<Rightarrow> ngx_str list list option \<times> ('w, 'p) world" where
  "buf_flush_locked D b wd =
     (let (buf_len, sh) = buf_get_len_locked (shmtx_lock (wd_sh wd))
      in if buf_len = 0
         then (None, set_buf (buf_timer_reset b) (wd\<lparr>wd_sh := shmtx_unlock sh\<rparr>))
         else
           let (ok_pool, wd) = create_pool wd
           in if \<not> ok_pool
              then (None, wd\<lparr>wd_sys := log_error
                     ''sqlitelog: buffer flush failed to create pool of %z bytes'' [] (wd_sys wd),
                     wd_sh := shmtx_unlock sh\<rparr>)
              else
                let (rc_list, sh, m) = buf_list_locked (dp_slab D) (dp_list D)
                      (length (fmt_columns (db_fmt (wd_db wd)))) (wd_mem wd) sh;
                    wd = wd\<lparr>wd_mem := m\<rparr>
                in case rc_list of
                     None \<Rightarrow> (None, destroy_pool (wd_log
                       ''sqlitelog: buffer flush failed to create list for database \"%V\"''
                       (wd\<lparr>wd_sh := shmtx_unlock sh\<rparr>)))
                   | Some l \<Rightarrow>
                       (Some (li_parts (dp_list D) l),
                        set_buf (buf_timer_reset b) (wd\<lparr>wd_sh := shmtx_unlock sh\<rparr>)))"

definition buf_flush_insert ::
  "('w, 'p, 'l) deps \<Rightarrow> ngx_str list list \<Rightarrow> ('w, 'p) world \<Rightarrow> ('w, 'p) world" where
  "buf_flush_insert D rows wd =
     (let (rc_insert, d, s) = db_insert_list (dp_sqlite D) (wd_db wd) rows (wd_sys wd);
          wd = set_db d (wd\<lparr>wd_sys := s\<rparr>)
      in destroy_pool
           (if rc_insert \<noteq> SQLITE_OK
            then wd_log ''sqlitelog: buffer flush failed to insert list into database \"%V\"'' wd
            else wd))"

definition buf_flush_sync ::
  "('w, 'p, 'l) deps \<Rightarrow> buf \<Rightarrow> ('w, 'p) world \<Rightarrow> ('w, 'p) world" where
  "buf_flush_sync D b wd =
     (let (buf_len, sh) = buf_get_len (wd_sh wd); wd = wd\<lparr>wd_sh := sh\<rparr>
      in if buf_len = 0 then set_buf (buf_timer_reset b) wd
         else
           (case buf_flush_locked D b wd of
              (None, wd) \<Rightarrow> wd
            | (Some rows, wd) \<Rightarrow> buf_flush_insert D rows wd))"

definition buf_flush_async ::
  "('w, 'p, 'l) deps \<Rightarrow> buf \<Rightarrow> ('w, 'p) world \<Rightarrow> ('w, 'p) world" where
  "buf_flush_async D b wd =
     (let (buf_len, sh) = buf_get_len (wd_sh wd); wd = wd\<lparr>wd_sh := sh\<rparr>
      in if buf_len = 0 then set_buf (buf_timer_reset b) wd
         else
           let (ok_pool, wd) = create_pool wd
           in if \<not> ok_pool
              then wd\<lparr>wd_sys := log_error
                ''sqlitelog: async buffer flush failed to create pool of %z bytes'' [] (wd_sys wd)\<rparr>
              else
                let (ok_task, wd) = wd_palloc wd
                in if \<not> ok_task
                   then destroy_pool (wd\<lparr>wd_sys := log_error
                     ''sqlitelog: async buffer flush failed to create thread task'' [] (wd_sys wd)\<rparr>)
                   else
                     let (rc_post, wd) = post_task
                           \<lparr>tk_handler = Thread_flush, tk_db = None, tk_entry = None\<rparr> wd
                     in if rc_post \<noteq> NGX_OK
                        then destroy_pool (wd\<lparr>wd_sys := log_error
                          ''sqlitelog: async buffer flush failed to post thread task'' [] (wd_sys wd)\<rparr>)
                        else wd)"

text \<open>The flush event expired: nginx has cleared \<open>timer_set\<close> before it calls the handler.\<close>

definition buf_flush_handler ::
  "('w, 'p, 'l) deps \<Rightarrow> buf \<Rightarrow> ('w, 'p) world \<Rightarrow> ('w, 'p) world" where
  "buf_flush_handler D b wd =
     (if wd_tp wd then buf_flush_async D b wd else buf_flush_sync D b wd)"

section \<open>In a thread\<close>

text \<open>The task works on its copy of the database; what it does to the copy is lost.\<close>

definition thread_insert_1 ::
  "('w, 'p, 'l) deps \<Rightarrow> db \<Rightarrow> ngx_str list \<Rightarrow> ('w, 'p) world \<Rightarrow> ('w, 'p) world" where
  "thread_insert_1 D ctx_db entry wd =
     (let (rc_insert, _, s) = db_insert (dp_sqlite D) ctx_db entry (wd_sys wd);
          wd = wd\<lparr>wd_sys := s\<rparr>
      in if rc_insert \<noteq> SQLITE_OK
         then wd_log ''sqlitelog: thread insert 1 handler failed to insert log entry into database \"%V\"'' wd
         else wd)"

definition thread_insert_n_locked ::
  "('w, 'p, 'l) deps \<Rightarrow> buf \<Rightarrow> db \<Rightarrow> ('w, 'p) world \<Rightarrow> ngx_str list list option \<times> ('w, 'p) world" where
  "thread_insert_n_locked D b ctx_db wd =
     (let sh = shmtx_lock (wd_sh wd);
          (rc_list, sh, m) = buf_list_locked (dp_slab D) (dp_list D)
            (length (fmt_columns (db_fmt ctx_db))) (wd_mem wd) sh;
          wd = wd\<lparr>wd_mem := m\<rparr>
      in case rc_list of
           None \<Rightarrow> (None, wd_log
             ''sqlitelog: thread insert n handler failed to create list for database \"%V\"''
             (wd\<lparr>wd_sh := shmtx_unlock sh\<rparr>))
         | Some l \<Rightarrow>
             (Some (li_parts (dp_list D) l),
              set_buf (if buf_flush b \<noteq> 0 then buf_timer_reset b else b)
                (wd\<lparr>wd_sh := shmtx_unlock sh\<rparr>)))"

text \<open>Step 5, on the copy of the database, and the unshift after it.\<close>

definition thread_n_insert ::
  "('w, 'p, 'l) deps \<Rightarrow> db \<Rightarrow> ngx_str list list \<Rightarrow> ('w, 'p) world \<Rightarrow> int \<times> ('w, 'p) world" where
  "thread_n_insert D ctx_db rows wd =
     (let (rc_insert, _, s) = db_insert_list (dp_sqlite D) ctx_db rows (wd_sys wd);
          wd = wd\<lparr>wd_sys := s\<rparr>
      in (rc_insert,
          if rc_insert \<noteq> NGX_OK
          then wd_log ''sqlitelog: thread n handler failed to insert list into database \"%V\"'' wd
          else wd))"

definition thread_n_unshift ::
  "('w, 'p, 'l) deps \<Rightarrow> ngx_str list \<Rightarrow> ('w, 'p) world \<Rightarrow> int \<times> ('w, 'p) world" where
  "thread_n_unshift D e wd =
     (let (rc_unshift, sh) = buf_unshift (dp_slab D) e (wd_sh wd);
          wd = (node_log D e wd)\<lparr>wd_sh := sh\<rparr>
      in (rc_unshift,
          if rc_unshift \<noteq> NGX_OK
          then wd_log ''sqlitelog: thread n handler failed to unshift log entry for database \"%V\"'' wd
          else wd))"

definition thread_insert_n ::
  "('w, 'p, 'l) deps \<Rightarrow> buf \<Rightarrow> db \<Rightarrow> ngx_str list option \<Rightarrow> ('w, 'p) world \<Rightarrow> ('w, 'p) world" where
  "thread_insert_n D b ctx_db entry wd =
     (case thread_insert_n_locked D b ctx_db wd of
        (None, wd) \<Rightarrow> wd
      | (Some rows, wd) \<Rightarrow>
          let (rc_insert, wd) = thread_n_insert D ctx_db rows wd
          in if rc_insert \<noteq> NGX_OK then wd
             else (case entry of None \<Rightarrow> wd | Some e \<Rightarrow> snd (thread_n_unshift D e wd)))"

text \<open>
  The flush works on the worker's database itself, through the pointer of the flush event. The
  context of its task has no database: the name in its first error line is empty.
\<close>

definition thread_flush_locked ::
  "('w, 'p, 'l) deps \<Rightarrow> buf \<Rightarrow> ('w, 'p) world \<Rightarrow> ngx_str list list option \<times> ('w, 'p) world" where
  "thread_flush_locked D b wd =
     (let (buffer_len, sh) = buf_get_len_locked (shmtx_lock (wd_sh wd))
      in if buffer_len = 0
         then (None, set_buf (buf_timer_reset b) (wd\<lparr>wd_sh := shmtx_unlock sh\<rparr>))
         else
           let (rc_list, sh, m) = buf_list_locked (dp_slab D) (dp_list D)
                 (length (fmt_columns (db_fmt (wd_db wd)))) (wd_mem wd) sh;
               wd = wd\<lparr>wd_mem := m\<rparr>
           in case rc_list of
                None \<Rightarrow> (None, wd_log ''sqlitelog: thread flush handler failed on database \"%V\"''
                  (wd\<lparr>wd_sys := log_error
                     ''sqlitelog: thread flush handler failed to create list for database \"%V\"''
                     [Arg_V ''''] (wd_sys wd),
                     wd_sh := shmtx_unlock sh\<rparr>))
              | Some l \<Rightarrow>
                  (Some (li_parts (dp_list D) l),
                   set_buf (if buf_flush b \<noteq> 0 then buf_timer_reset b else b)
                     (wd\<lparr>wd_sh := shmtx_unlock sh\<rparr>)))"

definition thread_flush_insert ::
  "('w, 'p, 'l) deps \<Rightarrow> ngx_str list list \<Rightarrow> ('w, 'p) world \<Rightarrow> ('w, 'p) world" where
  "thread_flush_insert D rows wd =
     (let (rc_insert, d, s) = db_insert_list (dp_sqlite D) (wd_db wd) rows (wd_sys wd);
          wd = set_db d (wd\<lparr>wd_sys := s\<rparr>)
      in if rc_insert \<noteq> NGX_OK
         then wd_log ''sqlitelog: thread flush handler failed on database \"%V\"''
           (wd_log ''sqlitelog: thread flush handler failed to insert list into database \"%V\"'' wd)
         else wd)"

definition thread_flush ::
  "('w, 'p, 'l) deps \<Rightarrow> buf \<Rightarrow> ('w, 'p) world \<Rightarrow> ('w, 'p) world" where
  "thread_flush D b wd =
     (case thread_flush_locked D b wd of
        (None, wd) \<Rightarrow> wd
      | (Some rows, wd) \<Rightarrow> thread_flush_insert D rows wd)"

definition thread_completed :: "('w, 'p) world \<Rightarrow> ('w, 'p) world" where
  "thread_completed wd = destroy_pool wd"

text \<open>
  The thread pool runs the first task and then its completion handler. A task of a buffer has the
  buffer of the worker that posted it.
\<close>

definition call_task :: "('w, 'p, 'l) deps \<Rightarrow> task \<Rightarrow> ('w, 'p) world \<Rightarrow> ('w, 'p) world" where
  "call_task D t wd =
     (case (tk_handler t, tk_db t, tk_entry t, sv_buf (wd_srv wd)) of
        (Thread_insert_1, Some d, Some e, _) \<Rightarrow> thread_insert_1 D d e wd
      | (Thread_insert_n, Some d, e, Some b) \<Rightarrow> thread_insert_n D b d e wd
      | (Thread_flush, _, _, Some b) \<Rightarrow> thread_flush D b wd
      | _ \<Rightarrow> wd)"

definition run_task :: "('w, 'p, 'l) deps \<Rightarrow> ('w, 'p) world \<Rightarrow> ('w, 'p) world" where
  "run_task D wd =
     (case wd_tasks wd of
        [] \<Rightarrow> wd
      | t # ts \<Rightarrow> thread_completed (call_task D t (wd\<lparr>wd_tasks := ts\<rparr>)))"

end
