(* ===== verification/Pipeline.thy ===== *)
theory Pipeline
  imports Handler
begin

text \<open>
  What the handlers do with a log entry: the discipline of the mutex, the path of every entry from
  the request through the queue to the database, and what happens on errors. The queue facts come
  from the interpretation of the locale \<open>entry_queue\<close>, the database facts from theory Db.
\<close>

section \<open>The zone between and inside the locks\<close>

text \<open>
  \<open>zone_ready\<close>: consistent and the mutex free, as between two critical sections of the process;
  \<open>zone_held\<close>: consistent and the mutex held. In both the lock discipline has never been broken.
\<close>

definition zone_ready :: "('p, 'l) zone \<Rightarrow> 'p shctx \<Rightarrow> bool" where
  "zone_ready z sh \<longleftrightarrow> zone_good z sh \<and> \<not> sh_held sh \<and> \<not> sh_fault sh"

definition zone_held :: "('p, 'l) zone \<Rightarrow> 'p shctx \<Rightarrow> bool" where
  "zone_held z sh \<longleftrightarrow> zone_good z sh \<and> sh_held sh \<and> \<not> sh_fault sh"

definition zone_fits :: "('p, 'l) zone \<Rightarrow> ('w, 'p, 'l) deps \<Rightarrow> db \<Rightarrow> bool" where
  "zone_fits z D d \<longleftrightarrow>
     zn_slab z = dp_slab D \<and> zn_list z = dp_list D \<and> zn_width z = length (fmt_columns (db_fmt d))"

text \<open>The parts of the list into which the entries \<open>q\<close> are moved.\<close>

definition rows_of :: "ngx_str list list \<Rightarrow> ngx_str list list" where
  "rows_of q = (if q = [] then [[]] else q)"

lemma real_rows_of: "\<forall>e\<in>set q. e \<noteq> [] \<Longrightarrow> real_rows (rows_of q) = q"
  by (cases q) (auto simp: rows_of_def real_rows_def)

lemma rows_of_not_Nil [simp]: "rows_of q \<noteq> []"
  by (simp add: rows_of_def)

lemma zone_good_locks [simp]:
  "zone_good z (shmtx_lock sh) = zone_good z sh" "zone_good z (shmtx_unlock sh) = zone_good z sh"
  by (simp_all add: zone_good_def)

lemma zone_lock [intro]: "zone_ready z sh \<Longrightarrow> zone_held z (shmtx_lock sh)"
  by (simp add: zone_ready_def zone_held_def)

lemma zone_unlock [intro]: "zone_held z sh \<Longrightarrow> zone_ready z (shmtx_unlock sh)"
  by (simp add: zone_ready_def zone_held_def)

lemma zone_ready_good: "zone_ready z sh \<Longrightarrow> zone_good z sh"
  by (simp add: zone_ready_def)

lemma push_held:
  assumes "zone_held z sh" and "length e = zn_width z"
    and "buf_push_locked (zn_slab z) b e sh = (rc, sh')"
  shows "zone_held z sh' \<and>
    (rc = NGX_ERROR \<and> entries sh' = entries sh \<or>
     rc \<noteq> NGX_ERROR \<and> entries sh' = entries sh @ [e] \<and>
     (rc = NGX_OK \<longleftrightarrow> \<not> (buf_max b \<noteq> 0 \<and> buf_max b \<le> int (length (entries sh'))))) \<and>
    rc \<in> {NGX_OK, NGX_DONE, NGX_ERROR}"
proof -
  let ?z = "z\<lparr>zn_buf := b\<rparr>"
  have good: "zone_good ?z sh" using assms(1) by (simp add: zone_held_def zone_good_def)
  have run: "zone_push ?z e sh = (rc, sh')" using assms(3) by (simp add: zone_push_def)
  have "zone_good ?z sh'" using zoneq.push [OF good _ run] assms(2) by simp
  then have "zone_good z sh'" by (simp add: zone_good_def)
  moreover have "slab_law (zn_slab z) (zn_live z)" "sh_ok (zn_live z) (zn_base z) sh"
    using assms(1) by (simp_all add: zone_held_def zone_good_def)
  note c = push_locked_cases [OF this assms(3)]
  moreover have "sh_held sh" "\<not> sh_fault sh" using assms(1) by (simp_all add: zone_held_def)
  ultimately show ?thesis
    using c(2) c(3) c(4) by (auto simp: zone_held_def split: if_splits)
qed

lemma list_held:
  assumes "zone_held z sh"
    and "buf_list_locked (zn_slab z) (zn_list z) (zn_width z) m sh = (r, sh', m')"
  shows "zone_held z sh'"
    and "r = None \<Longrightarrow> entries sh' = entries sh \<and> \<not> ample m"
    and "r = Some l \<Longrightarrow> entries sh' = [] \<and> li_parts (zn_list z) l = rows_of (entries sh)"
proof -
  have good: "zone_good z sh" and h: "sh_held sh" "\<not> sh_fault sh"
    using assms(1) by (simp_all add: zone_held_def)
  have law: "slab_law (zn_slab z) (zn_live z)" "list_law (zn_list z) (zn_nalloc z)"
    "sh_ok (zn_live z) (zn_base z) sh"
    using good by (simp_all add: zone_good_def)
  note c = list_locked_cases [OF law assms(2)]
  have t: "zone_take z m sh = (map_option (li_parts (zn_list z)) r, sh')"
    using assms(2) by (simp add: zone_take_def)
  note k = zoneq.take_rows [OF good t]
  show "zone_held z sh'" using k c(2,3) h by (simp add: zone_held_def)
  show "r = None \<Longrightarrow> entries sh' = entries sh \<and> \<not> ample m"
    using k list_locked_ample [OF law(2) _ assms(2)] by auto
  show "r = Some l \<Longrightarrow> entries sh' = [] \<and> li_parts (zn_list z) l = rows_of (entries sh)"
    using k by (auto simp: rows_of_def)
qed

lemma unshift_ready:
  assumes "zone_ready z sh" and "length e = zn_width z" and "buf_unshift (zn_slab z) e sh = (rc, sh')"
  shows "zone_ready z sh' \<and>
    (rc = NGX_ERROR \<and> entries sh' = entries sh \<or> rc = NGX_OK \<and> entries sh' = e # entries sh)"
proof -
  obtain s1 where run: "buf_unshift_locked (zn_slab z) e (shmtx_lock sh) = (rc, s1)"
    and s1: "sh' = shmtx_unlock s1"
    using assms(3) by (auto simp: buf_unshift_def split: prod.splits)
  have good: "zone_good z (shmtx_lock sh)" using assms(1) by (simp add: zone_ready_def)
  have u: "zone_unshift z e (shmtx_lock sh) = (rc, s1)" using run by (simp add: zone_unshift_def)
  have law: "slab_law (zn_slab z) (zn_live z)" "sh_ok (zn_live z) (zn_base z) (shmtx_lock sh)"
    using good by (simp_all add: zone_good_def)
  have "\<not> sh_held sh" "\<not> sh_fault sh" using assms(1) by (simp_all add: zone_ready_def)
  with zoneq.unshift [OF good _ u] unshift_locked_cases(2,3) [OF law run] s1 assms(2)
  show ?thesis by (auto simp: zone_ready_def)
qed

lemma push_ready:
  assumes "zone_ready z sh" and "length e = zn_width z" and "buf_push (zn_slab z) b e sh = (rc, sh')"
  shows "zone_ready z sh' \<and>
    (rc = NGX_ERROR \<and> entries sh' = entries sh \<or>
     rc \<noteq> NGX_ERROR \<and> entries sh' = entries sh @ [e] \<and>
     (rc = NGX_OK \<longleftrightarrow> \<not> (buf_max b \<noteq> 0 \<and> buf_max b \<le> int (length (entries sh'))))) \<and>
    rc \<in> {NGX_OK, NGX_DONE, NGX_ERROR}"
proof -
  obtain s1 where run: "buf_push_locked (zn_slab z) b e (shmtx_lock sh) = (rc, s1)"
    and s1: "sh' = shmtx_unlock s1"
    using assms(3) by (auto simp: buf_push_def split: prod.splits)
  from push_held [OF zone_lock [OF assms(1)] assms(2) run] s1 show ?thesis by auto
qed

lemma get_len_held:
  assumes "zone_held z sh" and "buf_get_len_locked sh = (len, sh')"
  shows "zone_held z sh' \<and> entries sh' = entries sh \<and> len = int (length (entries sh))"
  using assms zoneq.len [of z sh]
  by (auto simp: buf_get_len_locked_def zone_held_def zone_good_def)

lemma get_len_ready:
  assumes "zone_ready z sh" and "buf_get_len sh = (len, sh')"
  shows "zone_ready z sh' \<and> entries sh' = entries sh \<and> len = int (length (entries sh))"
proof -
  obtain s1 where "buf_get_len_locked (shmtx_lock sh) = (len, s1)" and s1: "sh' = shmtx_unlock s1"
    using assms(2) by (auto simp: buf_get_len_def split: prod.splits)
  from get_len_held [OF zone_lock [OF assms(1)] this(1)] s1 show ?thesis by auto
qed

lemmas zone_facts = zone_lock zone_unlock push_held list_held unshift_ready push_ready
  get_len_ready get_len_held

section \<open>Frame facts\<close>

lemma set_frame [simp]:
  "wd_sh (set_db d wd) = wd_sh wd" "wd_sys (set_db d wd) = wd_sys wd" "wd_mem (set_db d wd) = wd_mem wd"
  "wd_pools (set_db d wd) = wd_pools wd" "wd_tasks (set_db d wd) = wd_tasks wd" "wd_tp (set_db d wd) = wd_tp wd"
  "wd_db (set_db d wd) = d" "sv_buf (wd_srv (set_db d wd)) = sv_buf (wd_srv wd)"
  "sv_enabled (wd_srv (set_db d wd)) = sv_enabled (wd_srv wd)"
  "wd_sh (set_buf b wd) = wd_sh wd" "wd_sys (set_buf b wd) = wd_sys wd" "wd_mem (set_buf b wd) = wd_mem wd"
  "wd_pools (set_buf b wd) = wd_pools wd" "wd_tasks (set_buf b wd) = wd_tasks wd" "wd_tp (set_buf b wd) = wd_tp wd"
  "wd_db (set_buf b wd) = wd_db wd" "sv_buf (wd_srv (set_buf b wd)) = Some b"
  "sv_enabled (wd_srv (set_buf b wd)) = sv_enabled (wd_srv wd)"
  by (simp_all add: set_db_def set_buf_def)

lemma wd_log_frame [simp]:
  "wd_sh (wd_log l wd) = wd_sh wd" "wd_srv (wd_log l wd) = wd_srv wd" "wd_mem (wd_log l wd) = wd_mem wd"
  "wd_pools (wd_log l wd) = wd_pools wd" "wd_tasks (wd_log l wd) = wd_tasks wd" "wd_tp (wd_log l wd) = wd_tp wd"
  "sq (wd_sys (wd_log l wd)) = sq (wd_sys wd)" "ub (wd_sys (wd_log l wd)) = ub (wd_sys wd)"
  by (simp_all add: wd_log_def)

text \<open>Only a push or unshift that fails writes the line of its node.\<close>

lemma node_log_frame [simp]:
  "wd_sh (node_log D e wd) = wd_sh wd" "wd_srv (node_log D e wd) = wd_srv wd" "wd_mem (node_log D e wd) = wd_mem wd"
  "wd_pools (node_log D e wd) = wd_pools wd" "wd_tasks (node_log D e wd) = wd_tasks wd"
  "wd_tp (node_log D e wd) = wd_tp wd" "wd_blocked (node_log D e wd) = wd_blocked wd"
  "sq (wd_sys (node_log D e wd)) = sq (wd_sys wd)" "ub (wd_sys (node_log D e wd)) = ub (wd_sys wd)"
  by (simp_all add: node_log_def split: sum.split prod.split)

lemma node_log_quiet:
  "buf_push_locked (dp_slab D) b e (shmtx_lock (wd_sh wd)) = (rc, sh) \<Longrightarrow> rc \<noteq> NGX_ERROR \<Longrightarrow> node_log D e wd = wd"
  "buf_push (dp_slab D) b e (wd_sh wd) = (rc, sh) \<Longrightarrow> rc \<noteq> NGX_ERROR \<Longrightarrow> node_log D e wd = wd"
  "buf_unshift (dp_slab D) e (wd_sh wd) = (rc, sh) \<Longrightarrow> rc \<noteq> NGX_ERROR \<Longrightarrow> node_log D e wd = wd"
  by (auto simp: node_log_def buf_push_def buf_push_locked_def buf_unshift_def buf_unshift_locked_def Let_def
      split: prod.splits sum.splits)

lemma pool_frame [simp]:
  "wd_sh (destroy_pool wd) = wd_sh wd" "wd_srv (destroy_pool wd) = wd_srv wd"
  "wd_sys (destroy_pool wd) = wd_sys wd" "wd_mem (destroy_pool wd) = wd_mem wd"
  "wd_pools (destroy_pool wd) = wd_pools wd - 1" "wd_tasks (destroy_pool wd) = wd_tasks wd"
  "wd_tp (destroy_pool wd) = wd_tp wd"
  by (simp_all add: destroy_pool_def)

lemma wd_palloc_frame:
  assumes "wd_palloc wd = (ok, wd')"
  shows "wd_sh wd' = wd_sh wd" "wd_srv wd' = wd_srv wd" "wd_sys wd' = wd_sys wd"
    "wd_pools wd' = wd_pools wd" "wd_tasks wd' = wd_tasks wd" "wd_tp wd' = wd_tp wd"
    "ample (wd_mem wd) \<Longrightarrow> ok \<and> ample (wd_mem wd')"
  using assms by (auto simp: wd_palloc_def split: prod.splits elim: palloc_ampleE)

lemma create_pool_frame:
  assumes "create_pool wd = (ok, wd')"
  shows "wd_sh wd' = wd_sh wd" "wd_srv wd' = wd_srv wd" "wd_sys wd' = wd_sys wd"
    "wd_pools wd' = (if ok then wd_pools wd + 1 else wd_pools wd)" "wd_tasks wd' = wd_tasks wd"
    "wd_tp wd' = wd_tp wd" "ample (wd_mem wd) \<Longrightarrow> ok \<and> ample (wd_mem wd')"
proof -
  obtain w1 where "wd_palloc wd = (ok, w1)" and "wd' = (if ok then w1\<lparr>wd_pools := wd_pools w1 + 1\<rparr> else w1)"
    using assms by (auto simp: create_pool_def split: prod.splits if_splits)
  with wd_palloc_frame [OF this(1)] show "wd_sh wd' = wd_sh wd" "wd_srv wd' = wd_srv wd"
    "wd_sys wd' = wd_sys wd" "wd_pools wd' = (if ok then wd_pools wd + 1 else wd_pools wd)"
    "wd_tasks wd' = wd_tasks wd" "wd_tp wd' = wd_tp wd"
    "ample (wd_mem wd) \<Longrightarrow> ok \<and> ample (wd_mem wd')"
    by auto
qed

section \<open>The path of an entry through the buffer\<close>

text \<open>
  Under the lock, \<open>handle_n\<close> either queues the entry, or takes everything out of the queue (with
  the entry at the end, if there was room for it), or fails.
\<close>

lemma handle_n_locked_spec:
  assumes "zone_ready z (wd_sh wd)" and "zone_fits z D (wd_db wd)" and "length e = zn_width z"
    and "handle_n_locked D b e wd = (r, wd')"
  shows "zone_ready z (wd_sh wd') \<and> sq (wd_sys wd') = sq (wd_sys wd) \<and> ub (wd_sys wd') = ub (wd_sys wd) \<and>
    wd_db wd' = wd_db wd \<and>
    (case r of
       Inl rc \<Rightarrow>
         rc = NGX_OK \<and> entries (wd_sh wd') = entries (wd_sh wd) @ [e] \<and> wd' = wd\<lparr>wd_sh := wd_sh wd'\<rparr> \<and>
           \<not> (buf_max b \<noteq> 0 \<and> buf_max b \<le> int (length (entries (wd_sh wd')))) \<or>
         rc = NGX_ERROR \<and> \<not> ample (wd_mem wd) \<and>
           entries (wd_sh wd') \<in> {entries (wd_sh wd), entries (wd_sh wd) @ [e]}
     | Inr (rows, rc_push) \<Rightarrow>
         entries (wd_sh wd') = [] \<and>
         (rc_push = NGX_ERROR \<and> rows = rows_of (entries (wd_sh wd)) \<or>
          rc_push = NGX_DONE \<and> wd_sys wd' = wd_sys wd \<and> rows = entries (wd_sh wd) @ [e]))"
proof -
  have D: "dp_slab D = zn_slab z" "dp_list D = zn_list z" and w: "length e = zn_width z"
    using assms(2,3) by (simp_all add: zone_fits_def)
  obtain rc_push s1 where p: "buf_push_locked (zn_slab z) b e (shmtx_lock (wd_sh wd)) = (rc_push, s1)"
    by (cases "buf_push_locked (zn_slab z) b e (shmtx_lock (wd_sh wd))")
  have pf: "zone_held z s1 \<and>
    (rc_push = NGX_ERROR \<and> entries s1 = entries (wd_sh wd) \<or>
     rc_push \<noteq> NGX_ERROR \<and> entries s1 = entries (wd_sh wd) @ [e] \<and>
     (rc_push = NGX_OK \<longleftrightarrow> \<not> (buf_max b \<noteq> 0 \<and> buf_max b \<le> int (length (entries s1))))) \<and>
    rc_push \<in> {NGX_OK, NGX_DONE, NGX_ERROR}"
    using push_held [OF zone_lock [OF assms(1)] w p] by simp
  have quiet: "node_log D e wd = wd" if "rc_push \<noteq> NGX_ERROR"
    by (rule node_log_quiet(1) [OF _ that]) (use p D in simp)
  show ?thesis
  proof (cases "rc_push = NGX_OK")
    case True
    with assms(4) p D quiet have "r = Inl NGX_OK" "wd' = wd\<lparr>wd_sh := shmtx_unlock s1\<rparr>"
      by (simp_all add: handle_n_locked_def)
    with True pf show ?thesis by auto
  next
    case False
    obtain rl s2 m where l: "buf_list_locked (zn_slab z) (zn_list z) (zn_width z) (wd_mem wd) s1 = (rl, s2, m)"
      by (cases "buf_list_locked (zn_slab z) (zn_list z) (zn_width z) (wd_mem wd) s1") auto
    note lf = list_held [OF conjunct1 [OF pf] l]
    show ?thesis
    proof (cases rl)
      case None
      with False assms(4) p l D w have "r = Inl NGX_ERROR" "wd_sh wd' = shmtx_unlock s2"
        "sq (wd_sys wd') = sq (wd_sys wd)" "ub (wd_sys wd') = ub (wd_sys wd)" "wd_srv wd' = wd_srv wd"
        by (auto simp: handle_n_locked_def)
      with None lf(1) lf(2) pf show ?thesis by auto
    next
      case (Some list)
      with False assms(4) p l D w have "r = Inr (li_parts (zn_list z) list, rc_push)"
        "wd_sh wd' = shmtx_unlock s2" "wd_sys wd' = wd_sys (node_log D e wd)" "wd_db wd' = wd_db wd"
        by (auto simp: handle_n_locked_def)
      moreover have "entries s2 = []" "li_parts (zn_list z) list = rows_of (entries s1)"
        using lf(3) [OF Some] by auto
      ultimately show ?thesis using lf(1) pf False quiet by (auto simp: rows_of_def)
    qed
  qed
qed

text \<open>The insertion stores the rows it is given, or reports an error.\<close>

lemma handle_n_insert_spec:
  assumes "handle_n_insert D rows wd = (rc, wd')"
  shows "wd_sh wd' = wd_sh wd \<and> rc \<in> {NGX_OK, NGX_ERROR} \<and>
    (rc = NGX_OK \<longleftrightarrow> fst (db_insert_list (dp_sqlite D) (wd_db wd) rows (wd_sys wd)) = SQLITE_OK) \<and>
    (rc = NGX_OK \<longrightarrow>
      db_insert_list (dp_sqlite D) (wd_db wd) rows (wd_sys wd) = (SQLITE_OK, wd_db wd', wd_sys wd'))"
proof -
  obtain ri d s where i: "db_insert_list (dp_sqlite D) (wd_db wd) rows (wd_sys wd) = (ri, d, s)"
    by (cases "db_insert_list (dp_sqlite D) (wd_db wd) rows (wd_sys wd)") auto
  with assms show ?thesis by (auto simp: handle_n_insert_def Let_def split: if_splits)
qed

lemma handle_n_unshift_spec:
  assumes "zone_ready z (wd_sh wd)" and "zn_slab z = dp_slab D" and "length e = zn_width z"
    and "handle_n_unshift D e wd = (rc, wd')"
  shows "zone_ready z (wd_sh wd') \<and> wd_srv wd' = wd_srv wd \<and>
    (rc = NGX_OK \<and> wd_sys wd' = wd_sys wd \<and> entries (wd_sh wd') = e # entries (wd_sh wd) \<or>
     rc = NGX_ERROR \<and> sq (wd_sys wd') = sq (wd_sys wd) \<and> entries (wd_sh wd') = entries (wd_sh wd))"
proof -
  obtain ru sh where u: "buf_unshift (zn_slab z) e (wd_sh wd) = (ru, sh)"
    by (cases "buf_unshift (zn_slab z) e (wd_sh wd)")
  from unshift_ready [OF assms(1,3) u] assms(2,4) u node_log_quiet(3) [of D e wd ru sh] show ?thesis
    by (auto simp: handle_n_unshift_def Let_def split: if_splits)
qed

text \<open>
  The whole of \<open>handle_n\<close>: success moves no entry out of the order and loses none; an error says
  what is left in the queue. When the push failed, the list is inserted after its line was written
  to the log.
\<close>

lemma handle_n_spec:
  assumes ready: "zone_ready z (wd_sh wd)" and fits: "zone_fits z D (wd_db wd)"
    and len: "length e = zn_width z" and run: "handle_n D b e wd = (rc, wd')"
  shows "zone_ready z (wd_sh wd') \<and> rc \<in> {NGX_OK, NGX_ERROR} \<and>
    (rc = NGX_OK \<longrightarrow>
      entries (wd_sh wd') = entries (wd_sh wd) @ [e] \<and> wd_sys wd' = wd_sys wd \<and> wd_db wd' = wd_db wd \<and>
        \<not> (buf_max b \<noteq> 0 \<and> buf_max b \<le> int (length (entries (wd_sh wd')))) \<or>
      entries (wd_sh wd') = [] \<and>
        db_insert_list (dp_sqlite D) (wd_db wd) (entries (wd_sh wd) @ [e]) (wd_sys wd) =
          (SQLITE_OK, wd_db wd', wd_sys wd') \<or>
      entries (wd_sh wd') = [e] \<and> (\<exists>s. sq s = sq (wd_sys wd) \<and>
        db_insert_list (dp_sqlite D) (wd_db wd) (rows_of (entries (wd_sh wd))) s =
          (SQLITE_OK, wd_db wd', wd_sys wd'))) \<and>
    (rc = NGX_ERROR \<longrightarrow>
      \<not> ample (wd_mem wd) \<and> sq (wd_sys wd') = sq (wd_sys wd) \<and>
        entries (wd_sh wd') \<in> {entries (wd_sh wd), entries (wd_sh wd) @ [e]} \<or>
      entries (wd_sh wd') = [])"
proof -
  obtain r w1 where l: "handle_n_locked D b e wd = (r, w1)" by (cases "handle_n_locked D b e wd")
  note ls = handle_n_locked_spec [OF ready fits len l]
  show ?thesis
  proof (cases r)
    case (Inl rc1)
    with run l have "rc = rc1" "wd' = w1" by (simp_all add: handle_n_def)
    with ls Inl show ?thesis by (auto dest: arg_cong [where f = wd_sys] arg_cong [where f = wd_srv])
  next
    case (Inr p)
    obtain rows rc_push where p: "p = (rows, rc_push)" by (cases p)
    obtain ri w2 where i: "handle_n_insert D rows w1 = (ri, w2)" by (cases "handle_n_insert D rows w1")
    note ins = handle_n_insert_spec [OF i]
    have 1: "entries (wd_sh w1) = []" "sq (wd_sys w1) = sq (wd_sys wd)" "wd_db w1 = wd_db wd"
      "rc_push = NGX_ERROR \<and> rows = rows_of (entries (wd_sh wd)) \<or>
       rc_push = NGX_DONE \<and> wd_sys w1 = wd_sys wd \<and> rows = entries (wd_sh wd) @ [e]" "zone_ready z (wd_sh w1)"
      using ls Inr p by simp_all
    show ?thesis
    proof (cases "ri = NGX_OK")
      case False
      with run l Inr p i have "rc = NGX_ERROR" "wd' = w2" by (simp_all add: handle_n_def)
      with 1 ins show ?thesis by auto
    next
      case ok: True
      show ?thesis
      proof (cases "rc_push = NGX_ERROR")
        case False
        with ok run l Inr p i have "rc = NGX_OK" "wd' = w2" by (simp_all add: handle_n_def)
        with 1 ins ok False show ?thesis by auto
      next
        case True
        with ok run l Inr p i have u: "handle_n_unshift D e w2 = (rc, wd')" by (simp add: handle_n_def)
        have z: "zone_ready z (wd_sh w2)" "zn_slab z = dp_slab D"
          using 1 ins fits by (simp_all add: zone_fits_def)
        note us = handle_n_unshift_spec [OF z len u]
        from us 1 ins ok True show ?thesis by auto
      qed
    qed
  qed
qed

section \<open>The invariant of a worker\<close>

text \<open>
  The zone is consistent and free, entries have as many fields as the format has columns, and so
  have the entries and the copies of the database in the tasks that wait for a thread.
\<close>

definition task_fits :: "nat \<Rightarrow> task \<Rightarrow> bool" where
  "task_fits n t \<longleftrightarrow>
     (\<forall>d. tk_db t = Some d \<longrightarrow> length (fmt_columns (db_fmt d)) = n) \<and>
     (\<forall>e. tk_entry t = Some e \<longrightarrow> length e = n)"

definition world_ok :: "('p, 'l) zone \<Rightarrow> ('w, 'p, 'l) deps \<Rightarrow> ('w, 'p) world \<Rightarrow> bool" where
  "world_ok z D wd \<longleftrightarrow>
     zone_ready z (wd_sh wd) \<and> zone_fits z D (wd_db wd) \<and>
     (\<forall>t\<in>set (wd_tasks wd). task_fits (zn_width z) t)"

lemma world_ok_cong:
  assumes "world_ok z D wd" and "wd_sh wd' = wd_sh wd" and "db_fmt (wd_db wd') = db_fmt (wd_db wd)"
    and "wd_tasks wd' = wd_tasks wd"
  shows "world_ok z D wd'"
  using assms unfolding world_ok_def zone_fits_def by metis

lemma world_ok_sh:
  assumes "world_ok z D wd" and "zone_ready z (wd_sh wd')"
    and "db_fmt (wd_db wd') = db_fmt (wd_db wd)" and "wd_tasks wd' = wd_tasks wd"
  shows "world_ok z D wd'"
  using assms unfolding world_ok_def zone_fits_def by metis

lemma world_ok_parts:
  assumes "world_ok z D wd"
  shows "zone_ready z (wd_sh wd)" "zone_fits z D (wd_db wd)" "dp_slab D = zn_slab z"
    "dp_list D = zn_list z" "length (fmt_columns (db_fmt (wd_db wd))) = zn_width z"
  using assms by (simp_all add: world_ok_def zone_fits_def)

text \<open>The operations that only change the database, the log and the memory.\<close>

definition keeps :: "('w, 'p) world \<Rightarrow> ('w, 'p) world \<Rightarrow> bool" where
  "keeps wd wd' \<longleftrightarrow> wd_sh wd' = wd_sh wd \<and> db_fmt (wd_db wd') = db_fmt (wd_db wd) \<and>
     wd_tasks wd' = wd_tasks wd \<and> wd_tp wd' = wd_tp wd \<and> wd_pools wd' = wd_pools wd \<and>
     sv_buf (wd_srv wd') = sv_buf (wd_srv wd)"

lemma keeps_refl [simp]: "keeps wd wd"
  by (simp add: keeps_def)

lemma keeps_trans: "keeps wd w1 \<Longrightarrow> keeps w1 w2 \<Longrightarrow> keeps wd w2"
  by (simp add: keeps_def)

lemma keeps_log [simp]: "keeps wd (wd_log l wd') \<longleftrightarrow> keeps wd wd'"
  by (simp add: keeps_def)

lemma keeps_ok: "keeps wd wd' \<Longrightarrow> world_ok z D wd \<Longrightarrow> world_ok z D wd'"
  by (rule world_ok_cong) (simp_all add: keeps_def)

lemma handle_1_keeps: "handle_1 D e wd = (rc, wd') \<Longrightarrow> keeps wd wd'"
  by (auto simp: handle_1_def Let_def keeps_def same_config_def dest!: db_insert_config
      split: prod.splits if_splits)

lemma handle_n_insert_keeps: "handle_n_insert D rows wd = (rc, wd') \<Longrightarrow> keeps wd wd'"
  by (auto simp: handle_n_insert_def Let_def keeps_def same_config_def dest!: db_insert_list_config
      split: prod.splits if_splits)

lemma handler_failed_keeps:
  "handler_failed D wd = (rc, wd') \<Longrightarrow> keeps wd wd' \<and> rc = NGX_ERROR \<and> sv_enabled (wd_srv wd') = 0"
  by (auto simp: handler_failed_def Let_def keeps_def same_config_def dest!: db_close_config
      split: prod.splits if_splits)

lemma thread_insert_1_keeps: "keeps wd (thread_insert_1 D d e wd)"
  by (auto simp: thread_insert_1_def Let_def keeps_def split: prod.splits)

lemmas keeps_rules = handle_1_keeps handle_n_insert_keeps handler_failed_keeps thread_insert_1_keeps

section \<open>Every handler keeps the invariant\<close>

lemma post_task_spec:
  assumes "post_task t wd = (rc, wd')"
  shows "wd_sh wd' = wd_sh wd" "wd_srv wd' = wd_srv wd" "wd_sys wd' = wd_sys wd"
    "wd_pools wd' = wd_pools wd" "wd_tp wd' = wd_tp wd" "rc \<in> {NGX_OK, NGX_ERROR}"
    "wd_tasks wd' = (if rc = NGX_OK then wd_tasks wd @ [t] else wd_tasks wd)"
    "ample (wd_mem wd) \<Longrightarrow> rc = NGX_OK"
proof -
  obtain ok w1 where p: "wd_palloc wd = (ok, w1)" by (cases "wd_palloc wd")
  have "rc = (if ok then NGX_OK else NGX_ERROR)"
    "wd' = (if ok then w1\<lparr>wd_tasks := wd_tasks w1 @ [t]\<rparr> else w1)"
    using assms p by (simp_all add: post_task_def split: if_splits)
  with wd_palloc_frame [OF p] show "wd_sh wd' = wd_sh wd" "wd_srv wd' = wd_srv wd" "wd_sys wd' = wd_sys wd"
    "wd_pools wd' = wd_pools wd" "wd_tp wd' = wd_tp wd" "rc \<in> {NGX_OK, NGX_ERROR}"
    "wd_tasks wd' = (if rc = NGX_OK then wd_tasks wd @ [t] else wd_tasks wd)"
    "ample (wd_mem wd) \<Longrightarrow> rc = NGX_OK"
    by auto
qed

lemma handle_n_ok:
  assumes ok: "world_ok z D wd" and len: "length e = zn_width z" and run: "handle_n D b e wd = (rc, wd')"
  shows "world_ok z D wd' \<and> wd_pools wd' = wd_pools wd \<and> wd_tasks wd' = wd_tasks wd \<and> wd_tp wd' = wd_tp wd"
proof -
  note w = world_ok_parts [OF ok]
  obtain r w1 where l: "handle_n_locked D b e wd = (r, w1)" by (cases "handle_n_locked D b e wd")
  have k1: "wd_tasks w1 = wd_tasks wd" "wd_pools w1 = wd_pools wd" "wd_tp w1 = wd_tp wd"
    using l by (auto simp: handle_n_locked_def Let_def split: prod.splits if_splits option.splits)
  have r1: "zone_ready z (wd_sh w1)" "wd_db w1 = wd_db wd"
    using handle_n_locked_spec [OF w(1,2) len l] by simp_all
  then have ok1: "world_ok z D w1" using k1 by (intro world_ok_sh [OF ok]) simp_all
  show ?thesis
  proof (cases r)
    case (Inl rc1)
    with run l k1 ok1 show ?thesis by (simp add: handle_n_def)
  next
    case (Inr p)
    obtain rows rc_push where p: "p = (rows, rc_push)" by (cases p)
    obtain ri w2 where i: "handle_n_insert D rows w1 = (ri, w2)" by (cases "handle_n_insert D rows w1")
    note kp = handle_n_insert_keeps [OF i]
    have ok2: "world_ok z D w2" by (rule keeps_ok [OF kp ok1])
    have k2: "wd_tasks w2 = wd_tasks wd" "wd_pools w2 = wd_pools wd" "wd_tp w2 = wd_tp wd"
      using kp k1 by (simp_all add: keeps_def)
    obtain ru w3 where u: "handle_n_unshift D e w2 = (ru, w3)" by (cases "handle_n_unshift D e w2")
    have "zone_ready z (wd_sh w3) \<and> wd_srv w3 = wd_srv w2"
      using handle_n_unshift_spec [OF world_ok_parts(1) [OF ok2] _ len u] w(3) by simp
    moreover have k3: "wd_tasks w3 = wd_tasks w2" "wd_pools w3 = wd_pools w2" "wd_tp w3 = wd_tp w2"
      using u by (auto simp: handle_n_unshift_def Let_def split: prod.splits if_splits)
    ultimately have ok3: "world_ok z D w3" using k2 by (intro world_ok_sh [OF ok2]) simp_all
    have "wd' = w2 \<or> wd' = w3"
      using run l Inr p i u by (auto simp: handle_n_def split: if_splits)
    with ok2 ok3 k2 k3 show ?thesis by auto
  qed
qed

lemma world_ok_post:
  assumes "world_ok z D wd" and "task_fits (zn_width z) t" and "post_task t wd = (rc, wd')"
  shows "world_ok z D wd'"
  using assms(1,2) post_task_spec [OF assms(3)] by (auto simp: world_ok_def)

lemma world_ok_palloc: "world_ok z D wd \<Longrightarrow> wd_palloc wd = (ok, wd') \<Longrightarrow> world_ok z D wd'"
  using wd_palloc_frame [of wd ok wd'] by (auto simp: world_ok_def)

lemma world_ok_create_pool: "world_ok z D wd \<Longrightarrow> create_pool wd = (ok, wd') \<Longrightarrow> world_ok z D wd'"
  using create_pool_frame [of wd ok wd'] by (auto simp: world_ok_def)

lemma world_ok_frame [simp]:
  "world_ok z D (wd_log l wd) = world_ok z D wd" "world_ok z D (destroy_pool wd) = world_ok z D wd"
  "world_ok z D (set_buf b wd) = world_ok z D wd" "world_ok z D (wd\<lparr>wd_sys := s\<rparr>) = world_ok z D wd"
  "world_ok z D (wd\<lparr>wd_mem := m\<rparr>) = world_ok z D wd" "world_ok z D (wd\<lparr>wd_blocked := k\<rparr>) = world_ok z D wd"
  by (simp_all add: world_ok_def)

lemma handle_1_async_ok:
  assumes "world_ok z D wd" and "length e = zn_width z" and "handle_1_async D e wd = (rc, wd')"
  shows "world_ok z D wd'"
proof -
  have fits: "task_fits (zn_width z)
      \<lparr>tk_handler = Thread_insert_1, tk_db = Some (wd_db w), tk_entry = Some e\<rparr>" if "world_ok z D w" for w
    using world_ok_parts(5) [OF that] assms(2) by (simp add: task_fits_def)
  obtain ok w1 where a: "wd_palloc wd = (ok, w1)" by (cases "wd_palloc wd")
  note 1 = world_ok_palloc [OF assms(1) a]
  obtain rp w2 where p: "post_task \<lparr>tk_handler = Thread_insert_1, tk_db = Some (wd_db w1), tk_entry = Some e\<rparr> w1 = (rp, w2)"
    by (cases "post_task \<lparr>tk_handler = Thread_insert_1, tk_db = Some (wd_db w1), tk_entry = Some e\<rparr> w1")
  note 2 = world_ok_post [OF 1 fits [OF 1] p]
  show ?thesis
    using assms(3) a p 1 2 by (auto simp: handle_1_async_def Let_def split: if_splits)
qed

lemma handle_n_async_ok:
  assumes "world_ok z D wd" and "length e = zn_width z" and "handle_n_async D b e wd = (rc, wd')"
  shows "world_ok z D wd'"
proof -
  note w = world_ok_parts [OF assms(1)]
  obtain rc_push sh where p: "buf_push (zn_slab z) b e (wd_sh wd) = (rc_push, sh)"
    by (cases "buf_push (zn_slab z) b e (wd_sh wd)")
  have "zone_ready z sh" using push_ready [OF w(1) assms(2) p] by simp
  then have 1: "world_ok z D ((node_log D e wd)\<lparr>wd_sh := sh\<rparr>)" by (intro world_ok_sh [OF assms(1)]) simp_all
  have fits: "task_fits (zn_width z) \<lparr>tk_handler = Thread_insert_n, tk_db = Some (wd_db w),
      tk_entry = (if rc_push = NGX_DONE then None else Some e)\<rparr>" if "world_ok z D w" for w
    using world_ok_parts(5) [OF that] assms(2) by (simp add: task_fits_def)
  obtain ok w2 where a: "wd_palloc ((node_log D e wd)\<lparr>wd_sh := sh\<rparr>) = (ok, w2)"
    by (cases "wd_palloc ((node_log D e wd)\<lparr>wd_sh := sh\<rparr>)")
  note 2 = world_ok_palloc [OF 1 a]
  show ?thesis
    using assms(3) p w(3) 1 2 a world_ok_post [OF 2 fits [OF 2]]
    by (auto simp: handle_n_async_def Let_def split: if_splits)
qed

lemma handle_entry_ok:
  assumes "world_ok z D wd" and "length e = zn_width z" and "handle_entry D e wd = (rc, wd')"
  shows "world_ok z D wd'"
  using assms handle_n_ok [OF assms(1,2)] handle_n_async_ok [OF assms(1,2)] handle_1_async_ok [OF assms(1,2)]
    keeps_ok [OF handle_1_keeps assms(1)]
  by (auto simp: handle_entry_def split: if_splits option.splits)

lemma handler_failed_ok: "world_ok z D wd \<Longrightarrow> handler_failed D wd = (rc, wd') \<Longrightarrow> world_ok z D wd'"
  using handler_failed_keeps keeps_ok by blast

lemma handler_entry_ok:
  assumes ok: "world_ok z D wd" and run: "handler_entry D r wd = (rc, wd')"
  shows "world_ok z D wd'"
proof -
  obtain en r1 m where e: "log_entry (dp_env D) r (map col_op (fmt_columns (db_fmt (wd_db wd)))) (wd_mem wd) = (en, r1, m)"
    by (cases "log_entry (dp_env D) r (map col_op (fmt_columns (db_fmt (wd_db wd)))) (wd_mem wd)") auto
  show ?thesis
  proof (cases en)
    case (Inl f)
    with run e obtain s where f: "handler_failed D (wd\<lparr>wd_mem := m, wd_sys := s\<rparr>) = (rc, wd')"
      by (auto simp: handler_entry_def Let_def)
    from handler_failed_ok [OF _ f] ok show ?thesis by simp
  next
    case (Inr row)
    have len: "length row = zn_width z"
      using log_entry_length e Inr world_ok_parts(5) [OF ok] by fastforce
    obtain rc1 w1 where h: "handle_entry D row (wd\<lparr>wd_mem := m\<rparr>) = (rc1, w1)"
      by (cases "handle_entry D row (wd\<lparr>wd_mem := m\<rparr>)")
    have 1: "world_ok z D w1" using handle_entry_ok [OF _ len h] ok by simp
    have "wd' = w1 \<or> (\<exists>l. handler_failed D (wd_log l w1) = (rc, wd'))"
      using run e Inr h by (auto simp: handler_entry_def Let_def split: if_splits)
    with 1 show ?thesis using handler_failed_ok [of z D "wd_log l w1" rc wd' for l] by auto
  qed
qed

lemma handler_ok:
  assumes ok: "world_ok z D wd" and run: "handler D r wd = (rc, wd')"
  shows "world_ok z D wd'"
proof -
  obtain okp w1 where p: "create_pool wd = (okp, w1)" by (cases "create_pool wd")
  have "wd' = wd \<or> (\<exists>s. wd' = w1\<lparr>wd_sys := s\<rparr>) \<or> handler_entry D r w1 = (rc, wd') \<or>
      handler_entry D r wd = (rc, wd')"
    using run p by (auto simp: handler_def Let_def split: if_splits option.splits bool.splits)
  with ok world_ok_create_pool [OF ok p] handler_entry_ok show ?thesis by (auto dest: handler_entry_ok)
qed

text \<open>The part of a flush under the lock: it takes the whole queue, or it has a reason not to.\<close>

lemma buf_flush_locked_spec:
  assumes ok: "world_ok z D wd" and run: "buf_flush_locked D b wd = (r, wd')"
  shows "world_ok z D wd' \<and> wd_tasks wd' = wd_tasks wd \<and> wd_tp wd' = wd_tp wd \<and>
    sq (wd_sys wd') = sq (wd_sys wd) \<and> wd_db wd' = wd_db wd \<and>
    (case r of
       None \<Rightarrow> entries (wd_sh wd') = entries (wd_sh wd) \<and> wd_pools wd' = wd_pools wd \<and>
         (entries (wd_sh wd) = [] \<or> \<not> ample (wd_mem wd))
     | Some rows \<Rightarrow> entries (wd_sh wd) \<noteq> [] \<and> rows = entries (wd_sh wd) \<and>
         entries (wd_sh wd') = [] \<and> wd_sys wd' = wd_sys wd \<and> wd_pools wd' = wd_pools wd + 1)"
proof -
  note w = world_ok_parts [OF ok]
  obtain len s1 where g: "buf_get_len_locked (shmtx_lock (wd_sh wd)) = (len, s1)"
    by (cases "buf_get_len_locked (shmtx_lock (wd_sh wd))")
  have gf: "zone_held z s1" "entries s1 = entries (wd_sh wd)" "len = int (length (entries (wd_sh wd)))"
    using get_len_held [OF zone_lock [OF w(1)] g] by simp_all
  have free: "zone_ready z (shmtx_unlock s1)" using gf(1) by (rule zone_unlock)
  show ?thesis
  proof (cases "entries (wd_sh wd) = []")
    case True
    with run g gf have "r = None" "wd' = set_buf (buf_timer_reset b) (wd\<lparr>wd_sh := shmtx_unlock s1\<rparr>)"
      by (simp_all add: buf_flush_locked_def)
    with True free gf world_ok_sh [OF ok, of "wd\<lparr>wd_sh := shmtx_unlock s1\<rparr>"] show ?thesis by simp
  next
    case False
    obtain okp w1 where p: "create_pool wd = (okp, w1)" by (cases "create_pool wd")
    note pf = create_pool_frame [OF p]
    have srv: "wd_db w1 = wd_db wd" using pf(2) by simp
    show ?thesis
    proof (cases okp)
      case okp: False
      with False run g gf p obtain s where "r = None" "wd' = w1\<lparr>wd_sys := s, wd_sh := shmtx_unlock s1\<rparr>"
        "sq s = sq (wd_sys w1)"
        by (auto simp: buf_flush_locked_def Let_def)
      with okp pf free gf world_ok_sh [OF ok, of wd'] show ?thesis by auto
    next
      case okp: True
      obtain rl s2 m where l: "buf_list_locked (zn_slab z) (zn_list z) (zn_width z) (wd_mem w1) s1 = (rl, s2, m)"
        by (cases "buf_list_locked (zn_slab z) (zn_list z) (zn_width z) (wd_mem w1) s1") auto
      note lf = list_held [OF gf(1) l]
      have free2: "zone_ready z (shmtx_unlock s2)" using lf(1) by (rule zone_unlock)
      show ?thesis
      proof (cases rl)
        case None
        with False okp run g gf p l w srv have "r = None" "wd_sh wd' = shmtx_unlock s2" "wd_srv wd' = wd_srv w1"
          "wd_tasks wd' = wd_tasks w1" "wd_tp wd' = wd_tp w1" "sq (wd_sys wd') = sq (wd_sys w1)"
          "wd_pools wd' = wd_pools w1 - 1"
          by (auto simp: buf_flush_locked_def Let_def)
        with okp pf lf(2) [OF None] free2 gf world_ok_sh [OF ok, of wd'] show ?thesis by auto
      next
        case (Some list)
        with False okp run g gf p l w srv have "r = Some (li_parts (zn_list z) list)"
          "wd_sh wd' = shmtx_unlock s2" "wd_db wd' = wd_db w1" "wd_tasks wd' = wd_tasks w1"
          "wd_tp wd' = wd_tp w1" "wd_sys wd' = wd_sys w1" "wd_pools wd' = wd_pools w1"
          by (auto simp: buf_flush_locked_def Let_def)
        with False okp pf lf(3) [OF Some] free2 gf world_ok_sh [OF ok, of wd'] show ?thesis
          by (auto simp: rows_of_def)
      qed
    qed
  qed
qed

lemma buf_flush_insert_spec:
  assumes "buf_flush_insert D rows wd = wd'"
  shows "keeps (destroy_pool wd) wd' \<and>
    (\<exists>ri d s. db_insert_list (dp_sqlite D) (wd_db wd) rows (wd_sys wd) = (ri, d, s) \<and>
      wd_db wd' = d \<and> sq (wd_sys wd') = sq s)"
  using assms by (auto simp: buf_flush_insert_def Let_def keeps_def same_config_def
      dest!: db_insert_list_config split: prod.splits if_splits)

lemma buf_flush_sync_ok:
  assumes ok: "world_ok z D wd"
  shows "world_ok z D (buf_flush_sync D b wd) \<and>
    wd_pools (buf_flush_sync D b wd) = wd_pools wd \<and> wd_tasks (buf_flush_sync D b wd) = wd_tasks wd"
proof -
  obtain len sh where g: "buf_get_len (wd_sh wd) = (len, sh)" by (cases "buf_get_len (wd_sh wd)")
  let ?wd = "wd\<lparr>wd_sh := sh\<rparr>"
  have ok1: "world_ok z D ?wd"
    using get_len_ready [OF world_ok_parts(1) [OF ok] g] by (intro world_ok_sh [OF ok]) simp_all
  obtain r w1 where l: "buf_flush_locked D b ?wd = (r, w1)" by (cases "buf_flush_locked D b ?wd")
  note ls = buf_flush_locked_spec [OF ok1 l]
  show ?thesis
  proof (cases r)
    case None
    with g l ls ok1 show ?thesis by (simp add: buf_flush_sync_def Let_def)
  next
    case (Some rows)
    have k: "keeps (destroy_pool w1) (buf_flush_insert D rows w1)"
      using buf_flush_insert_spec [OF refl] by blast
    have "world_ok z D (buf_flush_insert D rows w1)" using ls by (intro keeps_ok [OF k]) simp
    with k Some g l ls ok1 show ?thesis
      by (simp add: buf_flush_sync_def Let_def keeps_def)
  qed
qed

lemma buf_flush_async_ok:
  assumes ok: "world_ok z D wd"
  shows "world_ok z D (buf_flush_async D b wd) \<and>
    wd_pools (buf_flush_async D b wd) - int (length (wd_tasks (buf_flush_async D b wd))) =
      wd_pools wd - int (length (wd_tasks wd))"
proof -
  obtain len sh where g: "buf_get_len (wd_sh wd) = (len, sh)" by (cases "buf_get_len (wd_sh wd)")
  let ?wd = "wd\<lparr>wd_sh := sh\<rparr>"
  have ok1: "world_ok z D ?wd"
    using get_len_ready [OF world_ok_parts(1) [OF ok] g] by (intro world_ok_sh [OF ok]) simp_all
  obtain okp w1 where p: "create_pool ?wd = (okp, w1)" by (cases "create_pool ?wd")
  note pf = create_pool_frame [OF p]
  have ok2: "world_ok z D w1" by (rule world_ok_create_pool [OF ok1 p])
  obtain okt w2 where t: "wd_palloc w1 = (okt, w2)" by (cases "wd_palloc w1")
  note tf = wd_palloc_frame [OF t]
  have ok3: "world_ok z D w2" by (rule world_ok_palloc [OF ok2 t])
  let ?t = "\<lparr>tk_handler = Thread_flush, tk_db = None, tk_entry = None\<rparr>"
  obtain rp w3 where ps: "post_task ?t w2 = (rp, w3)" by (cases "post_task ?t w2")
  note psf = post_task_spec [OF ps]
  have ok4: "world_ok z D w3" by (rule world_ok_post [OF ok3 _ ps]) (simp add: task_fits_def)
  show ?thesis
    using g p t ps ok1 ok2 ok3 ok4 pf(4,5) tf(4,5) psf(4,6,7)
    by (auto simp: buf_flush_async_def Let_def)
qed

text \<open>The critical sections of the thread tasks.\<close>

lemma thread_insert_n_locked_spec:
  assumes ok: "world_ok z D wd" and d: "length (fmt_columns (db_fmt d)) = zn_width z"
    and run: "thread_insert_n_locked D b d wd = (r, wd')"
  shows "world_ok z D wd' \<and> wd_tasks wd' = wd_tasks wd \<and> wd_pools wd' = wd_pools wd \<and> wd_db wd' = wd_db wd \<and>
    sq (wd_sys wd') = sq (wd_sys wd) \<and>
    (case r of None \<Rightarrow> entries (wd_sh wd') = entries (wd_sh wd) \<and> \<not> ample (wd_mem wd)
     | Some rows \<Rightarrow> entries (wd_sh wd') = [] \<and> rows = rows_of (entries (wd_sh wd)) \<and>
         wd_sys wd' = wd_sys wd)"
proof -
  note w = world_ok_parts [OF ok]
  obtain rl sh m where l: "buf_list_locked (zn_slab z) (zn_list z) (zn_width z) (wd_mem wd)
      (shmtx_lock (wd_sh wd)) = (rl, sh, m)"
    by (cases "buf_list_locked (zn_slab z) (zn_list z) (zn_width z) (wd_mem wd) (shmtx_lock (wd_sh wd))") auto
  note lh = list_held [OF zone_lock [OF w(1)] l]
  have free: "zone_ready z (shmtx_unlock sh)" using lh(1) by (rule zone_unlock)
  have "r = map_option (li_parts (zn_list z)) rl" "wd_sh wd' = shmtx_unlock sh" "wd_db wd' = wd_db wd"
    "wd_tasks wd' = wd_tasks wd" "wd_pools wd' = wd_pools wd" "sq (wd_sys wd') = sq (wd_sys wd)"
    "rl \<noteq> None \<longrightarrow> wd_sys wd' = wd_sys wd"
    using run l w d by (auto simp: thread_insert_n_locked_def Let_def split: option.splits)
  with free lh(2,3) world_ok_sh [OF ok, of wd'] show ?thesis by (cases rl) auto
qed

lemma thread_n_insert_keeps:
  assumes "thread_n_insert D d rows wd = (rc, wd')"
  shows "keeps wd wd' \<and>
    (\<exists>d' s. db_insert_list (dp_sqlite D) d rows (wd_sys wd) = (rc, d', s) \<and> sq (wd_sys wd') = sq s)"
  using assms by (auto simp: thread_n_insert_def Let_def keeps_def split: prod.splits if_splits)

lemma thread_n_unshift_spec:
  assumes ok: "world_ok z D wd" and e: "length e = zn_width z" and run: "thread_n_unshift D e wd = (rc, wd')"
  shows "world_ok z D wd' \<and> wd_tasks wd' = wd_tasks wd \<and> wd_pools wd' = wd_pools wd \<and> wd_db wd' = wd_db wd \<and>
    (rc = NGX_ERROR \<and> entries (wd_sh wd') = entries (wd_sh wd) \<or>
     rc = NGX_OK \<and> entries (wd_sh wd') = e # entries (wd_sh wd))"
proof -
  note w = world_ok_parts [OF ok]
  obtain ru sh where u: "buf_unshift (zn_slab z) e (wd_sh wd) = (ru, sh)"
    by (cases "buf_unshift (zn_slab z) e (wd_sh wd)")
  note ur = unshift_ready [OF w(1) e u]
  have "rc = ru" "wd_sh wd' = sh" "wd_db wd' = wd_db wd" "wd_tasks wd' = wd_tasks wd" "wd_pools wd' = wd_pools wd"
    using run u w(3) by (auto simp: thread_n_unshift_def Let_def)
  with ur world_ok_sh [OF ok, of wd'] show ?thesis by auto
qed

lemma thread_insert_n_ok:
  assumes ok: "world_ok z D wd" and d: "length (fmt_columns (db_fmt d)) = zn_width z"
    and e: "\<forall>x. e = Some x \<longrightarrow> length x = zn_width z"
  shows "world_ok z D (thread_insert_n D b d e wd) \<and>
    wd_pools (thread_insert_n D b d e wd) = wd_pools wd \<and>
    wd_tasks (thread_insert_n D b d e wd) = wd_tasks wd"
proof -
  obtain r w1 where lk: "thread_insert_n_locked D b d wd = (r, w1)" by (cases "thread_insert_n_locked D b d wd")
  note 1 = thread_insert_n_locked_spec [OF ok d lk]
  show ?thesis
  proof (cases r)
    case None
    with lk 1 show ?thesis by (simp add: thread_insert_n_def)
  next
    case (Some rows)
    obtain ri w2 where i: "thread_n_insert D d rows w1 = (ri, w2)" by (cases "thread_n_insert D d rows w1")
    then have k: "keeps w1 w2" using thread_n_insert_keeps by blast
    then have ok2: "world_ok z D w2" using keeps_ok 1 by blast
    have 2: "wd_pools w2 = wd_pools wd" "wd_tasks w2 = wd_tasks wd" using k 1 by (simp_all add: keeps_def)
    show ?thesis
    proof (cases "ri = NGX_OK \<and> e \<noteq> None")
      case False
      with Some lk i ok2 2 show ?thesis by (auto simp: thread_insert_n_def)
    next
      case True
      then obtain x where x: "e = Some x" by auto
      obtain ru w3 where u: "thread_n_unshift D x w2 = (ru, w3)" by (cases "thread_n_unshift D x w2")
      have "length x = zn_width z" using e x by simp
      from thread_n_unshift_spec [OF ok2 this u] Some lk i u x True 2 show ?thesis
        by (simp add: thread_insert_n_def)
    qed
  qed
qed

lemma thread_flush_locked_spec:
  assumes ok: "world_ok z D wd" and run: "thread_flush_locked D b wd = (r, wd')"
  shows "world_ok z D wd' \<and> wd_tasks wd' = wd_tasks wd \<and> wd_pools wd' = wd_pools wd \<and>
    wd_db wd' = wd_db wd \<and> sq (wd_sys wd') = sq (wd_sys wd) \<and>
    (case r of None \<Rightarrow> entries (wd_sh wd') = entries (wd_sh wd)
     | Some rows \<Rightarrow> entries (wd_sh wd') = [] \<and> rows = entries (wd_sh wd))"
proof -
  note w = world_ok_parts [OF ok]
  obtain len s1 where g: "buf_get_len_locked (shmtx_lock (wd_sh wd)) = (len, s1)"
    by (cases "buf_get_len_locked (shmtx_lock (wd_sh wd))")
  note gf = get_len_held [OF zone_lock [OF w(1)] g]
  have held: "zone_held z s1" "entries s1 = entries (wd_sh wd)" and len: "len = int (length (entries (wd_sh wd)))"
    using gf by simp_all
  obtain rl sh m where l: "buf_list_locked (zn_slab z) (zn_list z) (zn_width z) (wd_mem wd) s1 = (rl, sh, m)"
    by (cases "buf_list_locked (zn_slab z) (zn_list z) (zn_width z) (wd_mem wd) s1") auto
  note lh = list_held [OF held(1) l]
  have free: "zone_ready z (shmtx_unlock s1)" "zone_ready z (shmtx_unlock sh)"
    using held lh(1) by (auto intro: zone_unlock)
  show ?thesis
  proof (cases "entries (wd_sh wd) = []")
    case True
    then have "r = None" "wd' = set_buf (buf_timer_reset b) (wd\<lparr>wd_sh := shmtx_unlock s1\<rparr>)"
      using run g len by (auto simp: thread_flush_locked_def Let_def)
    with free(1) held(2) world_ok_sh [OF ok, of "wd\<lparr>wd_sh := shmtx_unlock s1\<rparr>"] show ?thesis by simp
  next
    case False
    then have "r = map_option (li_parts (zn_list z)) rl" "wd_sh wd' = shmtx_unlock sh" "wd_db wd' = wd_db wd"
      "wd_tasks wd' = wd_tasks wd" "wd_pools wd' = wd_pools wd" "sq (wd_sys wd') = sq (wd_sys wd)"
      using run g l w len by (auto simp: thread_flush_locked_def Let_def split: option.splits)
    with False free(2) held(2) lh(2,3) world_ok_sh [OF ok, of wd'] show ?thesis
      by (cases rl) (auto simp: rows_of_def)
  qed
qed

lemma thread_flush_insert_keeps:
  assumes "thread_flush_insert D rows wd = wd'"
  shows "keeps wd wd' \<and>
    (\<exists>rc s. db_insert_list (dp_sqlite D) (wd_db wd) rows (wd_sys wd) = (rc, wd_db wd', s) \<and>
      sq (wd_sys wd') = sq s)"
  using assms by (auto simp: thread_flush_insert_def Let_def keeps_def same_config_def
      dest!: db_insert_list_config split: prod.splits if_splits)

lemma thread_flush_ok:
  assumes ok: "world_ok z D wd"
  shows "world_ok z D (thread_flush D b wd) \<and>
    wd_pools (thread_flush D b wd) = wd_pools wd \<and>
    wd_tasks (thread_flush D b wd) = wd_tasks wd"
proof -
  obtain r w1 where lk: "thread_flush_locked D b wd = (r, w1)" by (cases "thread_flush_locked D b wd")
  note 1 = thread_flush_locked_spec [OF ok lk]
  show ?thesis
  proof (cases r)
    case None
    with lk 1 show ?thesis by (simp add: thread_flush_def)
  next
    case (Some rows)
    have k: "keeps w1 (thread_flush_insert D rows w1)" using thread_flush_insert_keeps by blast
    have "world_ok z D (thread_flush_insert D rows w1)" using 1 by (intro keeps_ok [OF k]) simp
    with k Some lk 1 show ?thesis by (simp add: thread_flush_def keeps_def)
  qed
qed

lemma run_task_ok:
  assumes ok: "world_ok z D wd"
  shows "world_ok z D (run_task D wd) \<and>
    wd_pools (run_task D wd) - int (length (wd_tasks (run_task D wd))) =
      wd_pools wd - int (length (wd_tasks wd))"
proof (cases "wd_tasks wd")
  case Nil
  with ok show ?thesis by (simp add: run_task_def)
next
  case (Cons t ts)
  let ?w = "wd\<lparr>wd_tasks := ts\<rparr>"
  have ok1: "world_ok z D ?w" and fits: "task_fits (zn_width z) t"
    using ok Cons by (simp_all add: world_ok_def)
  consider "call_task D t ?w = ?w" | d e where "call_task D t ?w = thread_insert_1 D d e ?w"
    | d b where "tk_db t = Some d" "call_task D t ?w = thread_insert_n D b d (tk_entry t) ?w"
    | b where "call_task D t ?w = thread_flush D b ?w"
    by (fastforce simp: call_task_def split: task_handler.splits option.splits)
  then have "world_ok z D (call_task D t ?w) \<and> wd_pools (call_task D t ?w) = wd_pools wd \<and>
      wd_tasks (call_task D t ?w) = ts"
  proof cases
    case (2 d e)
    with keeps_ok [OF thread_insert_1_keeps ok1] thread_insert_1_keeps [of ?w D d e] show ?thesis
      by (simp add: keeps_def)
  next
    case (3 d b)
    with thread_insert_n_ok [OF ok1, of d "tk_entry t" b] fits show ?thesis
      by (simp add: task_fits_def)
  qed (use ok1 thread_flush_ok [OF ok1] in simp_all)
  with Cons show ?thesis by (simp add: run_task_def thread_completed_def)
qed

section \<open>A worker as a state machine\<close>

text \<open>
  What a worker process does: a request, the flush event, and a task of the thread pool. nginx clears
  \<open>timer_set\<close> before it runs the handler of an event.
\<close>

definition fired :: "buf \<Rightarrow> buf" where
  "fired b = b\<lparr>buf_event := map_option (timer_set_update (\<lambda>_. False)) (buf_event b)\<rparr>"

inductive worker_step :: "('w, 'p, 'l) deps \<Rightarrow> ('w, 'p) world \<Rightarrow> ('w, 'p) world \<Rightarrow> bool" for D where
  Request: "handler D r wd = (rc, wd') \<Longrightarrow> worker_step D wd wd'"
| Timer: "sv_buf (wd_srv wd) = Some b \<Longrightarrow> buf_event b = Some ev \<Longrightarrow> timer_set ev \<Longrightarrow>
    worker_step D wd (buf_flush_handler D (fired b) (set_buf (fired b) wd))"
| Task: "wd_tasks wd \<noteq> [] \<Longrightarrow> worker_step D wd (run_task D wd)"

text \<open>
  Workers that share one zone and SQLite: one of them does a step, and the others find the zone and
  SQLite as it left them.
\<close>

definition share :: "('w, 'p) world \<Rightarrow> ('w, 'p) world \<Rightarrow> ('w, 'p) world" where
  "share wd other = other\<lparr>wd_sh := wd_sh wd, wd_sys := wd_sys wd\<rparr>"

inductive workers_step :: "('w, 'p, 'l) deps \<Rightarrow> ('w, 'p) world list \<Rightarrow> ('w, 'p) world list \<Rightarrow> bool" for D where
  One: "i < length wds \<Longrightarrow> worker_step D (wds ! i) wd \<Longrightarrow>
    workers_step D wds (map (share wd) (wds[i := wd]))"

lemma worker_step_ok: "worker_step D wd wd' \<Longrightarrow> world_ok z D wd \<Longrightarrow> world_ok z D wd'"
proof (induction rule: worker_step.induct)
  case (Request r wd rc wd')
  then show ?case by (blast intro: handler_ok)
next
  case (Timer wd b ev)
  then show ?case by (simp add: buf_flush_handler_def buf_flush_sync_ok buf_flush_async_ok)
next
  case (Task wd)
  then show ?case by (simp add: run_task_ok)
qed

lemma share_ok: "world_ok z D wd \<Longrightarrow> world_ok z D other \<Longrightarrow> world_ok z D (share wd other)"
  unfolding share_def by (rule world_ok_sh [of z D other]) (auto dest: world_ok_parts(1))

lemma workers_step_ok:
  assumes "workers_step D wds wds'" and "\<forall>wd\<in>set wds. world_ok z D wd"
  shows "\<forall>wd\<in>set wds'. world_ok z D wd"
  using assms(1)
proof cases
  case (One i wd)
  have "world_ok z D wd" using worker_step_ok [OF One(3)] assms(2) One(2) by simp
  moreover have "set (wds[i := wd]) \<subseteq> insert wd (set wds)" by (rule set_update_subset_insert)
  ultimately show ?thesis using One(1) assms(2) by (auto intro: share_ok)
qed

lemma workers_steps_ok:
  "(workers_step D)\<^sup>*\<^sup>* wds wds' \<Longrightarrow> \<forall>wd\<in>set wds. world_ok z D wd \<Longrightarrow> \<forall>wd\<in>set wds'. world_ok z D wd"
  by (induction rule: rtranclp_induct) (simp_all add: workers_step_ok)

end
