(* ===== verification/Delivery.thy ===== *)
theory Delivery
  imports Pipeline
begin

text \<open>
  What becomes of a log entry and of its worker: the properties of the handlers of theory Handler,
  proved from the specifications in theory Pipeline. The examples run on the in-memory SQLite of
  theory Sqlite_Laws and the example slab of theory Buffer.
\<close>

section \<open>Commits\<close>

text \<open>
  The retry after a first attempt that failed: that one committed nothing, the extended code of the
  connection asks for a retry, and \<open>db_init\<close> gave the database \<open>d'\<close> in the state \<open>s0\<close>.
\<close>

definition reopened ::
  "'w sqlite \<Rightarrow> 'w view \<Rightarrow> db \<Rightarrow> conn \<Rightarrow> ngx_str list list \<Rightarrow> 'w sys \<Rightarrow> db \<Rightarrow> 'w sys \<Rightarrow> bool" where
  "reopened S V d c parts s d' s0 \<longleftrightarrow>
     (\<exists>t rc s1. sq t = sq s \<and> try_insert_list S d parts t = (rc, s1) \<and> rc \<noteq> SQLITE_OK \<and>
        v_rows V c (sq s1) = v_rows V c (sq s) \<and>
        s3_extended_errcode S (Some c) (sq s1) \<in> {SQLITE_READONLY_DBMOVED, SQLITE_OK} \<and>
        db_init S d s1 = (SQLITE_OK, d', s0))"

text \<open>
  \<open>rows\<close> were committed, in this order and by one attempt, a transaction of its own: none is open
  before and after it. It started from the given state on the given database, or after the retry.
\<close>

definition commits ::
  "'w sqlite \<Rightarrow> 'w view \<Rightarrow> db \<Rightarrow> ngx_str list list \<Rightarrow> 'w sys \<Rightarrow> db \<Rightarrow> 'w sys \<Rightarrow> bool" where
  "commits S V d rows s d' s' \<longleftrightarrow>
     (\<exists>c c' parts s0 s1. db_conn d = Some c \<and> db_conn d' = Some c' \<and>
        rows = map (padded (length (fmt_columns (db_fmt d)))) parts \<and>
        try_insert_list S d' parts s0 = (SQLITE_OK, s1) \<and> sq s1 = sq s' \<and>
        v_txn V c' (sq s0) = None \<and> v_txn V c' (sq s') = None \<and>
        v_rows V c' (sq s') = v_rows V c' (sq s0) @ rows \<and>
        (d' = d \<and> sq s0 = sq s \<or> reopened S V d c parts s d' s0))"

lemma insert_list_commits:
  assumes "sqlite_law S V (db_fmt d)" and "conn_law S conns" and "db_conn d = Some c"
    and "\<forall>part\<in>set parts. length part \<le> length (fmt_columns (db_fmt d))"
    and "db_insert_list S d parts s = (SQLITE_OK, d', s')"
  shows "commits S V d (map (padded (length (fmt_columns (db_fmt d)))) parts) s d' s'"
  using db_insert_list_committed [OF assms] assms(3) unfolding commits_def reopened_def by metis

text \<open>The error log does not matter to what was committed.\<close>

lemma commits_cong:
  assumes "commits S V d rows s d' s'" and "sq t = sq s" and "sq t' = sq s'"
  shows "commits S V d rows t d' t'"
  using assms unfolding commits_def reopened_def by metis

lemmas commits_log = commits_cong [OF _ _ refl]

lemma ready_entries:
  assumes "zone_ready z sh"
  shows "\<forall>e\<in>set (entries sh). length e = zn_width z" "0 < zn_width z"
    "\<forall>e\<in>set (entries sh). e \<noteq> []"
  using zone_entries_not_Nil [OF zone_ready_good [OF assms]] assms
  by (auto simp: zone_ready_def zone_good_def)

lemma padded_rows: "\<forall>e\<in>set q. length e = n \<Longrightarrow> map (padded n) q = q"
  by (rule map_idI) simp

lemma padded_rows_of:
  "\<forall>e\<in>set q. length e = n \<Longrightarrow> map (padded n) (rows_of q) = (if q = [] then [replicate n None] else q)"
  by (simp add: rows_of_def padded_rows) (simp add: padded_def)

section \<open>Concrete functions of others\<close>

definition example_deps :: "'w sqlite \<Rightarrow> ('w, slab_state, nat \<times> ngx_str list list) deps" where
  "example_deps S = \<lparr>dp_sqlite = S, dp_slab = example_slab, dp_list = example_list,
     dp_env = example_env, dp_complex_value = \<lambda>f r. Some [], dp_pid = 42\<rparr>"

definition example_srv :: "buf option \<Rightarrow> srv" where
  "example_srv b = \<lparr>sv_enabled = 1, sv_filter = None, sv_db = mem_db, sv_buf = b\<rparr>"

text \<open>A worker with room for \<open>k\<close> blocks in the zone, with or without a thread pool.\<close>

definition example_world :: "'w sys \<Rightarrow> buf option \<Rightarrow> bool \<Rightarrow> nat \<Rightarrow> ('w, slab_state) world" where
  "example_world s b tp k = \<lparr>wd_srv = example_srv b, wd_sys = s, wd_sh = example_shctx k,
     wd_mem = [], wd_pools = 0, wd_blocked = 0, wd_tasks = [], wd_tp = tp\<rparr>"

lemma example_ready [simp]: "0 < w \<Longrightarrow> zone_ready (example_zone w mx) (example_shctx k)"
  using example_zone_good by (simp add: zone_ready_def) (simp add: example_shctx_def)

lemma example_zone_simps [simp]:
  "zn_slab (example_zone w mx) = example_slab" "zn_list (example_zone w mx) = example_list"
  "zn_width (example_zone w mx) = w"
  by (simp_all add: example_zone_def)

lemma example_deps_simps [simp]:
  "dp_sqlite (example_deps S) = S" "dp_slab (example_deps S) = example_slab"
  "dp_list (example_deps S) = example_list" "dp_pid (example_deps S) = 42"
  by (simp_all add: example_deps_def)

lemma example_world_simps [simp]:
  "wd_db (example_world s b tp k) = mem_db" "wd_sys (example_world s b tp k) = s"
  "wd_sh (example_world s b tp k) = example_shctx k" "wd_tasks (example_world s b tp k) = []"
  "sv_buf (wd_srv (example_world s b tp k)) = b" "wd_tp (example_world s b tp k) = tp"
  "wd_mem (example_world s b tp k) = []" "wd_pools (example_world s b tp k) = 0"
  "sv_enabled (wd_srv (example_world s b tp k)) = 1"
  by (simp_all add: example_world_def example_srv_def)

lemma example_fits [simp]: "zone_fits (example_zone 2 mx) (example_deps S) mem_db"
  by (simp add: zone_fits_def)

lemma example_world_ok: "world_ok (example_zone 2 mx) (example_deps S) (example_world s b tp k)"
  by (simp add: world_ok_def example_fits example_ready)

lemma example_no_entries [simp]: "entries (example_shctx k) = []"
  by (simp add: example_shctx_def entries_def)

section \<open>The path of an entry\<close>

text \<open>
  C3. When \<open>handle_n\<close> reports OK, the entry is where it should be: at the end of the queue, which
  is below the maximum of the buffer, with the database untouched; or committed after all the
  entries that were queued, in their order, and the queue is empty; or alone in the queue, because
  the zone had no room for it, and the entries before it are committed. In the last case, if the
  queue was empty, the code commits a row of NULLs instead.
\<close>

theorem buffered_entry_delivered:
  assumes "zone_ready z (wd_sh wd)" and "zone_fits z D (wd_db wd)" and "length e = zn_width z"
    and "sqlite_law (dp_sqlite D) V (db_fmt (wd_db wd))" and "conn_law (dp_sqlite D) conns"
    and "db_conn (wd_db wd) = Some c" and "handle_n D b e wd = (NGX_OK, wd')"
  shows "entries (wd_sh wd') = entries (wd_sh wd) @ [e] \<and> wd_sys wd' = wd_sys wd \<and>
      (buf_max b = 0 \<or> int (length (entries (wd_sh wd'))) < buf_max b) \<or>
    entries (wd_sh wd') = [] \<and>
      commits (dp_sqlite D) V (wd_db wd) (entries (wd_sh wd) @ [e]) (wd_sys wd) (wd_db wd') (wd_sys wd') \<or>
    entries (wd_sh wd') = [e] \<and>
      commits (dp_sqlite D) V (wd_db wd)
        (if entries (wd_sh wd) = [] then [replicate (zn_width z) None] else entries (wd_sh wd))
        (wd_sys wd) (wd_db wd') (wd_sys wd')"
proof -
  let ?q = "entries (wd_sh wd)" and ?n = "length (fmt_columns (db_fmt (wd_db wd)))"
  note r = ready_entries [OF assms(1)]
  have n: "?n = zn_width z" using assms(2) by (simp add: zone_fits_def)
  have ins: "commits (dp_sqlite D) V (wd_db wd) (map (padded (zn_width z)) rows) (wd_sys wd) (wd_db wd') (wd_sys wd')"
    if "db_insert_list (dp_sqlite D) (wd_db wd) rows s = (SQLITE_OK, wd_db wd', wd_sys wd')"
      and "\<forall>part\<in>set rows. length part \<le> ?n" and "sq s = sq (wd_sys wd)" for rows s
    using commits_log [OF insert_list_commits [OF assms(4,5,6) that(2,1)] that(3) [symmetric]] n by simp
  from handle_n_spec [OF assms(1,2,3,7)] consider
      "entries (wd_sh wd') = ?q @ [e]" "wd_sys wd' = wd_sys wd"
      "buf_max b = 0 \<or> int (length (entries (wd_sh wd'))) < buf_max b"
    | "entries (wd_sh wd') = []"
      "db_insert_list (dp_sqlite D) (wd_db wd) (?q @ [e]) (wd_sys wd) = (SQLITE_OK, wd_db wd', wd_sys wd')"
    | s where "entries (wd_sh wd') = [e]" "sq s = sq (wd_sys wd)"
      "db_insert_list (dp_sqlite D) (wd_db wd) (rows_of ?q) s = (SQLITE_OK, wd_db wd', wd_sys wd')"
    by auto
  then show ?thesis
  proof cases
    case 2
    then show ?thesis using ins [of "?q @ [e]"] r n assms(3) padded_rows [of "?q @ [e]" "zn_width z"] by auto
  next
    case 3
    moreover have "\<forall>part\<in>set (rows_of ?q). length part \<le> ?n" using r n by (auto simp: rows_of_def)
    ultimately show ?thesis using ins [of "rows_of ?q" s] padded_rows_of [OF r(1)] by simp
  qed simp
qed

abbreviation example_entry :: "ngx_str list" where
  "example_entry \<equiv> [Some [65], None]"

lemma example_handle_n_eval:
  "fst (handle_n (example_deps mem_api) (example_buf 1) example_entry
     (example_world mem_start (Some (example_buf 1)) False 8)) = NGX_OK"
  "entries (wd_sh (snd (handle_n (example_deps mem_api) (example_buf 1) example_entry
     (example_world mem_start (Some (example_buf 1)) False 8)))) = []"
  by code_simp+

theorem buffered_entry_delivered_witness:
  "\<exists>wd'. handle_n (example_deps mem_api) (example_buf 1) example_entry
      (example_world mem_start (Some (example_buf 1)) False 8) = (NGX_OK, wd') \<and>
     commits mem_api mem_view mem_db [example_entry] mem_start (wd_db wd') (wd_sys wd')"
proof -
  let ?w = "example_world mem_start (Some (example_buf 1)) False 8"
  obtain rc wd' where run: "handle_n (example_deps mem_api) (example_buf 1) example_entry ?w = (rc, wd')"
    by (cases "handle_n (example_deps mem_api) (example_buf 1) example_entry ?w")
  with example_handle_n_eval have rc: "rc = NGX_OK" and e: "entries (wd_sh wd') = []" by auto
  show ?thesis
    using buffered_entry_delivered [of "example_zone 2 0" ?w "example_deps mem_api" example_entry
        mem_view mem_conns 1 "example_buf 1" wd'] run rc e mem_sqlite_law mem_conn_law
    by auto
qed

text \<open>
  C30. With memory enough, \<open>handle_n\<close> reports an error only after it has taken the queue out, and it
  puts nothing back: the queue is left empty, although the entries that were in it may not have
  been inserted.
\<close>

theorem failed_insert_loses_entries:
  assumes "zone_ready z (wd_sh wd)" and "zone_fits z D (wd_db wd)" and "length e = zn_width z"
    and "ample (wd_mem wd)" and "handle_n D b e wd = (NGX_ERROR, wd')"
  shows "entries (wd_sh wd') = []"
  using handle_n_spec [OF assms(1-3,5)] assms(4) by auto

definition example_full_world :: "((nat \<times> int), slab_state) world" where
  "example_full_world = example_world full_sys (Some (example_buf 2)) False 8"

definition example_full_queue :: "((nat \<times> int), slab_state) world" where
  "example_full_queue = snd (handle_n (example_deps full_api) (example_buf 2) example_entry example_full_world)"

lemma example_full_eval:
  "fst (handle_n (example_deps full_api) (example_buf 2) example_entry example_full_world) = NGX_OK"
  "entries (wd_sh example_full_queue) = [example_entry]"
  "wd_mem example_full_queue = []"
  "fst (handle_n (example_deps full_api) (example_buf 2) example_entry example_full_queue) = NGX_ERROR"
  by code_simp+

lemma example_full_ok: "world_ok (example_zone 2 0) (example_deps full_api) example_full_queue"
proof -
  have run: "handle_n (example_deps full_api) (example_buf 2) example_entry example_full_world =
      (NGX_OK, example_full_queue)"
    using example_full_eval(1) by (metis example_full_queue_def prod.collapse)
  have "world_ok (example_zone 2 0) (example_deps full_api) example_full_world"
    unfolding example_full_world_def by (rule example_world_ok)
  from handle_n_ok [OF this _ run] show ?thesis by simp
qed

theorem failed_insert_loses_entries_witness:
  "entries (wd_sh example_full_queue) = [example_entry] \<and>
   entries (wd_sh (snd (handle_n (example_deps full_api) (example_buf 2) example_entry example_full_queue))) = []"
proof -
  have "handle_n (example_deps full_api) (example_buf 2) example_entry example_full_queue =
      (NGX_ERROR, snd (handle_n (example_deps full_api) (example_buf 2) example_entry example_full_queue))"
    using example_full_eval(4) by (metis prod.collapse)
  from failed_insert_loses_entries [OF world_ok_parts(1,2) [OF example_full_ok] _ _ this]
  show ?thesis using example_full_eval by simp
qed

lemma flush_sync_takes:
  assumes "world_ok z D wd" and "buf_flush_sync D b wd = wd'"
  shows "wd_pools wd' = wd_pools wd \<and>
    (entries (wd_sh wd') = entries (wd_sh wd) \<and> sq (wd_sys wd') = sq (wd_sys wd) \<and>
       (entries (wd_sh wd) = [] \<or> \<not> ample (wd_mem wd)) \<or>
     entries (wd_sh wd) \<noteq> [] \<and> entries (wd_sh wd') = [] \<and>
       (\<exists>rc s. db_insert_list (dp_sqlite D) (wd_db wd) (entries (wd_sh wd)) (wd_sys wd) =
          (rc, wd_db wd', s) \<and> sq (wd_sys wd') = sq s))"
proof -
  obtain len sh where g: "buf_get_len (wd_sh wd) = (len, sh)" by (cases "buf_get_len (wd_sh wd)")
  let ?wd = "wd\<lparr>wd_sh := sh\<rparr>"
  note gf = get_len_ready [OF world_ok_parts(1) [OF assms(1)] g]
  have ok1: "world_ok z D ?wd" using gf by (intro world_ok_sh [OF assms(1)]) simp_all
  obtain r w1 where l: "buf_flush_locked D b ?wd = (r, w1)" by (cases "buf_flush_locked D b ?wd")
  note ls = buf_flush_locked_spec [OF ok1 l]
  have pools: "wd_pools wd' = wd_pools wd" using buf_flush_sync_ok [OF assms(1)] assms(2) by blast
  show ?thesis
  proof (cases "entries (wd_sh wd) = []")
    case True
    with assms(2) g gf have "wd' = set_buf (buf_timer_reset b) ?wd" by (simp add: buf_flush_sync_def)
    with True gf pools show ?thesis by simp
  next
    case ne: False
    show ?thesis
    proof (cases r)
      case None
      with assms(2) g gf ne l have "wd' = w1" by (simp add: buf_flush_sync_def)
      with None ls gf ne pools show ?thesis by simp
    next
      case (Some rows)
      with assms(2) g gf ne l have w': "buf_flush_insert D rows w1 = wd'" by (simp add: buf_flush_sync_def)
      obtain ri d s where "db_insert_list (dp_sqlite D) (wd_db w1) rows (wd_sys w1) = (ri, d, s)"
        "wd_db wd' = d" "sq (wd_sys wd') = sq s" "wd_sh wd' = wd_sh w1"
        using buf_flush_insert_spec [OF w'] by (auto simp: keeps_def)
      with Some ls gf ne pools show ?thesis by auto
    qed
  qed
qed

text \<open>
  C31. A flush takes the whole queue and inserts exactly its entries, in one list; it never inserts
  anything when the queue is empty. If it cannot get memory the queue keeps its entries; if the
  insertion fails they are lost. It destroys the pool it created, on every path.
\<close>

theorem flush_takes_queue:
  assumes "world_ok z D wd" and "buf_flush_sync D b wd = wd'"
  shows "wd_pools wd' = wd_pools wd \<and>
    (entries (wd_sh wd') = entries (wd_sh wd) \<and> sq (wd_sys wd') = sq (wd_sys wd) \<and>
       (entries (wd_sh wd) = [] \<or> \<not> ample (wd_mem wd)) \<or>
     entries (wd_sh wd) \<noteq> [] \<and> entries (wd_sh wd') = [] \<and>
       (\<exists>rc s. db_insert_list (dp_sqlite D) (wd_db wd) (entries (wd_sh wd)) (wd_sys wd) =
          (rc, wd_db wd', s) \<and> sq (wd_sys wd') = sq s))"
  by (rule flush_sync_takes [OF assms])

theorem flush_takes_queue_witness:
  "entries (wd_sh (buf_flush_sync (example_deps full_api) (example_buf 2) example_full_queue)) = []"
  using flush_takes_queue [OF example_full_ok refl, of "example_buf 2"] example_full_eval by auto

text \<open>
  C6. The mutex discipline holds for any number of workers on one zone, whatever they do: after any
  sequence of requests, flush events and thread tasks of any of them, each run to its end, the zone
  is consistent, every entry in it has one field per column, the mutex is free, and it was never
  locked twice, unlocked while free, or its data used without it.
\<close>

theorem mutex_discipline:
  assumes "\<forall>wd\<in>set wds. world_ok z D wd" and "(workers_step D)\<^sup>*\<^sup>* wds wds'" and "wd \<in> set wds'"
  shows "zone_good z (wd_sh wd) \<and> \<not> sh_held (wd_sh wd) \<and> \<not> sh_fault (wd_sh wd) \<and>
    (\<forall>e\<in>set (entries (wd_sh wd)). length e = length (fmt_columns (db_fmt (wd_db wd))))"
proof -
  have "world_ok z D wd" using workers_steps_ok [OF assms(2,1)] assms(3) by blast
  then show ?thesis
    using ready_entries(1) [of z "wd_sh wd"] world_ok_parts(5)
    by (auto simp: world_ok_def zone_ready_def zone_fits_def)
qed

text \<open>
  Two workers with a thread pool and without room in the buffer: a request in the first one, then a
  request in the other, then the task of the first.
\<close>

definition example_request_world :: "(nat \<times> int, slab_state) world \<Rightarrow> (nat \<times> int, slab_state) world" where
  "example_request_world wd = snd (handler (example_deps full_api) (example_request 150) wd)"

definition two_workers :: "(nat \<times> int, slab_state) world list" where
  "two_workers = replicate 2 (example_world full_sys (Some (example_buf 1)) True 8)"

definition two_workers_1 :: "(nat \<times> int, slab_state) world list" where
  "two_workers_1 = (let w = example_request_world (two_workers ! 0) in map (share w) (two_workers[0 := w]))"

definition two_workers_2 :: "(nat \<times> int, slab_state) world list" where
  "two_workers_2 = (let w = example_request_world (two_workers_1 ! 1) in map (share w) (two_workers_1[1 := w]))"

definition two_workers_3 :: "(nat \<times> int, slab_state) world list" where
  "two_workers_3 = (let w = run_task (example_deps full_api) (two_workers_2 ! 0)
    in map (share w) (two_workers_2[0 := w]))"

lemma two_workers_eval:
  "length (wd_tasks (two_workers_2 ! 0)) = 1" "length (entries (wd_sh (two_workers_2 ! 1))) = 2"
  "entries (wd_sh (two_workers_3 ! 1)) = []"
  by code_simp+

theorem mutex_discipline_witness:
  "length two_workers_3 = 2 \<and> length (entries (wd_sh (two_workers_2 ! 1))) = 2 \<and>
   entries (wd_sh (two_workers_3 ! 1)) = [] \<and> \<not> sh_held (wd_sh (two_workers_3 ! 1))"
proof -
  let ?D = "example_deps full_api"
  have req: "worker_step ?D wd (example_request_world wd)" for wd
    unfolding example_request_world_def by (rule worker_step.Request) (rule surjective_pairing)
  have len: "length two_workers = 2" "length two_workers_1 = 2" "length two_workers_2 = 2" "length two_workers_3 = 2"
    by (simp_all add: two_workers_def two_workers_1_def two_workers_2_def two_workers_3_def Let_def)
  have "workers_step ?D two_workers two_workers_1"
    unfolding two_workers_1_def Let_def using len by (intro workers_step.One req) simp
  moreover have "workers_step ?D two_workers_1 two_workers_2"
    unfolding two_workers_2_def Let_def using len by (intro workers_step.One req) simp
  moreover have "workers_step ?D two_workers_2 two_workers_3"
    unfolding two_workers_3_def Let_def using len two_workers_eval(1) by (intro workers_step.One worker_step.Task) auto
  ultimately have run: "(workers_step ?D)\<^sup>*\<^sup>* two_workers two_workers_3"
    by (meson rtranclp.rtrancl_refl rtranclp.rtrancl_into_rtrancl)
  have "\<forall>wd\<in>set two_workers. world_ok (example_zone 2 0) ?D wd"
    by (simp add: two_workers_def example_world_ok)
  from mutex_discipline [OF this run, of "two_workers_3 ! 1"] len two_workers_eval show ?thesis by simp
qed

text \<open>
  C32. The thread task of a full buffer, when another worker or a flush has emptied the queue before
  it gets the lock, commits a row in which every column is NULL.
\<close>

theorem late_task_inserts_null_row:
  assumes "world_ok z D wd" and "ample (wd_mem wd)" and "entries (wd_sh wd) = []"
    and "length (fmt_columns (db_fmt d)) = zn_width z"
    and "sqlite_law (dp_sqlite D) V (db_fmt d)" and "conn_law (dp_sqlite D) conns" and "db_conn d = Some c"
    and "fst (db_insert_list (dp_sqlite D) d [[]] (wd_sys wd)) = SQLITE_OK"
  shows "\<exists>d' s'. sq (wd_sys (thread_insert_n D b d None wd)) = sq s' \<and>
    commits (dp_sqlite D) V d [replicate (zn_width z) None] (wd_sys wd) d' s'"
proof -
  obtain r w1 where l: "thread_insert_n_locked D b d wd = (r, w1)" by (cases "thread_insert_n_locked D b d wd")
  from thread_insert_n_locked_spec [OF assms(1,4) l] assms(2,3)
  have r: "r = Some [[]]" "wd_sys w1 = wd_sys wd" by (auto simp: rows_of_def split: option.splits)
  obtain d' s' where i: "db_insert_list (dp_sqlite D) d [[]] (wd_sys wd) = (SQLITE_OK, d', s')"
    using assms(8) by (metis prod.collapse)
  have "commits (dp_sqlite D) V d (map (padded (zn_width z)) [[]]) (wd_sys wd) d' s'"
    using insert_list_commits [OF assms(5-7) _ i] assms(4) by simp
  moreover have "wd_sys (thread_insert_n D b d None wd) = s'"
    using l r i by (simp add: thread_insert_n_def thread_n_insert_def)
  ultimately show ?thesis by (auto simp: padded_def)
qed

lemma mem_null_row_eval: "fst (db_insert_list mem_api mem_db [[]] mem_start) = SQLITE_OK"
  by code_simp

theorem late_task_inserts_null_row_witness:
  "\<exists>d' s'. commits mem_api mem_view mem_db [[None, None]] mem_start d' s'"
  using late_task_inserts_null_row [OF example_world_ok [of 0 mem_api mem_start None True 8],
      where d = mem_db and V = mem_view and conns = mem_conns and c = 1 and b = "example_buf 1"]
    mem_null_row_eval mem_sqlite_law mem_conn_law
  by (auto simp: numeral_2_eq_2)

section \<open>Errors\<close>

text \<open>The filter lets the request pass, and the log entry that the handler builds for it.\<close>

definition accepted :: "('w, 'p, 'l) deps \<Rightarrow> request \<Rightarrow> ('w, 'p) world \<Rightarrow> bool" where
  "accepted D r wd \<longleftrightarrow>
     (case sv_filter (wd_srv wd) of
        None \<Rightarrow> True
      | Some f \<Rightarrow> (case dp_complex_value D f r of None \<Rightarrow> False | Some condition \<Rightarrow> \<not> ngx_str_is_false condition))"

abbreviation build :: "('w, 'p, 'l) deps \<Rightarrow> request \<Rightarrow> ('w, 'p) world \<Rightarrow> (fault + ngx_str list) \<times> request \<times> mem" where
  "build D r wd \<equiv> log_entry (dp_env D) r (map col_op (fmt_columns (db_fmt (wd_db wd)))) (wd_mem wd)"

text \<open>The paths of the request handler that reach a log entry, and the others.\<close>

lemma handler_failed_spec:
  assumes "handler_failed D wd = (rc, wd')"
  shows "rc = NGX_ERROR \<and> sv_enabled (wd_srv wd') = 0 \<and>
    (\<exists>rc_close d s s'. db_close (dp_sqlite D) (wd_db wd) s = (rc_close, d, s') \<and> wd_db wd' = d \<and>
       sq s = sq (wd_sys wd) \<and> sq (wd_sys wd') = sq s')"
proof -
  define s where "s = log_error ''sqlitelog: handler disabled for worker process %d'' [Arg_d (dp_pid D)] (wd_sys wd)"
  obtain rcc d s1 where c: "db_close (dp_sqlite D) (wd_db wd) s = (rcc, d, s1)"
    by (cases "db_close (dp_sqlite D) (wd_db wd) s") auto
  have w': "rc = NGX_ERROR" "sv_enabled (wd_srv wd') = 0" "wd_db wd' = d" "sq (wd_sys wd') = sq s1"
    using assms c by (auto simp: handler_failed_def s_def Let_def)
  have "sq s = sq (wd_sys wd)" by (simp add: s_def)
  with w' c show ?thesis by blast
qed

lemma handler_entry_cases:
  assumes "handler_entry D r wd = (rc, wd')"
  obtains (OK) entry r' m where
      "log_entry (dp_env D) r (map col_op (fmt_columns (db_fmt (wd_db wd)))) (wd_mem wd) = (Inr entry, r', m)"
      "handle_entry D entry (wd\<lparr>wd_mem := m\<rparr>) = (NGX_OK, wd')" "rc = NGX_OK"
  | (No_entry) s m where "handler_failed D (wd\<lparr>wd_mem := m, wd_sys := s\<rparr>) = (rc, wd')"
      "sq s = sq (wd_sys wd)"
  | (Not_handled) entry rc1 w1 m line where "handle_entry D entry (wd\<lparr>wd_mem := m\<rparr>) = (rc1, w1)"
      "rc1 \<noteq> NGX_OK" "handler_failed D (wd_log line w1) = (rc, wd')"
proof -
  obtain en r1 m where e: "log_entry (dp_env D) r (map col_op (fmt_columns (db_fmt (wd_db wd)))) (wd_mem wd) = (en, r1, m)"
    by (cases "log_entry (dp_env D) r (map col_op (fmt_columns (db_fmt (wd_db wd)))) (wd_mem wd)") auto
  show thesis
  proof (cases en)
    case (Inl f)
    have "handler_failed D (wd\<lparr>wd_mem := m, wd_sys := (log_error
        ''sqlitelog: failed to get log entry for request, '' [] (wd_sys wd))
        \<lparr>ub := (ub (wd_sys wd) \<or> f = Overrun)\<rparr>\<rparr>) = (rc, wd')"
      using assms e Inl by (simp add: handler_entry_def Let_def)
    then show thesis by (rule No_entry) simp
  next
    case (Inr row)
    obtain rc1 w1 where h: "handle_entry D row (wd\<lparr>wd_mem := m\<rparr>) = (rc1, w1)"
      by (cases "handle_entry D row (wd\<lparr>wd_mem := m\<rparr>)")
    show thesis
    proof (cases "rc1 = NGX_OK")
      case True
      with assms e Inr h show thesis by (intro OK [of row r1 m]) (auto simp: handler_entry_def Let_def)
    next
      case False
      with assms e Inr h show thesis by (intro Not_handled [OF h False]) (auto simp: handler_entry_def Let_def)
    qed
  qed
qed

lemma handler_cases:
  assumes "handler D r wd = (rc, wd')"
  obtains (Nothing) "wd' = wd" "rc = NGX_OK"
  | (No_filter) f where "wd' = wd" "rc = NGX_ERROR" "sv_filter (wd_srv wd) = Some f" "dp_complex_value D f r = None"
  | (No_pool) s w1 where "create_pool wd = (False, w1)" "wd' = w1\<lparr>wd_sys := s\<rparr>" "rc = NGX_ERROR"
      "sq s = sq (wd_sys w1)" "wd_tp wd"
  | (Entry) w1 where "handler_entry D r w1 = (rc, wd')" "sv_enabled (wd_srv wd) \<noteq> 0"
      "if wd_tp wd then create_pool wd = (True, w1) else w1 = wd"
proof -
  obtain okp w1 where p: "create_pool wd = (okp, w1)" by (cases "create_pool wd")
  let ?go = "if wd_tp wd
     then if \<not> okp then (NGX_ERROR, w1\<lparr>wd_sys := log_error
         ''sqlitelog: failed to allocate %z bytes for pool during request handler'' [] (wd_sys w1)\<rparr>)
       else handler_entry D r w1
     else handler_entry D r wd"
  have "wd' = wd \<and> rc = NGX_OK \<or>
      wd' = wd \<and> rc = NGX_ERROR \<and> (\<exists>f. sv_filter (wd_srv wd) = Some f \<and> dp_complex_value D f r = None) \<or>
      sv_enabled (wd_srv wd) \<noteq> 0 \<and> (rc, wd') = ?go"
    using assms p by (auto simp: handler_def Let_def split: if_splits option.splits bool.splits)
  then show thesis
    using p by (auto split: if_splits intro: that)
qed

lemma wd_palloc_enabled: "wd_palloc wd = (ok, wd') \<Longrightarrow> sv_enabled (wd_srv wd') = sv_enabled (wd_srv wd)"
  by (auto simp: wd_palloc_def split: prod.splits)

lemma handle_entry_enabled:
  assumes "handle_entry D e wd = (rc, wd')"
  shows "sv_enabled (wd_srv wd') = sv_enabled (wd_srv wd)"
proof -
  have post: "sv_enabled (wd_srv w2) = sv_enabled (wd_srv w1)" if "post_task t w1 = (rc1, w2)"
    for t w1 w2 rc1 using post_task_spec(2) [OF that] by simp
  consider (n) b where "handle_n D b e wd = (rc, wd')" | (n_async) b where "handle_n_async D b e wd = (rc, wd')"
    | (one) "handle_1 D e wd = (rc, wd')" | (one_async) "handle_1_async D e wd = (rc, wd')"
    using assms by (auto simp: handle_entry_def split: if_splits option.splits)
  then show ?thesis
  proof cases
    case n
    then show ?thesis
      by (auto simp: handle_n_def handle_n_locked_def handle_n_insert_def handle_n_unshift_def Let_def
          split: prod.splits if_splits sum.splits option.splits)
  next
    case n_async
    then show ?thesis
      by (auto simp: handle_n_async_def Let_def split: prod.splits if_splits
          dest!: post wd_palloc_enabled)
  next
    case one
    then show ?thesis by (auto simp: handle_1_def Let_def split: prod.splits if_splits)
  next
    case one_async
    then show ?thesis
      by (auto simp: handle_1_async_def Let_def split: prod.splits if_splits dest!: post wd_palloc_enabled)
  qed
qed

text \<open>
  The log entry of the request could not be built or could not be handled, and left the worker as
  \<open>w1\<close>.
\<close>

definition entry_fails ::
  "('w, 'p, 'l) deps \<Rightarrow> request \<Rightarrow> ('w, 'p) world \<Rightarrow> ('w, 'p) world \<Rightarrow> bool" where
  "entry_fails D r wd w1 \<longleftrightarrow>
     (\<exists>w0. (if wd_tp wd then create_pool wd = (True, w0) else w0 = wd) \<and>
        (case build D r w0 of
           (Inl fault, r', m) \<Rightarrow> w1 = w0\<lparr>wd_mem := m\<rparr>
         | (Inr entry, r', m) \<Rightarrow> \<exists>rc1. handle_entry D entry (w0\<lparr>wd_mem := m\<rparr>) = (rc1, w1) \<and> rc1 \<noteq> NGX_OK))"

lemma handler_entry_fails:
  assumes "handler_entry D r w0 = (rc, wd')" and "rc \<noteq> NGX_OK"
    and "if wd_tp wd then create_pool wd = (True, w0) else w0 = wd"
  shows "\<exists>w1 w2. entry_fails D r wd w1 \<and> handler_failed D w2 = (rc, wd') \<and> wd_db w2 = wd_db w1 \<and>
    sq (wd_sys w2) = sq (wd_sys w1)"
proof -
  obtain en r1 m where e: "build D r w0 = (en, r1, m)" by (cases "build D r w0") auto
  show ?thesis
  proof (cases en)
    case (Inl f)
    obtain s where "handler_failed D (w0\<lparr>wd_mem := m, wd_sys := s\<rparr>) = (rc, wd')" "sq s = sq (wd_sys w0)"
      using assms(1) e Inl by (auto simp: handler_entry_def Let_def)
    moreover have "entry_fails D r wd (w0\<lparr>wd_mem := m\<rparr>)" using assms(3) e Inl unfolding entry_fails_def by (intro exI [of _ w0]) simp
    ultimately show ?thesis by (intro exI [of _ "w0\<lparr>wd_mem := m\<rparr>"] exI) auto
  next
    case (Inr row)
    obtain rc1 w1 where h: "handle_entry D row (w0\<lparr>wd_mem := m\<rparr>) = (rc1, w1)"
      by (cases "handle_entry D row (w0\<lparr>wd_mem := m\<rparr>)")
    have rc1: "rc1 \<noteq> NGX_OK"
      and f: "handler_failed D (wd_log ''sqlitelog: failed to handle log entry for database \"%V\"'' w1) = (rc, wd')"
      using assms(1,2) e Inr h by (auto simp: handler_entry_def Let_def split: if_splits)
    have "entry_fails D r wd w1" using assms(3) e Inr h rc1 unfolding entry_fails_def by (intro exI [of _ w0]) simp
    with f show ?thesis by (intro exI [of _ w1] exI) (auto simp: wd_log_def)
  qed
qed

text \<open>
  C33. A request that fails is reported to nginx as \<open>NGX_ERROR\<close>. If its filter could not be evaluated,
  or its pool could not be created, the worker stays enabled. In every other case its log entry could
  not be built or handled, and the module is disabled in this worker: the worker's database is
  closed, as that left it (when SQLite can close it, there is no connection any more), and every
  later request returns OK and changes nothing. A request that returns OK never disables a worker.
\<close>

theorem handler_error_disables:
  assumes "handler D r wd = (rc, wd')"
  shows "(rc = NGX_OK \<longrightarrow> sv_enabled (wd_srv wd') = sv_enabled (wd_srv wd)) \<and>
    (rc \<noteq> NGX_OK \<longrightarrow> rc = NGX_ERROR \<and>
      (wd' = wd \<and> (\<exists>f. sv_filter (wd_srv wd) = Some f \<and> dp_complex_value D f r = None) \<or>
       wd_tp wd \<and> \<not> fst (create_pool wd) \<and> wd_srv wd' = wd_srv wd \<or>
       (\<forall>r'. handler D r' wd' = (NGX_OK, wd')) \<and>
       (\<exists>w1 s rc_close s'. entry_fails D r wd w1 \<and> sq s = sq (wd_sys w1) \<and>
          db_close (dp_sqlite D) (wd_db w1) s = (rc_close, wd_db wd', s') \<and> sq (wd_sys wd') = sq s' \<and>
          (rc_close = SQLITE_OK \<longrightarrow> db_conn (wd_db wd') = None))))"
  using assms
proof (cases rule: handler_cases)
  case Nothing
  then show ?thesis by simp
next
  case (No_filter f)
  then show ?thesis by simp
next
  case (No_pool s w1)
  then show ?thesis using create_pool_frame(2) [OF No_pool(1)] by simp
next
  case (Entry w0)
  have en: "sv_enabled (wd_srv w0) = sv_enabled (wd_srv wd)"
    using Entry(3) create_pool_frame(2) [of wd True w0] by (auto split: if_splits)
  show ?thesis
  proof (cases "rc = NGX_OK")
    case True
    from Entry(1) have "sv_enabled (wd_srv wd') = sv_enabled (wd_srv w0)"
      by (cases rule: handler_entry_cases) (use True handler_failed_spec in \<open>fastforce dest: handle_entry_enabled\<close>)+
    with en True show ?thesis by simp
  next
    case False
    obtain w1 w2 where w: "entry_fails D r wd w1" "handler_failed D w2 = (rc, wd')" "wd_db w2 = wd_db w1"
      "sq (wd_sys w2) = sq (wd_sys w1)"
      using handler_entry_fails [OF Entry(1) False Entry(3)] by blast
    obtain rc_close s s' where c: "db_close (dp_sqlite D) (wd_db w1) s = (rc_close, wd_db wd', s')"
      "sq s = sq (wd_sys w1)" "sq (wd_sys wd') = sq s'" and rc: "rc = NGX_ERROR" "sv_enabled (wd_srv wd') = 0"
      using handler_failed_spec [OF w(2)] w(3,4) by auto
    then have off: "handler D r' wd' = (NGX_OK, wd')" for r' by (simp add: handler_def)
    have "rc_close = SQLITE_OK \<longrightarrow> db_conn (wd_db wd') = None" using db_close_None c(1) by blast
    then have "\<exists>w1 s rc_close s'. entry_fails D r wd w1 \<and> sq s = sq (wd_sys w1) \<and>
        db_close (dp_sqlite D) (wd_db w1) s = (rc_close, wd_db wd', s') \<and> sq (wd_sys wd') = sq s' \<and>
        (rc_close = SQLITE_OK \<longrightarrow> db_conn (wd_db wd') = None)"
      using w(1) c by blast
    with False rc(1) off show ?thesis by simp
  qed
qed

theorem handler_error_disables_witness:
  "\<exists>wd'. handler (example_deps full_api) (example_request 150) (example_world full_sys None False 8) =
      (NGX_ERROR, wd') \<and> handler (example_deps full_api) (example_request 7) wd' = (NGX_OK, wd')"
proof -
  let ?D = "example_deps full_api" and ?w = "example_world full_sys None False 8"
  have e: "fst (handler ?D (example_request 150) ?w) = NGX_ERROR" by code_simp
  obtain rc wd' where run: "handler ?D (example_request 150) ?w = (rc, wd')"
    by (cases "handler ?D (example_request 150) ?w")
  with e have "rc = NGX_ERROR" "sv_filter (wd_srv ?w) = None" "\<not> wd_tp ?w"
    by (simp_all add: example_world_def example_srv_def)
  with handler_error_disables [OF run] run show ?thesis by auto
qed

definition null_conn_law :: "'w sqlite \<Rightarrow> bool" where
  "null_conn_law S \<longleftrightarrow>
     (\<forall>sql w. fst (s3_exec S None sql w) \<noteq> SQLITE_OK \<and> snd (s3_exec S None sql w) = w) \<and>
     (\<forall>w. s3_extended_errcode S None w \<notin> {SQLITE_READONLY_DBMOVED, SQLITE_OK})"

lemma null_insert_list:
  assumes "null_conn_law S" and "db_conn d = None" and "db_insert_list S d parts s = (rc, d', s')"
  shows "rc \<noteq> SQLITE_OK \<and> d' = d \<and> sq s' = sq s"
proof -
  obtain rcb s1 where b: "sqlite3_exec S None ''BEGIN EXCLUSIVE TRANSACTION'' s = (rcb, s1)"
    by (cases "sqlite3_exec S None ''BEGIN EXCLUSIVE TRANSACTION'' s")
  have r: "rcb \<noteq> SQLITE_OK" "sq s1 = sq s"
    using exec_result [OF b] assms(1) unfolding null_conn_law_def by (metis fst_conv snd_conv)+
  have t: "try_insert_list S d parts s = (rcb, s1)"
    using b r assms(2) by (simp add: try_insert_list_def)
  have "\<not> (s3_extended_errcode S (db_conn d) (sq s1) = SQLITE_READONLY_DBMOVED \<or>
      s3_extended_errcode S (db_conn d) (sq s1) = SQLITE_OK)"
    using assms(1,2) unfolding null_conn_law_def by auto
  from rows.no_retry [OF t r(1) this] assms(3) r show ?thesis by simp
qed

lemma flush_sync_cases:
  assumes "world_ok z D wd" and "buf_flush_sync D b wd = wd'" and "ample (wd_mem wd)"
  shows "entries (wd_sh wd') = [] \<and>
    (entries (wd_sh wd) = [] \<and> sq (wd_sys wd') = sq (wd_sys wd) \<or>
     (\<exists>rc s. db_insert_list (dp_sqlite D) (wd_db wd) (entries (wd_sh wd)) (wd_sys wd) =
        (rc, wd_db wd', s) \<and> sq (wd_sys wd') = sq s))"
  using flush_sync_takes [OF assms(1,2)] assms(3) by auto

text \<open>
  Once a worker has closed its database, its flush event goes on: the flush takes the whole
  shared queue, the insertion on the missing connection fails, and the entries of all workers that
  were in the queue are gone without any change to the database.
\<close>

theorem disabled_worker_loses_queue:
  assumes "world_ok z D wd" and "ample (wd_mem wd)" and "db_conn (wd_db wd) = None"
    and "null_conn_law (dp_sqlite D)"
  shows "entries (wd_sh (buf_flush_sync D b wd)) = [] \<and>
    sq (wd_sys (buf_flush_sync D b wd)) = sq (wd_sys wd)"
  using flush_sync_cases [OF assms(1) refl assms(2), of b] null_insert_list [OF assms(4,3)] by fastforce

text \<open>The worker of the example before, disabled, with one entry of another worker in the queue.\<close>

definition null_api :: "(nat \<times> int) sqlite" where
  "null_api = full_api\<lparr>
     s3_exec := \<lambda>c sql w. if c = None then (21, w) else s3_exec full_api c sql w,
     s3_extended_errcode := \<lambda>c w. if c = None then 7 else snd w\<rparr>"

lemma null_api_law: "null_conn_law null_api"
  by (simp add: null_conn_law_def null_api_def)

definition disabled_world :: "(nat \<times> int, slab_state) world" where
  "disabled_world = set_db (mem_db\<lparr>db_conn := None\<rparr>) example_full_queue"

lemma disabled_world_ok: "world_ok (example_zone 2 0) (example_deps null_api) disabled_world"
  using example_full_ok by (auto simp: world_ok_def zone_fits_def disabled_world_def)

theorem disabled_worker_loses_queue_witness:
  "entries (wd_sh disabled_world) = [example_entry] \<and>
   entries (wd_sh (buf_flush_sync (example_deps null_api) (example_buf 2) disabled_world)) = []"
  using disabled_worker_loses_queue [OF disabled_world_ok, of "example_buf 2"] null_api_law example_full_eval
  by (simp add: disabled_world_def)

lemma handle_entry_pools:
  assumes "wd_tp wd" and "handle_entry D e wd = (rc, wd')"
  shows "wd_pools wd' = wd_pools wd \<and> rc \<in> {NGX_OK, NGX_ERROR} \<and>
    (rc = NGX_OK \<and> (\<exists>t. wd_tasks wd' = wd_tasks wd @ [t]) \<or>
     wd_tasks wd' = wd_tasks wd \<and> (rc = NGX_OK \<longrightarrow> sv_buf (wd_srv wd) \<noteq> None))"
proof (cases "sv_buf (wd_srv wd)")
  case None
  obtain ok w1 where a: "wd_palloc wd = (ok, w1)" by (cases "wd_palloc wd")
  obtain rp w2 where p: "post_task \<lparr>tk_handler = Thread_insert_1, tk_db = Some (wd_db w1), tk_entry = Some e\<rparr> w1 = (rp, w2)"
    by (cases "post_task \<lparr>tk_handler = Thread_insert_1, tk_db = Some (wd_db w1), tk_entry = Some e\<rparr> w1")
  show ?thesis
    using assms None a p wd_palloc_frame(4,5) [OF a] post_task_spec(4,6,7) [OF p]
    by (auto simp: handle_entry_def handle_1_async_def Let_def split: if_splits)
next
  case (Some b)
  obtain rc_push sh where q: "buf_push (dp_slab D) b e (wd_sh wd) = (rc_push, sh)"
    by (cases "buf_push (dp_slab D) b e (wd_sh wd)")
  let ?w = "(node_log D e wd)\<lparr>wd_sh := sh\<rparr>"
  obtain ok w1 where a: "wd_palloc ?w = (ok, w1)" by (cases "wd_palloc ?w")
  let ?t = "\<lparr>tk_handler = Thread_insert_n, tk_db = Some (wd_db w1),
    tk_entry = (if rc_push = NGX_DONE then None else Some e)\<rparr>"
  obtain rp w2 where p: "post_task ?t w1 = (rp, w2)" by (cases "post_task ?t w1")
  have "handle_entry D e wd = (if rc_push = NGX_OK then (NGX_OK, ?w)
      else if \<not> ok then (NGX_ERROR, w1) else (rp, w2))"
    using assms(1) Some q a p by (auto simp: handle_entry_def handle_n_async_def Let_def)
  with assms(2) Some wd_palloc_frame(4,5) [OF a] post_task_spec(4,6,7) [OF p] show ?thesis
    by (auto split: if_splits)
qed

text \<open>A task does not create or destroy a pool, and posts no task; its completion destroys one pool.\<close>

definition same_pools :: "('w, 'p) world \<Rightarrow> ('w, 'p) world \<Rightarrow> bool" where
  "same_pools wd wd' \<longleftrightarrow> wd_pools wd' = wd_pools wd \<and> wd_tasks wd' = wd_tasks wd"

lemma node_log_pools: "wd_pools (node_log D e wd) = wd_pools wd" "wd_tasks (node_log D e wd) = wd_tasks wd"
  by (simp_all add: node_log_def split: sum.split prod.split)

lemma thread_steps_pools:
  "same_pools wd (thread_insert_1 D d e wd)" "same_pools wd (snd (thread_insert_n_locked D b d wd))"
  "same_pools wd (snd (thread_n_insert D d rows wd))" "same_pools wd (snd (thread_n_unshift D e wd))"
  "same_pools wd (snd (thread_flush_locked D b wd))" "same_pools wd (thread_flush_insert D rows wd)"
  by (simp_all add: same_pools_def thread_insert_1_def thread_insert_n_locked_def thread_n_insert_def
      thread_n_unshift_def thread_flush_locked_def thread_flush_insert_def node_log_pools set_buf_def set_db_def
      wd_log_def Let_def split: option.split prod.split)

lemma thread_insert_n_pools: "same_pools wd (thread_insert_n D b d e wd)"
proof -
  obtain r w1 where 1: "thread_insert_n_locked D b d wd = (r, w1)" by (cases "thread_insert_n_locked D b d wd")
  obtain ri w2 where 2: "thread_n_insert D d (case r of None \<Rightarrow> [] | Some rows \<Rightarrow> rows) w1 = (ri, w2)"
    by (cases "thread_n_insert D d (case r of None \<Rightarrow> [] | Some rows \<Rightarrow> rows) w1")
  have s: "same_pools wd w1" "same_pools w1 w2"
    using thread_steps_pools(2) [of wd D b d] thread_steps_pools(3) [of w1 D d _] 1 2 by (metis snd_conv)+
  have "same_pools w2 (snd (thread_n_unshift D x w2))" for x by (rule thread_steps_pools(4))
  with s 1 2 show ?thesis
    by (auto simp: thread_insert_n_def same_pools_def split: option.split)
qed

lemma thread_flush_pools: "same_pools wd (thread_flush D b wd)"
proof -
  obtain r w1 where 1: "thread_flush_locked D b wd = (r, w1)" by (cases "thread_flush_locked D b wd")
  have "same_pools wd w1" using thread_steps_pools(5) [of wd D b] 1 by simp
  moreover have "same_pools w1 (thread_flush_insert D rows w1)" for rows by (rule thread_steps_pools(6))
  ultimately show ?thesis using 1 by (simp add: thread_flush_def same_pools_def split: option.split)
qed

lemma call_task_pools: "same_pools wd (call_task D t wd)"
  by (simp add: call_task_def thread_steps_pools(1) thread_insert_n_pools thread_flush_pools
      split: task_handler.split option.split) (simp add: same_pools_def)

text \<open>
  C35. A request in a worker with a thread pool creates a memory pool, if its filter lets it pass and
  the pool can be had, and only the completion of a posted task destroys one, whatever the task was.
  So each such request that posts no task leaves its pool behind: the request that only queues its
  entry, and every request that fails after that, without memory for its entry or its task or when
  the task cannot be posted.
\<close>

theorem async_request_pools:
  assumes "wd_tp wd" and "sv_enabled (wd_srv wd) \<noteq> 0" and "accepted D r wd"
    and "fst (create_pool wd)" and "handler D r wd = (rc, wd')"
  shows "wd_pools wd' = wd_pools wd + 1 \<and>
    (rc = NGX_OK \<and> (\<exists>t. wd_tasks wd' = wd_tasks wd @ [t]) \<or>
     wd_tasks wd' = wd_tasks wd \<and> (rc = NGX_OK \<longrightarrow> sv_buf (wd_srv wd) \<noteq> None)) \<and>
    (\<forall>w t ts. wd_tasks w = t # ts \<longrightarrow>
       wd_pools (run_task D w) = wd_pools w - 1 \<and> wd_tasks (run_task D w) = ts)"
proof -
  obtain w1 where p: "create_pool wd = (True, w1)" using assms(4) by (cases "create_pool wd") simp
  note pf = create_pool_frame [OF p]
  have h: "handler_entry D r w1 = (rc, wd')"
    using assms p by (auto simp: handler_def accepted_def Let_def split: option.splits)
  from pf have pools: "wd_pools w1 = wd_pools wd + 1" by simp
  from h have "wd_pools wd' = wd_pools wd + 1 \<and> (rc = NGX_OK \<and> (\<exists>t. wd_tasks wd' = wd_tasks wd @ [t]) \<or>
     wd_tasks wd' = wd_tasks wd \<and> (rc = NGX_OK \<longrightarrow> sv_buf (wd_srv wd) \<noteq> None))"
  proof (cases rule: handler_entry_cases)
    case (OK entry r' m)
    with handle_entry_pools [OF _ OK(2)] pf assms(1) pools show ?thesis by auto
  next
    case (No_entry s m)
    with handler_failed_keeps [OF No_entry(1)] pf pools show ?thesis by (simp add: keeps_def)
  next
    case (Not_handled entry rc1 w2 m line)
    with handle_entry_pools [OF _ Not_handled(1)] handler_failed_keeps [OF Not_handled(3)] pf assms(1) pools
    show ?thesis by (auto simp: keeps_def)
  qed
  moreover have "wd_pools (run_task D w) = wd_pools w - 1 \<and> wd_tasks (run_task D w) = ts"
    if "wd_tasks w = t # ts" for w :: "('a, 'b) world" and t ts
    using that call_task_pools [of "w\<lparr>wd_tasks := ts\<rparr>" D t]
    by (simp add: run_task_def thread_completed_def destroy_pool_def same_pools_def)
  ultimately show ?thesis by blast
qed

text \<open>A worker with a thread pool that only queues the entry, and one without memory for the task.\<close>

definition leaky_world :: "(nat \<times> int, slab_state) world" where
  "leaky_world = example_world full_sys (Some (example_buf 5)) True 8"

definition no_task_world :: "(nat \<times> int, slab_state) world" where
  "no_task_world = (example_world full_sys None True 8)\<lparr>wd_mem := replicate 6 True @ [False]\<rparr>"

lemma leaky_eval:
  "fst (handler (example_deps full_api) (example_request 150) leaky_world) = NGX_OK"
  "wd_tasks (snd (handler (example_deps full_api) (example_request 150) leaky_world)) = []"
  "fst (handler (example_deps full_api) (example_request 150) no_task_world) = NGX_ERROR"
  "wd_tasks (snd (handler (example_deps full_api) (example_request 150) no_task_world)) = []"
  by code_simp+

theorem async_request_pools_witness:
  "handler (example_deps full_api) (example_request 150) leaky_world =
     (NGX_OK, snd (handler (example_deps full_api) (example_request 150) leaky_world)) \<and>
   wd_pools (snd (handler (example_deps full_api) (example_request 150) leaky_world)) = 1 \<and>
   wd_tasks (snd (handler (example_deps full_api) (example_request 150) leaky_world)) = [] \<and>
   fst (handler (example_deps full_api) (example_request 150) no_task_world) = NGX_ERROR \<and>
   wd_pools (snd (handler (example_deps full_api) (example_request 150) no_task_world)) = 1"
proof -
  note use = async_request_pools [where D = "example_deps full_api" and r = "example_request 150",
      OF _ _ _ _ surjective_pairing]
  have "wd_tp leaky_world" "sv_enabled (wd_srv leaky_world) \<noteq> 0" "sv_filter (wd_srv leaky_world) = None"
    "wd_pools leaky_world = 0" "fst (create_pool leaky_world)"
    by (simp_all add: leaky_world_def) (simp_all add: example_world_def example_srv_def create_pool_def wd_palloc_def)
  moreover have "wd_tp no_task_world" "sv_enabled (wd_srv no_task_world) \<noteq> 0" "sv_filter (wd_srv no_task_world) = None"
    "wd_pools no_task_world = 0" "fst (create_pool no_task_world)"
    by (simp_all add: no_task_world_def example_world_def example_srv_def create_pool_def wd_palloc_def numeral_eq_Suc)
  ultimately show ?thesis
    using use [of leaky_world] use [of no_task_world] leaky_eval by (simp add: accepted_def prod_eq_iff)
qed

text \<open>
  C36. The connection of a worker with a thread pool goes stale: the task works on a copy of the
  database, so when it has to reopen the moved file, it closes the connection that the worker
  still holds, and the worker's own record is not updated.
\<close>

theorem task_leaves_stale_connection:
  assumes "conn_law (dp_sqlite D) conns" and "wd_db wd = d" and "db_conn d = Some c"
    and "try_insert (dp_sqlite D) d e (wd_sys wd) = (rc, s1)" and "rc \<noteq> SQLITE_OK"
    and "s3_extended_errcode (dp_sqlite D) (Some c) (sq s1) = SQLITE_READONLY_DBMOVED"
    and "db_init (dp_sqlite D) d s1 = (SQLITE_OK, d2, s2)" and "db_conn d2 \<noteq> Some c"
  shows "db_conn (wd_db (thread_insert_1 D d e wd)) = Some c \<and> c \<notin> conns (sq s2) \<and>
    sq (wd_sys (thread_insert_1 D d e wd)) = sq (snd (try_insert (dp_sqlite D) d2 e s2))"
proof -
  obtain rc2 s3 where t: "try_insert (dp_sqlite D) d2 e s2 = (rc2, s3)" by (cases "try_insert (dp_sqlite D) d2 e s2")
  have "db_insert (dp_sqlite D) d e (wd_sys wd) = (rc2, d2, s3)"
    using row.retried [OF assms(4,5) _ assms(7) t] assms(3,6) by simp
  then have "db_conn (wd_db (thread_insert_1 D d e wd)) = Some c"
    "sq (wd_sys (thread_insert_1 D d e wd)) = sq s3"
    using assms(2,3) by (simp_all add: thread_insert_1_def Let_def)
  moreover have "c \<notin> conns (sq s2)"
  proof
    assume "c \<in> conns (sq s2)"
    with assms(8) have "c \<in> others conns d2 s2" by (auto simp: others_def)
    with db_init_conns [OF assms(1,7)] have "c \<in> others conns d s1" by simp
    with assms(3) show False by (simp add: others_def)
  qed
  ultimately show ?thesis using t by simp
qed

text \<open>
  A SQLite reduced to its connections: the next number, the open ones, and whether the file has been
  moved since the last was opened.
\<close>

definition moved_api :: "(nat \<times> nat list \<times> bool) sqlite" where
  "moved_api = \<lparr>
     s3_open_v2 = \<lambda>f fl (n, cs, mv). let c = Suc (fold max cs n) in (SQLITE_OK, Some c, (c, c # cs, False)),
     s3_prepare_v2 = \<lambda>c sql w. (SQLITE_OK, Some 1, w),
     s3_bind_text = \<lambda>st i v w. (SQLITE_OK, w), s3_bind_blob = \<lambda>st i v w. (SQLITE_OK, w),
     s3_bind_null = \<lambda>st i w. (SQLITE_OK, w),
     s3_step = \<lambda>st (n, cs, mv). (if mv then 8 else SQLITE_DONE, (n, cs, mv)),
     s3_finalize = \<lambda>st w. (SQLITE_OK, w), s3_busy_timeout = \<lambda>c ms w. (SQLITE_OK, w),
     s3_exec = \<lambda>c sql w. (SQLITE_OK, w),
     s3_close = \<lambda>c (n, cs, mv). (SQLITE_OK, (n, filter (\<lambda>x. Some x \<noteq> c) cs, mv)),
     s3_wal_checkpoint_v2 = \<lambda>c e w. (SQLITE_OK, w), s3_errmsg = \<lambda>c w. ''moved'',
     s3_extended_errcode = \<lambda>c (n, cs, mv). if mv then SQLITE_READONLY_DBMOVED else SQLITE_OK,
     s3_column_count = \<lambda>st w. 1, s3_column_text = \<lambda>st i w. [], s3_column_int = \<lambda>st i w. 0,
     os_random = \<lambda>w. (0, w), os_msleep = \<lambda>ms w. w\<rparr>"

definition moved_conns :: "nat \<times> nat list \<times> bool \<Rightarrow> conn set" where
  "moved_conns w = set (fst (snd w))"

lemma moved_conn_law: "conn_law moved_api moved_conns"
proof -
  have "Suc (fold max cs n) \<notin> set cs" for cs and n :: nat
    using fold_max_ge [of _ cs n] by (metis not_less_eq_eq order_refl)
  then show ?thesis
    by (auto simp: conn_law_def conn_open_law_def conn_close_law_def moved_api_def moved_conns_def Let_def
        split: prod.splits)
qed

definition moved_world :: "(nat \<times> nat list \<times> bool, slab_state) world" where
  "moved_world = example_world \<lparr>sq = (1, [1], True), elog = [], ub = False\<rparr> None True 8"

lemma moved_eval:
  "fst (try_insert moved_api mem_db example_entry (wd_sys moved_world)) = 8"
  "sq (snd (try_insert moved_api mem_db example_entry (wd_sys moved_world))) = (1, [1], True)"
  "fst (db_init moved_api mem_db (snd (try_insert moved_api mem_db example_entry (wd_sys moved_world)))) = SQLITE_OK"
  "db_conn (fst (snd (db_init moved_api mem_db (snd (try_insert moved_api mem_db example_entry (wd_sys moved_world)))))) = Some 2"
  by code_simp+

theorem task_leaves_stale_connection_witness:
  "db_conn (wd_db (thread_insert_1 (example_deps moved_api) mem_db example_entry moved_world)) = Some 1"
proof -
  define s1 where "s1 = snd (try_insert moved_api mem_db example_entry (wd_sys moved_world))"
  have t: "try_insert moved_api mem_db example_entry (wd_sys moved_world) = (8, s1)"
    using moved_eval(1) by (metis s1_def prod.collapse)
  obtain rc d2 s2 where i: "db_init moved_api mem_db s1 = (rc, d2, s2)" by (cases "db_init moved_api mem_db s1") auto
  have r: "rc = SQLITE_OK" "db_conn d2 = Some 2" "sq s1 = (1, [1], True)"
    using moved_eval i by (simp_all add: s1_def)
  show ?thesis
    using task_leaves_stale_connection [of "example_deps moved_api" moved_conns moved_world mem_db 1
        example_entry 8 s1 d2 s2] moved_conn_law t i r
    by (simp add: moved_world_def) (simp add: moved_api_def)
qed


lemma fired_simps [simp]: "buf_flush (fired b) = buf_flush b" "buf_max (fired b) = buf_max b"
  by (simp_all add: fired_def)








end
