(* ===== verification/Worker.thy ===== *)
theory Worker
  imports Delivery
begin

text \<open>
  The life of a worker process: what \<open>ngx_http_sqlitelog_module.c\<close> does for one server when a
  worker starts (the body of the loop in \<open>init_worker\<close>) and when it exits (the body of the loop in
  \<open>exit_worker\<close>). Theory Process has the loops, over servers that may share buffers.
\<close>

section \<open>Start\<close>

text \<open>
  One iteration of the loop over the servers. The pointer to the database that the flush context
  gets here is set in theory Process (\<open>init_slot\<close>), where buffers are shared.
\<close>

definition init_worker_srv :: "'w sqlite \<Rightarrow> int \<Rightarrow> srv \<Rightarrow> 'w sys \<Rightarrow> srv \<times> 'w sys" where
  "init_worker_srv S pid sv s =
     (if sv_enabled sv = 0 then (sv, s)
      else
        let (rc_init, d, s) = db_init S (sv_db sv) s; sv = sv\<lparr>sv_db := d\<rparr>
        in if rc_init \<noteq> SQLITE_OK
           then (sv\<lparr>sv_enabled := 0\<rparr>,
             log_error ''sqlitelog: worker process %d failed to initialize database \"%V\"''
               [Arg_d pid, Arg_V (db_filename d)] s)
           else
             (case sv_buf sv of
                None \<Rightarrow> (sv, s)
              | Some b \<Rightarrow>
                  if buf_flush b \<noteq> 0 then (sv\<lparr>sv_buf := Some (buf_timer_start b)\<rparr>, s) else (sv, s)))"

section \<open>Exit\<close>

text \<open>
  The buffered transaction of one server: steps 1 to 4 under the lock, and step 5.
\<close>

definition exit_take :: "('w, 'p, 'l) deps \<Rightarrow> buf \<Rightarrow> ('w, 'p) world \<Rightarrow> ngx_str list list option \<times> ('w, 'p) world" where
  "exit_take D b wd =
     (let (len, sh) = buf_get_len_locked (shmtx_lock (wd_sh wd))
      in if len = 0 then (None, wd\<lparr>wd_sh := shmtx_unlock sh\<rparr>)
         else
           let (rc_list, sh, m) = buf_list_locked (dp_slab D) (dp_list D)
                 (length (fmt_columns (db_fmt (wd_db wd)))) (wd_mem wd) sh;
               wd = wd\<lparr>wd_mem := m\<rparr>
           in case rc_list of
                None \<Rightarrow> (None,
                  wd\<lparr>wd_sys := log_error
                       ''sqlitelog: worker process %d failed to create list for database \"%V\"''
                       [Arg_d (dp_pid D), Arg_V (db_filename (wd_db wd))] (wd_sys wd),
                     wd_sh := shmtx_unlock sh\<rparr>)
              | Some l \<Rightarrow>
                  (Some (li_parts (dp_list D) l),
                   set_buf (if buf_flush b \<noteq> 0 then buf_timer_stop b else b) (wd\<lparr>wd_sh := shmtx_unlock sh\<rparr>)))"

definition exit_insert :: "('w, 'p, 'l) deps \<Rightarrow> ngx_str list list \<Rightarrow> ('w, 'p) world \<Rightarrow> ('w, 'p) world" where
  "exit_insert D rows wd =
     (let (rc_insert, d, s) = db_insert_list (dp_sqlite D) (wd_db wd) rows (wd_sys wd);
          wd = set_db d (wd\<lparr>wd_sys := s\<rparr>)
      in if rc_insert \<noteq> SQLITE_OK
         then wd\<lparr>wd_sys := log_error
           ''sqlitelog: worker process %d failed to execute buffered transaction on database \"%V\"''
           [Arg_d (dp_pid D), Arg_V (db_filename (wd_db wd))] (wd_sys wd)\<rparr>
         else wd)"

definition exit_buffer :: "('w, 'p, 'l) deps \<Rightarrow> buf \<Rightarrow> ('w, 'p) world \<Rightarrow> ('w, 'p) world" where
  "exit_buffer D b wd =
     (case exit_take D b wd of (None, wd) \<Rightarrow> wd | (Some rows, wd) \<Rightarrow> exit_insert D rows wd)"

definition exit_checkpoint :: "('w, 'p, 'l) deps \<Rightarrow> ('w, 'p) world \<Rightarrow> ('w, 'p) world" where
  "exit_checkpoint D wd =
     (let (rc_ckpt, s) = db_checkpoint (dp_sqlite D) (wd_db wd) (wd_sys wd)
      in wd\<lparr>wd_sys := (if rc_ckpt \<noteq> SQLITE_OK
           then log_error
             ''sqlitelog: worker process %d failed to execute WAL checkpoint on database \"%V\"''
             [Arg_d (dp_pid D), Arg_V (db_filename (wd_db wd))] s
           else s)\<rparr>)"

definition exit_close :: "('w, 'p, 'l) deps \<Rightarrow> ('w, 'p) world \<Rightarrow> ('w, 'p) world" where
  "exit_close D wd =
     (if db_conn (wd_db wd) = None then wd
      else
        let (rc_close, d, s) = db_close (dp_sqlite D) (wd_db wd) (wd_sys wd);
            wd = set_db d (wd\<lparr>wd_sys := s\<rparr>)
        in if rc_close \<noteq> SQLITE_OK
           then wd\<lparr>wd_sys := log_error
             ''sqlitelog: worker process %d failed to close database connection on \"%V\"''
             [Arg_d (dp_pid D), Arg_V (db_filename (wd_db wd))] (wd_sys wd)\<rparr>
           else wd)"

definition exit_srv :: "('w, 'p, 'l) deps \<Rightarrow> ('w, 'p) world \<Rightarrow> ('w, 'p) world" where
  "exit_srv D wd =
     (if sv_enabled (wd_srv wd) = 0 then wd
      else exit_close D (exit_checkpoint D
        (case (db_conn (wd_db wd), sv_buf (wd_srv wd)) of
           (Some c, Some b) \<Rightarrow> exit_buffer D b wd
         | _ \<Rightarrow> wd)))"

section \<open>Start: proofs\<close>

text \<open>Every server that is enabled after the start has a connection, and its flush timer runs.\<close>

definition srv_started :: "srv \<Rightarrow> bool" where
  "srv_started sv \<longleftrightarrow> sv_enabled sv = 0 \<or>
     db_conn (sv_db sv) \<noteq> None \<and>
     (\<forall>b ev. sv_buf sv = Some b \<and> buf_event b = Some ev \<and> buf_flush b \<noteq> 0 \<longrightarrow> timer_set ev)"

lemma timer_start_on:
  "buf_event (buf_timer_start b) = Some ev \<Longrightarrow> buf_flush b \<noteq> 0 \<Longrightarrow> timer_set ev"
  by (auto simp: buf_timer_start_def split: option.splits if_splits)

lemma timer_start_flush [simp]: "buf_flush (buf_timer_start b) = buf_flush b"
  by (auto simp: buf_timer_start_def split: option.splits)

lemma init_worker_srv_spec:
  assumes law: "conn_law S conns" and fresh: "db_conn (sv_db sv) = None"
    and run: "init_worker_srv S pid sv s = (sv', s')"
  shows "srv_started sv' \<and> (sv_enabled sv' = sv_enabled sv \<or> sv_enabled sv' = 0) \<and>
    conns (sq s') = conns (sq s) \<union> set_option (db_conn (sv_db sv'))"
proof (cases "sv_enabled sv = 0")
  case True
  with run fresh show ?thesis by (simp add: init_worker_srv_def srv_started_def)
next
  case False
  obtain rc d s1 where i: "db_init S (sv_db sv) s = (rc, d, s1)" by (cases "db_init S (sv_db sv) s") auto
  have own: "conns (sq s1) = conns (sq s) \<union> set_option (db_conn d)" and ok: "rc = SQLITE_OK \<longrightarrow> db_conn d \<noteq> None"
    using db_init_conns [OF law i] fresh by (auto simp: others_def owns_def)
  have s': "sq s' = sq s1" and d: "sv_db sv' = d"
    using run i False by (auto simp: init_worker_srv_def Let_def split: if_splits option.splits)
  have "srv_started sv'"
    using run i False ok by (auto simp: init_worker_srv_def srv_started_def Let_def timer_start_on
        split: if_splits option.splits)
  moreover have "sv_enabled sv' = sv_enabled sv \<or> sv_enabled sv' = 0"
    using run i False by (auto simp: init_worker_srv_def Let_def split: if_splits option.splits)
  ultimately show ?thesis using own s' d by simp
qed

section \<open>Exit: proofs\<close>

lemma exit_take_spec:
  assumes ok: "world_ok z D wd" and run: "exit_take D b wd = (r, wd')"
  shows "world_ok z D wd' \<and> wd_tasks wd' = wd_tasks wd \<and> wd_tp wd' = wd_tp wd \<and> wd_db wd' = wd_db wd \<and>
    sq (wd_sys wd') = sq (wd_sys wd) \<and> (ample (wd_mem wd) \<longrightarrow> ample (wd_mem wd')) \<and>
    (case r of
       None \<Rightarrow> entries (wd_sh wd') = entries (wd_sh wd) \<and> (entries (wd_sh wd) = [] \<or> \<not> ample (wd_mem wd))
     | Some rows \<Rightarrow> entries (wd_sh wd) \<noteq> [] \<and> rows = entries (wd_sh wd) \<and> entries (wd_sh wd') = [])"
proof -
  note w = world_ok_parts [OF ok]
  obtain len s1 where g: "buf_get_len_locked (shmtx_lock (wd_sh wd)) = (len, s1)"
    by (cases "buf_get_len_locked (shmtx_lock (wd_sh wd))")
  have gf: "zone_held z s1" "entries s1 = entries (wd_sh wd)" "len = int (length (entries (wd_sh wd)))"
    using get_len_held [OF zone_lock [OF w(1)] g] by simp_all
  show ?thesis
  proof (cases "entries (wd_sh wd) = []")
    case True
    have "zone_ready z (shmtx_unlock s1)" using gf(1) by (rule zone_unlock)
    with True run g gf world_ok_sh [OF ok, of "wd\<lparr>wd_sh := shmtx_unlock s1\<rparr>"] show ?thesis
      by (auto simp: exit_take_def)
  next
    case ne: False
    obtain rl s2 m where l: "buf_list_locked (zn_slab z) (zn_list z) (zn_width z) (wd_mem wd) s1 = (rl, s2, m)"
      by (cases "buf_list_locked (zn_slab z) (zn_list z) (zn_width z) (wd_mem wd) s1") auto
    note lf = list_held [OF gf(1) l]
    have law: "list_law (zn_list z) (zn_nalloc z)" using w(1) by (simp add: zone_ready_def zone_good_def)
    have rest: "ample (wd_mem wd) \<Longrightarrow> ample m" using list_locked_ample_rest [OF law _ l] by simp
    have w': "r = map_option (li_parts (zn_list z)) rl" "wd_sh wd' = shmtx_unlock s2" "wd_mem wd' = m"
      "wd_db wd' = wd_db wd" "sq (wd_sys wd') = sq (wd_sys wd)" "wd_tasks wd' = wd_tasks wd" "wd_tp wd' = wd_tp wd"
      using run g gf(3) ne l w by (auto simp: exit_take_def Let_def split: option.splits)
    have "zone_ready z (shmtx_unlock s2)" using lf(1) by (rule zone_unlock)
    with w' have "world_ok z D wd'" by (intro world_ok_sh [OF ok]) simp_all
    with w' lf(2,3) gf(2) ne rest show ?thesis by (cases rl) (auto simp: rows_of_def)
  qed
qed

lemma exit_insert_spec:
  assumes "exit_insert D rows wd = wd'"
  shows "keeps wd wd' \<and> wd_mem wd' = wd_mem wd \<and>
    (\<exists>rc s. db_insert_list (dp_sqlite D) (wd_db wd) rows (wd_sys wd) = (rc, wd_db wd', s) \<and> sq (wd_sys wd') = sq s)"
  using assms by (auto simp: exit_insert_def Let_def keeps_def same_config_def dest!: db_insert_list_config
      split: prod.splits if_splits)

lemma exit_buffer_spec:
  assumes ok: "world_ok z D wd" and mem: "ample (wd_mem wd)" and run: "exit_buffer D b wd = wd'"
  shows "world_ok z D wd' \<and> ample (wd_mem wd') \<and> entries (wd_sh wd') = [] \<and>
    (entries (wd_sh wd) = [] \<and> sq (wd_sys wd') = sq (wd_sys wd) \<and> wd_db wd' = wd_db wd \<or>
     (\<exists>rc s. db_insert_list (dp_sqlite D) (wd_db wd) (entries (wd_sh wd)) (wd_sys wd) = (rc, wd_db wd', s) \<and>
        sq (wd_sys wd') = sq s))"
proof -
  obtain r w1 where t: "exit_take D b wd = (r, w1)" by (cases "exit_take D b wd")
  note ts = exit_take_spec [OF ok t]
  show ?thesis
  proof (cases r)
    case None
    with run t ts mem show ?thesis by (simp add: exit_buffer_def)
  next
    case (Some rows)
    then have i: "exit_insert D rows w1 = wd'" using run t by (simp add: exit_buffer_def)
    note ins = exit_insert_spec [OF i]
    have sys: "wd_sys w1 = wd_sys wd"
      using t Some by (auto simp: exit_take_def Let_def split: prod.splits if_splits option.splits)
    have "world_ok z D wd'" using ins ts keeps_ok by blast
    with ins ts mem Some sys show ?thesis by (auto simp: keeps_def)
  qed
qed

lemma exit_close_spec:
  assumes "exit_close D wd = wd'"
  shows "keeps wd wd' \<and> wd_mem wd' = wd_mem wd \<and> sv_enabled (wd_srv wd') = sv_enabled (wd_srv wd)"
  using assms by (auto simp: exit_close_def Let_def keeps_def same_config_def dest!: db_close_config
      split: prod.splits if_splits)

lemma exit_end_spec: "keeps wd (exit_close D (exit_checkpoint D wd))"
proof -
  have "keeps wd (exit_checkpoint D wd)" by (auto simp: exit_checkpoint_def keeps_def split: prod.splits)
  then show ?thesis using keeps_trans exit_close_spec [OF refl] by blast
qed

lemma exit_srv_spec:
  assumes ok: "world_ok z D wd" and mem: "ample (wd_mem wd)" and run: "exit_srv D wd = wd'"
  shows "world_ok z D wd' \<and> ample (wd_mem wd') \<and> entries (wd_sh wd') \<in> {entries (wd_sh wd), []} \<and>
    (sv_enabled (wd_srv wd) \<noteq> 0 \<and> db_conn (wd_db wd) \<noteq> None \<and> sv_buf (wd_srv wd) \<noteq> None \<longrightarrow>
      entries (wd_sh wd') = [])"
proof (cases "sv_enabled (wd_srv wd) = 0")
  case True
  with ok mem run show ?thesis by (simp add: exit_srv_def)
next
  case False
  define w1 where "w1 = (case (db_conn (wd_db wd), sv_buf (wd_srv wd)) of
    (Some c, Some b) \<Rightarrow> exit_buffer D b wd | _ \<Rightarrow> wd)"
  have 1: "world_ok z D w1 \<and> ample (wd_mem w1) \<and> entries (wd_sh w1) \<in> {entries (wd_sh wd), []} \<and>
    (db_conn (wd_db wd) \<noteq> None \<and> sv_buf (wd_srv wd) \<noteq> None \<longrightarrow> entries (wd_sh w1) = [])"
    using ok mem exit_buffer_spec [OF ok mem refl] by (auto simp: w1_def split: option.split)
  have "wd' = exit_close D (exit_checkpoint D w1)"
    using run False by (simp add: exit_srv_def w1_def)
  moreover define s where "s = wd_sys (exit_checkpoint D w1)"
  have "exit_checkpoint D w1 = w1\<lparr>wd_sys := s\<rparr>"
    by (simp add: s_def exit_checkpoint_def split: prod.splits)
  ultimately have k: "keeps (w1\<lparr>wd_sys := s\<rparr>) wd'" "wd_mem wd' = wd_mem w1"
    using exit_close_spec [of D "w1\<lparr>wd_sys := s\<rparr>" wd'] by simp_all
  have "world_ok z D wd'" using keeps_ok [OF k(1), of z D] 1 by simp
  with k 1 show ?thesis by (auto simp: keeps_def)
qed

end
