(* ===== verification/Concurrency.thy ===== *)
theory Concurrency
  imports Worker
begin

text \<open>
  The atomic actions of one worker without a thread pool: the critical sections of its handlers
  and the work between them. Atomicity of a critical section is the mutex: theory Delivery shows
  that the zone is only touched while it is held. Every action accounts for the entries it meets,
  and the handlers are sequences of actions. Theory Site lets the actions of several workers
  interleave, theory Threads adds the actions of thread pools.
\<close>

section \<open>The actions of one worker\<close>

text \<open>
  Where a worker is between two actions. The request handler goes from \<open>Building\<close> its log entry to
  \<open>Handling\<close> it; \<open>Inserting\<close> and \<open>Unshifting\<close> are steps 5 and 6 of \<open>handle_n\<close> (with the entry still
  to be put back, if any); \<open>Reporting\<close> is before the error line of the request handler, \<open>Failing\<close> its
  label \<open>failed\<close>. The handler of the flush event starts at \<open>Expired\<close>, after nginx has cleared the
  timer, and goes on with \<open>Flush_due\<close> and \<open>Flushing\<close>. A worker that exits goes from \<open>Idle\<close> to
  \<open>Exit_inserting\<close>, if it took the queue, and by \<open>Exit_due\<close>, before the checkpoint, to \<open>Exited\<close>.
\<close>

datatype pc =
    Idle
  | Building request
  | Handling "ngx_str list"
  | Inserting "ngx_str list list" "ngx_str list option"
  | Unshifting "ngx_str list"
  | Reporting
  | Failing
  | Expired
  | Flush_due
  | Flushing "ngx_str list list"
  | Exit_inserting "ngx_str list list"
  | Exit_due
  | Exited

text \<open>What an action does with entries: they arrive, are committed, or are dropped on an error.\<close>

datatype event_of_entry =
    Received "ngx_str list"
  | Stored "ngx_str list list"
  | Lost "ngx_str list list"

fun received :: "event_of_entry list \<Rightarrow> ngx_str list list" where
  "received [] = []"
| "received (Received e # evs) = e # received evs"
| "received (_ # evs) = received evs"

fun stored :: "event_of_entry list \<Rightarrow> ngx_str list list" where
  "stored [] = []"
| "stored (Stored es # evs) = es @ stored evs"
| "stored (_ # evs) = stored evs"

fun lost :: "event_of_entry list \<Rightarrow> ngx_str list list" where
  "lost [] = []"
| "lost (Lost es # evs) = es @ lost evs"
| "lost (_ # evs) = lost evs"

lemma events_append [simp]:
  "received (xs @ ys) = received xs @ received ys" "stored (xs @ ys) = stored xs @ stored ys"
  "lost (xs @ ys) = lost xs @ lost ys"
  by (induction xs rule: received.induct) simp_all

inductive act ::
  "('w, 'p, 'l) deps \<Rightarrow> pc \<Rightarrow> ('w, 'p) world \<Rightarrow> event_of_entry list \<Rightarrow> pc \<Rightarrow> ('w, 'p) world \<Rightarrow> bool"
  for D where
  Begin: "sv_enabled (wd_srv wd) \<noteq> 0 \<Longrightarrow> accepted D r wd \<Longrightarrow> \<not> wd_tp wd \<Longrightarrow> act D Idle wd [] (Building r) wd"
| Build: "build D r wd = (Inr e, r', m) \<Longrightarrow>
    act D (Building r) wd [Received e] (Handling e) (wd\<lparr>wd_mem := m\<rparr>)"
| Build_error: "build D r wd = (Inl fault, r', m) \<Longrightarrow>
    act D (Building r) wd [] Failing (wd\<lparr>wd_mem := m, wd_sys := (log_error
      ''sqlitelog: failed to get log entry for request, '' [] (wd_sys wd))
      \<lparr>ub := (ub (wd_sys wd) \<or> fault = Overrun)\<rparr>\<rparr>)"
| Queue: "\<not> wd_tp wd \<Longrightarrow> sv_buf (wd_srv wd) = Some b \<Longrightarrow> handle_n_locked D b e wd = (Inl NGX_OK, wd') \<Longrightarrow>
    act D (Handling e) wd [] Idle wd'"
| Queue_error: "\<not> wd_tp wd \<Longrightarrow> sv_buf (wd_srv wd) = Some b \<Longrightarrow> handle_n_locked D b e wd = (Inl NGX_ERROR, wd') \<Longrightarrow>
    act D (Handling e) wd (if entries (wd_sh wd') = entries (wd_sh wd) then [Lost [e]] else []) Reporting wd'"
| Take: "\<not> wd_tp wd \<Longrightarrow> sv_buf (wd_srv wd) = Some b \<Longrightarrow>
    handle_n_locked D b e wd = (Inr (rows, rc_push), wd') \<Longrightarrow>
    act D (Handling e) wd [] (Inserting rows (if rc_push = NGX_ERROR then Some e else None)) wd'"
| Insert: "handle_n_insert D rows wd = (NGX_OK, wd') \<Longrightarrow>
    act D (Inserting rows u) wd [Stored (real_rows rows)]
      (case u of None \<Rightarrow> Idle | Some e \<Rightarrow> Unshifting e) wd'"
| Insert_error: "handle_n_insert D rows wd = (NGX_ERROR, wd') \<Longrightarrow>
    act D (Inserting rows u) wd [Lost (real_rows rows @ (case u of None \<Rightarrow> [] | Some e \<Rightarrow> [e]))]
      Reporting wd'"
| Unshift: "handle_n_unshift D e wd = (NGX_OK, wd') \<Longrightarrow> act D (Unshifting e) wd [] Idle wd'"
| Unshift_error: "handle_n_unshift D e wd = (NGX_ERROR, wd') \<Longrightarrow>
    act D (Unshifting e) wd [Lost [e]] Reporting wd'"
| Report: "act D Reporting wd [] Failing (wd_log ''sqlitelog: failed to handle log entry for database \"%V\"'' wd)"
| Fail: "handler_failed D wd = (rc, wd') \<Longrightarrow> act D Failing wd [] Idle wd'"
| Expire: "sv_buf (wd_srv wd) = Some b \<Longrightarrow> buf_event b = Some ev \<Longrightarrow> timer_set ev \<Longrightarrow>
    act D Idle wd [] Expired (set_buf (fired b) wd)"
| Flush_check: "\<not> wd_tp wd \<Longrightarrow> sv_buf (wd_srv wd) = Some b \<Longrightarrow> buf_get_len (wd_sh wd) = (len, sh) \<Longrightarrow>
    act D Expired wd [] (if len = 0 then Idle else Flush_due)
      (if len = 0 then set_buf (buf_timer_reset b) (wd\<lparr>wd_sh := sh\<rparr>) else wd\<lparr>wd_sh := sh\<rparr>)"
| Flush_take: "sv_buf (wd_srv wd) = Some b \<Longrightarrow> buf_flush_locked D b wd = (r, wd') \<Longrightarrow>
    act D Flush_due wd [] (case r of None \<Rightarrow> Idle | Some rows \<Rightarrow> Flushing rows) wd'"
| Flush_insert: "fst (db_insert_list (dp_sqlite D) (wd_db wd) rows (wd_sys wd)) = rc \<Longrightarrow>
    act D (Flushing rows) wd [if rc = SQLITE_OK then Stored rows else Lost rows] Idle
      (buf_flush_insert D rows wd)"
| Exit_skip: "sv_enabled (wd_srv wd) \<noteq> 0 \<Longrightarrow> db_conn (wd_db wd) = None \<or> sv_buf (wd_srv wd) = None \<Longrightarrow>
    act D Idle wd [] Exit_due wd"
| Exit_take: "sv_enabled (wd_srv wd) \<noteq> 0 \<Longrightarrow> db_conn (wd_db wd) \<noteq> None \<Longrightarrow> sv_buf (wd_srv wd) = Some b \<Longrightarrow>
    exit_take D b wd = (r, wd') \<Longrightarrow>
    act D Idle wd [] (case r of None \<Rightarrow> Exit_due | Some rows \<Rightarrow> Exit_inserting rows) wd'"
| Exit_insert: "fst (db_insert_list (dp_sqlite D) (wd_db wd) rows (wd_sys wd)) = rc \<Longrightarrow>
    act D (Exit_inserting rows) wd [if rc = SQLITE_OK then Stored rows else Lost rows] Exit_due
      (exit_insert D rows wd)"
| Exit_end: "act D Exit_due wd [] Exited (exit_close D (exit_checkpoint D wd))"

inductive_cases act_idleE: "act D Idle wd evs pc' wd'"
inductive_cases act_failingE: "act D Failing wd evs pc' wd'"

text \<open>A worker that fails ends up disabled, and a disabled worker begins no request.\<close>

lemma failing_disables: "act D Failing wd evs pc' wd' \<Longrightarrow> pc' = Idle \<and> sv_enabled (wd_srv wd') = 0"
  by (erule act_failingE) (simp add: handler_failed_keeps)

lemma disabled_only_flushes: "act D Idle wd evs pc' wd' \<Longrightarrow> sv_enabled (wd_srv wd) = 0 \<Longrightarrow> evs = [] \<and> pc' = Expired"
  by (erule act_idleE) auto

text \<open>The entries a worker has in its hands.\<close>

fun in_flight :: "pc \<Rightarrow> ngx_str list list" where
  "in_flight (Handling e) = [e]"
|  "in_flight (Inserting rows u) = real_rows rows @ (case u of None \<Rightarrow> [] | Some e \<Rightarrow> [e])"
| "in_flight (Unshifting e) = [e]"
| "in_flight (Flushing rows) = rows"
| "in_flight (Exit_inserting rows) = rows"
| "in_flight _ = []"

text \<open>
  Rows have one field per column; the one empty row is the list of an empty queue, which no flush
  takes. \<open>pc_fits n\<close>: what a worker holds fits a table with \<open>n\<close> columns.
\<close>

definition rows_fit :: "nat \<Rightarrow> ngx_str list list \<Rightarrow> bool" where
  "rows_fit n rows \<longleftrightarrow> rows = [[]] \<or> (\<forall>r\<in>set rows. length r = n)"

lemma rows_fit_of: "\<forall>r\<in>set q. length r = n \<Longrightarrow> rows_fit n (rows_of q) \<and> rows_fit n q"
  by (simp add: rows_fit_def rows_of_def)

fun pc_fits :: "nat \<Rightarrow> pc \<Rightarrow> bool" where
  "pc_fits n (Handling e) = (length e = n)"
| "pc_fits n (Inserting rows u) = (rows_fit n rows \<and> (\<forall>e. u = Some e \<longrightarrow> length e = n))"
| "pc_fits n (Unshifting e) = (length e = n)"
| "pc_fits n (Flushing rows) = (\<forall>r\<in>set rows. length r = n)"
| "pc_fits n (Exit_inserting rows) = (\<forall>r\<in>set rows. length r = n)"
| "pc_fits n _ = True"

section \<open>One action\<close>

text \<open>
  An action accounts for every entry: before and after, plus what arrived, was stored, was lost.
\<close>

definition accounted ::
  "pc \<Rightarrow> ('w, 'p) world \<Rightarrow> event_of_entry list \<Rightarrow> pc \<Rightarrow> ('w, 'p) world \<Rightarrow> bool" where
  "accounted pc wd evs pc' wd' \<longleftrightarrow>
     mset (received evs) + mset (entries (wd_sh wd)) + mset (in_flight pc) =
     mset (stored evs) + mset (lost evs) + mset (entries (wd_sh wd')) + mset (in_flight pc')"

lemma real_rows_full: "\<forall>e\<in>set q. e \<noteq> [] \<Longrightarrow> real_rows q = q"
  by (cases q) (auto simp: real_rows_def)

lemma handle_n_locked_ok:
  assumes ok: "world_ok z D wd" and len: "length e = zn_width z" and run: "handle_n_locked D b e wd = (r, wd')"
  shows "world_ok z D wd'"
proof -
  note w = world_ok_parts [OF ok]
  have "wd_tasks wd' = wd_tasks wd"
    using run by (auto simp: handle_n_locked_def Let_def split: prod.splits if_splits option.splits)
  with handle_n_locked_spec [OF w(1,2) len run] show ?thesis
    by (intro world_ok_sh [OF ok]) simp_all
qed

lemma handle_n_unshift_ok:
  assumes ok: "world_ok z D wd" and len: "length e = zn_width z" and run: "handle_n_unshift D e wd = (rc, wd')"
  shows "world_ok z D wd'"
proof -
  have "wd_tasks wd' = wd_tasks wd"
    using run by (auto simp: handle_n_unshift_def Let_def split: prod.splits if_splits)
  with handle_n_unshift_spec [OF world_ok_parts(1) [OF ok] _ len run] world_ok_parts(3) [OF ok] show ?thesis
    by (intro world_ok_sh [OF ok]) simp_all
qed

lemma act_accounted:
  assumes "act D pc wd evs pc' wd'" and "world_ok z D wd" and "pc_fits (zn_width z) pc"
  shows "world_ok z D wd' \<and> pc_fits (zn_width z) pc' \<and> accounted pc wd evs pc' wd'"
  using assms
proof (induction rule: act.induct)
  case (Begin wd r)
  then show ?case by (simp add: accounted_def)
next
  case (Build r wd e r' m)
  have "length e = zn_width z" using log_entry_length [OF Build(1)] world_ok_parts(5) [OF Build(2)] by simp
  with Build(2) show ?case by (simp add: accounted_def)
next
  case (Build_error r wd fault r' m)
  then show ?case by (simp add: accounted_def)
next
  case (Queue wd b e wd')
  note w = world_ok_parts [OF Queue(4)]
  have len: "length e = zn_width z" using Queue(5) by simp
  from handle_n_locked_spec [OF w(1,2) len Queue(3)] handle_n_locked_ok [OF Queue(4) len Queue(3)]
  show ?case by (simp add: accounted_def)
next
  case (Queue_error wd b e wd')
  note w = world_ok_parts [OF Queue_error(4)]
  have len: "length e = zn_width z" using Queue_error(5) by simp
  from handle_n_locked_spec [OF w(1,2) len Queue_error(3)] handle_n_locked_ok [OF Queue_error(4) len Queue_error(3)]
  show ?case by (auto simp: accounted_def)
next
  case (Take wd b e rows rc_push wd')
  note w = world_ok_parts [OF Take(4)]
  have len: "length e = zn_width z" using Take(5) by simp
  note r = ready_entries [OF w(1)]
  have "e \<noteq> []" using len r(2) by auto
  then have full: "real_rows (rows_of (entries (wd_sh wd))) = entries (wd_sh wd)"
    "real_rows (entries (wd_sh wd) @ [e]) = entries (wd_sh wd) @ [e]"
    using r(3) by (auto simp: real_rows_of real_rows_full)
  have fit: "rows_fit (zn_width z) (rows_of (entries (wd_sh wd)))"
    "rows_fit (zn_width z) (entries (wd_sh wd) @ [e])"
    using rows_fit_of [OF r(1)] r(1) len by (auto simp: rows_fit_def)
  from handle_n_locked_spec [OF w(1,2) len Take(3)] handle_n_locked_ok [OF Take(4) len Take(3)] full fit len
  show ?case by (auto simp: accounted_def)
next
  case (Insert rows wd wd' u)
  have k: "keeps wd wd'" by (rule handle_n_insert_keeps [OF Insert(1)])
  with keeps_ok [OF k Insert(2)] Insert(3) show ?case
    by (cases u) (auto simp: accounted_def keeps_def)
next
  case (Insert_error rows wd wd' u)
  have k: "keeps wd wd'" by (rule handle_n_insert_keeps [OF Insert_error(1)])
  with keeps_ok [OF k Insert_error(2)] show ?case by (simp add: accounted_def keeps_def)
next
  case (Unshift e wd wd')
  then have len: "length e = zn_width z" by simp
  from handle_n_unshift_spec [OF world_ok_parts(1) [OF Unshift(2)] _ len Unshift(1)]
    handle_n_unshift_ok [OF Unshift(2) len Unshift(1)] world_ok_parts(3) [OF Unshift(2)]
  show ?case by (simp add: accounted_def)
next
  case (Unshift_error e wd wd')
  then have len: "length e = zn_width z" by simp
  from handle_n_unshift_spec [OF world_ok_parts(1) [OF Unshift_error(2)] _ len Unshift_error(1)]
    handle_n_unshift_ok [OF Unshift_error(2) len Unshift_error(1)] world_ok_parts(3) [OF Unshift_error(2)]
  show ?case by (simp add: accounted_def)
next
  case (Report wd)
  then show ?case by (simp add: accounted_def)
next
  case (Fail wd rc wd')
  from handler_failed_keeps [OF Fail(1)] handler_failed_ok [OF Fail(2,1)] show ?case
    by (simp add: accounted_def keeps_def)
next
  case (Expire wd b ev)
  then show ?case by (simp add: accounted_def)
next
  case (Flush_check wd b len sh)
  from get_len_ready [OF world_ok_parts(1) [OF Flush_check(4)] Flush_check(3)]
    world_ok_sh [OF Flush_check(4), of "wd\<lparr>wd_sh := sh\<rparr>"]
  show ?case by (simp add: accounted_def)
next
  case (Flush_take wd b r wd')
  from buf_flush_locked_spec [OF Flush_take(3,2)] ready_entries(1) [OF world_ok_parts(1) [OF Flush_take(3)]]
  show ?case by (cases r) (simp_all add: accounted_def)
next
  case (Flush_insert wd rows rc)
  have k: "keeps (destroy_pool wd) (buf_flush_insert D rows wd)"
    using buf_flush_insert_spec [OF refl] by blast
  have "world_ok z D (buf_flush_insert D rows wd)" using Flush_insert(2) by (intro keeps_ok [OF k]) simp
  with k show ?case by (simp add: accounted_def keeps_def)
next
  case (Exit_skip wd)
  then show ?case by (simp add: accounted_def)
next
  case (Exit_take wd b r wd')
  from exit_take_spec [OF Exit_take(5,4)] ready_entries(1) [OF world_ok_parts(1) [OF Exit_take(5)]]
  show ?case by (cases r) (simp_all add: accounted_def)
next
  case (Exit_insert wd rows rc)
  have k: "keeps wd (exit_insert D rows wd)" using exit_insert_spec [OF refl] by blast
  with keeps_ok [OF k Exit_insert(2)] show ?case by (simp add: accounted_def keeps_def)
next
  case (Exit_end wd)
  note k = exit_end_spec [of wd D]
  with keeps_ok [OF k Exit_end(1)] show ?case by (simp add: accounted_def keeps_def)
qed

section \<open>The handlers are made of actions\<close>

text \<open>The places of a worker that exits.\<close>

definition exiting :: "pc \<Rightarrow> bool" where
  "exiting pc \<longleftrightarrow> pc \<in> {Exit_due, Exited} \<union> range Exit_inserting"

text \<open>Sequences of the actions \<open>A\<close> of one worker, of one of its threads, or of a whole process.\<close>

inductive acts ::
  "('a \<Rightarrow> 's \<Rightarrow> event_of_entry list \<Rightarrow> 'a \<Rightarrow> 's \<Rightarrow> bool) \<Rightarrow> 'a \<Rightarrow> 's \<Rightarrow> event_of_entry list \<Rightarrow> 'a \<Rightarrow> 's \<Rightarrow> bool"
  for A where
  Stop: "acts A pc wd [] pc wd"
| Act: "A pc wd evs1 pc1 wd1 \<Longrightarrow> acts A pc1 wd1 evs2 pc2 wd2 \<Longrightarrow> acts A pc wd (evs1 @ evs2) pc2 wd2"

lemma acts_one: "A pc wd evs pc' wd' \<Longrightarrow> acts A pc wd evs pc' wd'"
  using acts.Act [of A, OF _ acts.Stop] by fastforce

lemma acts_append: "acts A pc wd evs1 pc1 wd1 \<Longrightarrow> acts A pc1 wd1 evs2 pc2 wd2 \<Longrightarrow> acts A pc wd (evs1 @ evs2) pc2 wd2"
  by (induction rule: acts.induct) (auto intro: acts.intros)

lemma acts_mono:
  assumes "acts A pc wd evs pc' wd'" and "\<And>pc wd evs pc' wd'. A pc wd evs pc' wd' \<Longrightarrow> B pc wd evs pc' wd'"
  shows "acts B pc wd evs pc' wd'"
  using assms(1) by (induction rule: acts.induct) (auto intro: acts.intros assms(2))

text \<open>
  The actions of the event loop apart from the beginning of a flush event, which needs a flush
  context: what a request is made of.
\<close>

definition busy_act ::
  "('w, 'p, 'l) deps \<Rightarrow> pc \<Rightarrow> ('w, 'p) world \<Rightarrow> event_of_entry list \<Rightarrow> pc \<Rightarrow> ('w, 'p) world \<Rightarrow> bool" where
  "busy_act D pc wd evs pc' wd' \<longleftrightarrow> act D pc wd evs pc' wd' \<and> pc' \<noteq> Expired"

lemma one_act: "act D pc wd evs pc' wd' \<Longrightarrow> pc' \<noteq> Expired \<Longrightarrow> acts (busy_act D) pc wd evs pc' wd'"
  by (rule acts_one) (simp add: busy_act_def)

lemma more_acts:
  "act D pc wd evs1 pc1 wd1 \<Longrightarrow> pc1 \<noteq> Expired \<Longrightarrow> acts (busy_act D) pc1 wd1 evs2 pc2 wd2 \<Longrightarrow>
     acts (busy_act D) pc wd (evs1 @ evs2) pc2 wd2"
  using acts.Act [of "busy_act D"] by (simp add: busy_act_def)

text \<open>
  \<open>handle_n\<close> ends idle, or at the error report of the request handler exactly when it reports an
  error, and it loses nothing unless it reports one.
\<close>

lemma handle_n_acts:
  assumes ok: "world_ok z D wd" and tp: "\<not> wd_tp wd" and b: "sv_buf (wd_srv wd) = Some b"
    and len: "length e = zn_width z" and run: "handle_n D b e wd = (rc, wd')"
  shows "\<exists>evs. acts (busy_act D) (Handling e) wd evs (if rc = NGX_OK then Idle else Reporting) wd' \<and>
    received evs = [] \<and> (rc = NGX_OK \<longrightarrow> lost evs = [])"
proof -
  note w = world_ok_parts [OF ok]
  obtain r w1 where l: "handle_n_locked D b e wd = (r, w1)" by (cases "handle_n_locked D b e wd")
  note ls = handle_n_locked_spec [OF w(1,2) len l]
  show ?thesis
  proof (cases r)
    case (Inl rc1)
    then have "rc = rc1" "wd' = w1" using run l by (simp_all add: handle_n_def)
    with ls Inl l one_act [OF act.Queue [OF tp b]] one_act [OF act.Queue_error [OF tp b]]
    show ?thesis by (fastforce split: if_splits)
  next
    case (Inr p)
    obtain rows rc_push where p: "p = (rows, rc_push)" by (cases p)
    let ?u = "if rc_push = NGX_ERROR then Some e else None"
    have take: "act D (Handling e) wd [] (Inserting rows ?u) w1"
      using l Inr p by (intro act.Take [OF tp b]) simp
    obtain ri w2 where i: "handle_n_insert D rows w1 = (ri, w2)" by (cases "handle_n_insert D rows w1")
    consider "ri = NGX_ERROR" | "ri = NGX_OK" using handle_n_insert_spec [OF i] by auto
    then show ?thesis
    proof cases
      case 1
      then have "rc = NGX_ERROR" "wd' = w2" using run l Inr p i by (simp_all add: handle_n_def)
      with more_acts [OF take _ one_act [OF act.Insert_error]] i 1 show ?thesis by fastforce
    next
      case 2
      show ?thesis
      proof (cases "rc_push = NGX_ERROR")
        case False
        then have "rc = NGX_OK" "wd' = w2" using run l Inr p i 2 by (simp_all add: handle_n_def)
        with more_acts [OF take _ one_act [OF act.Insert]] i 2 False show ?thesis by fastforce
      next
        case True
        then have u: "handle_n_unshift D e w2 = (rc, wd')" using run l Inr p i 2 by (simp add: handle_n_def)
        have ok2: "world_ok z D w2"
          using keeps_ok [OF handle_n_insert_keeps [OF i] handle_n_locked_ok [OF ok len l]] .
        have rc: "rc = NGX_OK \<or> rc = NGX_ERROR"
          using handle_n_unshift_spec [OF world_ok_parts(1) [OF ok2] _ len u] w(3) by auto
        have ins: "act D (Inserting rows (Some e)) w1 [Stored (real_rows rows)] (Unshifting e) w2"
          using act.Insert [of D rows w1 w2 "Some e"] i 2 by simp
        have "\<exists>evs. acts (busy_act D) (Unshifting e) w2 evs (if rc = NGX_OK then Idle else Reporting) wd' \<and>
            received evs = [] \<and> (rc = NGX_OK \<longrightarrow> lost evs = [])"
          using rc u one_act [OF act.Unshift] one_act [OF act.Unshift_error] by fastforce
        with more_acts [OF take [unfolded if_P [OF True]] _ more_acts [OF ins]] show ?thesis by fastforce
      qed
    qed
  qed
qed

lemma buf_flush_sync_acts:
  assumes tp: "\<not> wd_tp wd" and b: "sv_buf (wd_srv wd) = Some b"
  shows "\<exists>evs. acts (busy_act D) Expired wd evs Idle (buf_flush_sync D b wd) \<and> received evs = []"
proof -
  obtain len sh where g: "buf_get_len (wd_sh wd) = (len, sh)" by (cases "buf_get_len (wd_sh wd)")
  let ?w = "wd\<lparr>wd_sh := sh\<rparr>"
  note check = act.Flush_check [OF tp b g, of D]
  show ?thesis
  proof (cases "len = 0")
    case True
    then have "buf_flush_sync D b wd = set_buf (buf_timer_reset b) ?w" using g by (simp add: buf_flush_sync_def)
    with one_act [OF check] True show ?thesis by auto
  next
    case False
    obtain r w1 where l: "buf_flush_locked D b ?w = (r, w1)" by (cases "buf_flush_locked D b ?w")
    have take: "act D Flush_due ?w [] (case r of None \<Rightarrow> Idle | Some rows \<Rightarrow> Flushing rows) w1"
      using b by (intro act.Flush_take [OF _ l]) simp
    show ?thesis
    proof (cases r)
      case None
      then have "buf_flush_sync D b wd = w1" using g l False by (simp add: buf_flush_sync_def)
      with more_acts [OF check _ one_act] take None False show ?thesis by fastforce
    next
      case (Some rows)
      then have "buf_flush_sync D b wd = buf_flush_insert D rows w1" using g l False by (simp add: buf_flush_sync_def)
      with more_acts [OF check _ more_acts [OF _ _ one_act [OF act.Flush_insert [OF refl]]]] take Some False
      show ?thesis by fastforce
    qed
  qed
qed

text \<open>The exit of a server that is enabled.\<close>

lemma exit_srv_acts:
  assumes en: "sv_enabled (wd_srv wd) \<noteq> 0"
  shows "\<exists>evs. acts (\<lambda>pc wd evs pc' wd'. act D pc wd evs pc' wd' \<and> exiting pc') Idle wd evs Exited (exit_srv D wd) \<and>
    received evs = []"
proof -
  let ?A = "\<lambda>pc wd evs pc' wd'. act D pc wd evs pc' wd' \<and> exiting pc'"
  have last: "acts ?A Exit_due w [] Exited (exit_close D (exit_checkpoint D w))" for w
    by (rule acts_one) (simp add: act.Exit_end exiting_def)
  show ?thesis
  proof (cases "db_conn (wd_db wd) = None \<or> sv_buf (wd_srv wd) = None")
    case True
    then have "exit_srv D wd = exit_close D (exit_checkpoint D wd)"
      using en by (auto simp: exit_srv_def split: option.split)
    with acts.Act [of ?A, OF _ last] act.Exit_skip [OF en True] show ?thesis by (fastforce simp: exiting_def)
  next
    case False
    then obtain c b where b: "db_conn (wd_db wd) = Some c" "sv_buf (wd_srv wd) = Some b" by auto
    obtain r w where t: "exit_take D b wd = (r, w)" by (cases "exit_take D b wd")
    note take = act.Exit_take [OF en _ b(2) t]
    show ?thesis
    proof (cases r)
      case None
      then have "exit_srv D wd = exit_close D (exit_checkpoint D w)"
        using en b t by (simp add: exit_srv_def exit_buffer_def)
      with acts.Act [of ?A, OF _ last] take b(1) None show ?thesis by (fastforce simp: exiting_def)
    next
      case (Some rows)
      let ?rc = "fst (db_insert_list (dp_sqlite D) (wd_db w) rows (wd_sys w))"
      have "?A (Exit_inserting rows) w [if ?rc = SQLITE_OK then Stored rows else Lost rows] Exit_due (exit_insert D rows w)"
        by (simp add: act.Exit_insert exiting_def)
      from acts.Act [of ?A, OF this last]
      have "acts ?A (Exit_inserting rows) w [if ?rc = SQLITE_OK then Stored rows else Lost rows] Exited
          (exit_close D (exit_checkpoint D (exit_insert D rows w)))" by simp
      moreover have "exit_srv D wd = exit_close D (exit_checkpoint D (exit_insert D rows w))"
        using en b t Some by (simp add: exit_srv_def exit_buffer_def)
      ultimately show ?thesis using acts.Act [of ?A "Idle" wd "[]" "Exit_inserting rows" w] take b(1) Some
        by (fastforce simp: exiting_def)
    qed
  qed
qed

end
