(* ===== verification/Site.thy ===== *)
theory Site
  imports Concurrency
begin

text \<open>
  Several worker processes that share one zone and one SQLite database. The actions of the workers
  interleave freely. The locale \<open>accounting\<close> is the interface between the actions of one worker
  and the whole site: whoever accounts for every entry in each action accounts for all of them in
  every interleaving.
\<close>

section \<open>Interleavings\<close>

text \<open>
  \<open>st_workers\<close> holds for each worker the place where it is and its own state; the zone and SQLite
  are those of the site, which an action of a worker sees and changes.
\<close>

record ('a, 'w, 'p) site =
  st_sh :: "'p shctx"
  st_sys :: "'w sys"
  st_workers :: "('a \<times> ('w, 'p) world) list"

type_synonym ('a, 'w, 'p) actions =
  "'a \<Rightarrow> ('w, 'p) world \<Rightarrow> event_of_entry list \<Rightarrow> 'a \<Rightarrow> ('w, 'p) world \<Rightarrow> bool"

definition worker_pc :: "('a, 'w, 'p) site \<Rightarrow> nat \<Rightarrow> 'a" where
  "worker_pc g i = fst (st_workers g ! i)"

definition worker_world :: "('a, 'w, 'p) site \<Rightarrow> nat \<Rightarrow> ('w, 'p) world" where
  "worker_world g i = (snd (st_workers g ! i))\<lparr>wd_sh := st_sh g, wd_sys := st_sys g\<rparr>"

definition put_worker :: "nat \<Rightarrow> 'a \<Rightarrow> ('w, 'p) world \<Rightarrow> ('a, 'w, 'p) site \<Rightarrow> ('a, 'w, 'p) site" where
  "put_worker i pc wd g = g\<lparr>st_sh := wd_sh wd, st_sys := wd_sys wd,
     st_workers := (st_workers g)[i := (pc, wd)]\<rparr>"

inductive interleaving ::
  "('a, 'w, 'p) actions \<Rightarrow> ('a, 'w, 'p) site \<Rightarrow> event_of_entry list \<Rightarrow> ('a, 'w, 'p) site \<Rightarrow> bool" for A where
  Start: "interleaving A g [] g"
| Step: "interleaving A g evs g1 \<Longrightarrow> i < length (st_workers g1) \<Longrightarrow>
    A (worker_pc g1 i) (worker_world g1 i) evs1 pc wd \<Longrightarrow>
    interleaving A g (evs @ evs1) (put_worker i pc wd g1)"

lemma interleaving_workers: "interleaving A g evs g' \<Longrightarrow> length (st_workers g') = length (st_workers g)"
  by (induction rule: interleaving.induct) (simp_all add: put_worker_def)

section \<open>Sums of multisets\<close>

lemma sum_list_update_mset:
  "i < length xs \<Longrightarrow> (\<Sum>x\<leftarrow>xs[i := y]. f x) + f (xs ! i) = (\<Sum>x\<leftarrow>xs. f x) + (f y :: 'b multiset)"
proof (induction xs arbitrary: i)
  case (Cons x xs)
  show ?case
  proof (cases i)
    case 0
    then show ?thesis by (simp add: ac_simps)
  next
    case (Suc j)
    with Cons.prems have "(\<Sum>x\<leftarrow>xs[j := y]. f x) + f (xs ! j) = (\<Sum>x\<leftarrow>xs. f x) + f y"
      by (intro Cons.IH) simp
    then have "f x + ((\<Sum>x\<leftarrow>xs[j := y]. f x) + f (xs ! j)) = f x + ((\<Sum>x\<leftarrow>xs. f x) + f y)" by simp
    with Suc show ?thesis by (simp add: ac_simps)
  qed
qed simp

text \<open>The balance of a run and the balance of one more action add up.\<close>

lemma balance_trans:
  fixes r :: "'b multiset"
  assumes "r + q0 + f0 = s + l + q1 + f1" and "r' + q1 + p = s' + l' + q2 + p'" and "f2 + p = f1 + p'"
  shows "(r + r') + q0 + f0 = (s + s') + (l + l') + q2 + f2"
proof -
  have "(r + r') + q0 + f0 + (q1 + p) = (r + q0 + f0) + (r' + q1 + p)" by (simp add: ac_simps)
  also have "\<dots> = (s + l + q1 + f1) + (s' + l' + q2 + p')" using assms(1,2) by simp
  also have "\<dots> = (s + s') + (l + l') + q2 + q1 + (f1 + p')" by (simp add: ac_simps)
  also have "\<dots> = (s + s') + (l + l') + q2 + q1 + (f2 + p)" using assms(3) by simp
  also have "\<dots> = (s + s') + (l + l') + q2 + f2 + (q1 + p)" by (simp add: ac_simps)
  finally show ?thesis by simp
qed

section \<open>From the actions of a worker to the site\<close>

definition site_ok ::
  "('a \<Rightarrow> ('w, 'p) world \<Rightarrow> bool) \<Rightarrow> ('p, 'l) zone \<Rightarrow> ('w, 'p, 'l) deps \<Rightarrow> ('a, 'w, 'p) site \<Rightarrow> bool" where
  "site_ok fits z D g \<longleftrightarrow>
     (\<forall>i<length (st_workers g). world_ok z D (worker_world g i) \<and> fits (worker_pc g i) (worker_world g i))"

text \<open>All entries in the hands of workers.\<close>

definition all_hands ::
  "('a \<Rightarrow> ('w, 'p) world \<Rightarrow> ngx_str list multiset) \<Rightarrow> ('a, 'w, 'p) site \<Rightarrow> ngx_str list multiset" where
  "all_hands hands g = (\<Sum>(pc, wd)\<leftarrow>st_workers g. hands pc wd)"

text \<open>
  What a worker promises: an action keeps its invariant and accounts for every entry, and what the
  worker holds is its own, whatever happens to the zone and the database.
\<close>

locale accounting =
  fixes A :: "('a, 'w, 'p) actions"
    and hands :: "'a \<Rightarrow> ('w, 'p) world \<Rightarrow> ngx_str list multiset"
    and fits :: "'a \<Rightarrow> ('w, 'p) world \<Rightarrow> bool"
    and z :: "('p, 'l) zone"
    and D :: "('w, 'p, 'l) deps"
  assumes action_ok: "A pc wd evs pc' wd' \<Longrightarrow> world_ok z D wd \<Longrightarrow> fits pc wd \<Longrightarrow>
      world_ok z D wd' \<and> fits pc' wd'"
    and action_balance: "A pc wd evs pc' wd' \<Longrightarrow> world_ok z D wd \<Longrightarrow> fits pc wd \<Longrightarrow>
      mset (received evs) + mset (entries (wd_sh wd)) + hands pc wd =
      mset (stored evs) + mset (lost evs) + mset (entries (wd_sh wd')) + hands pc' wd'"
    and hands_own: "hands pc (wd\<lparr>wd_sh := sh, wd_sys := s\<rparr>) = hands pc wd"
    and fits_own: "fits pc (wd\<lparr>wd_sh := sh, wd_sys := s\<rparr>) = fits pc wd"
begin

lemma hands_worker: "hands pc (worker_world g i) = hands pc (snd (st_workers g ! i))"
  by (simp add: worker_world_def hands_own)

lemma fits_worker: "fits pc (worker_world g i) = fits pc (snd (st_workers g ! i))"
  by (simp add: worker_world_def fits_own)

lemma put_worker_hands:
  assumes "i < length (st_workers g)"
  shows "all_hands hands (put_worker i pc wd g) + hands (worker_pc g i) (worker_world g i) =
    all_hands hands g + hands pc wd"
  using sum_list_update_mset [OF assms, where f = "\<lambda>(pc, wd). hands pc wd" and y = "(pc, wd)"]
  by (simp add: all_hands_def put_worker_def worker_pc_def split_def hands_worker)

lemma put_worker_ok:
  assumes ok: "site_ok fits z D g" and i: "i < length (st_workers g)" and "world_ok z D wd" and "fits pc wd"
  shows "site_ok fits z D (put_worker i pc wd g)"
  unfolding site_ok_def
proof (intro allI impI)
  fix j assume j: "j < length (st_workers (put_worker i pc wd g))"
  show "world_ok z D (worker_world (put_worker i pc wd g) j) \<and>
    fits (worker_pc (put_worker i pc wd g) j) (worker_world (put_worker i pc wd g) j)"
  proof (cases "j = i")
    case True
    with assms(2-4) show ?thesis by (simp add: worker_world_def worker_pc_def put_worker_def fits_own)
  next
    case False
    with j ok have old: "world_ok z D (worker_world g j)" "fits (worker_pc g j) (worker_world g j)"
      by (simp_all add: site_ok_def put_worker_def)
    have "world_ok z D (worker_world (put_worker i pc wd g) j)"
      using world_ok_parts(1) [OF assms(3)] False
      by (intro world_ok_sh [OF old(1)]) (simp_all add: worker_world_def put_worker_def)
    with old(2) False show ?thesis by (simp add: worker_pc_def put_worker_def fits_worker)
  qed
qed

lemma interleaving_balance:
  assumes "interleaving A g evs g'" and "site_ok fits z D g"
  shows "site_ok fits z D g' \<and>
    mset (received evs) + mset (entries (st_sh g)) + all_hands hands g =
      mset (stored evs) + mset (lost evs) + mset (entries (st_sh g')) + all_hands hands g'"
  using assms
proof (induction rule: interleaving.induct)
  case (Start g)
  then show ?case by simp
next
  case (Step g evs g1 i evs1 pc wd)
  then have ih: "site_ok fits z D g1" "mset (received evs) + mset (entries (st_sh g)) + all_hands hands g =
      mset (stored evs) + mset (lost evs) + mset (entries (st_sh g1)) + all_hands hands g1"
    by simp_all
  have w: "world_ok z D (worker_world g1 i)" "fits (worker_pc g1 i) (worker_world g1 i)"
    using ih(1) Step(2) by (simp_all add: site_ok_def)
  have eq: "mset (received evs1) + mset (entries (st_sh g1)) + hands (worker_pc g1 i) (worker_world g1 i) =
      mset (stored evs1) + mset (lost evs1) + mset (entries (wd_sh wd)) + hands pc wd"
    using action_balance [OF Step(3) w] by (simp add: worker_world_def)
  have sh: "st_sh (put_worker i pc wd g1) = wd_sh wd" by (simp add: put_worker_def)
  from balance_trans [OF ih(2) eq put_worker_hands [OF Step(2), of pc wd]]
  show ?case using put_worker_ok [OF ih(1) Step(2)] action_ok [OF Step(3) w] sh by simp
qed

lemma interleaving_mutex:
  assumes "interleaving A g evs g'" and "site_ok fits z D g" and "st_workers g \<noteq> []"
  shows "\<not> sh_held (st_sh g') \<and> \<not> sh_fault (st_sh g')"
proof -
  have "world_ok z D (worker_world g' 0)"
    using interleaving_balance [OF assms(1,2)] interleaving_workers [OF assms(1)] assms(3)
    by (simp add: site_ok_def)
  then show ?thesis by (simp add: world_ok_def zone_ready_def worker_world_def)
qed

end

text \<open>Workers without a thread pool.\<close>

interpretation plain: accounting "act D" "\<lambda>pc wd. mset (in_flight pc)" "\<lambda>pc wd. pc_fits (zn_width z) pc" z D for z D
proof unfold_locales
  fix pc wd evs pc' wd'
  assume a: "act D pc wd evs pc' wd'" and ok: "world_ok z D wd" and f: "pc_fits (zn_width z) pc"
  note acc = act_accounted [OF a ok f]
  then show "world_ok z D wd' \<and> pc_fits (zn_width z) pc'" by blast
  from acc show "mset (received evs) + mset (entries (wd_sh wd)) + mset (in_flight pc) =
      mset (stored evs) + mset (lost evs) + mset (entries (wd_sh wd')) + mset (in_flight pc')"
    by (simp add: accounted_def)
qed simp_all

end
