(* ===== verification/Threads.thy ===== *)
theory Threads
  imports Site
begin

text \<open>
  Workers with a thread pool: the tasks that the event loop posts (\<open>handle_1_async\<close>,
  \<open>handle_n_async\<close> and \<open>buf_flush_async\<close>) run in threads, between and beside the actions of the
  event loop. A task is a sequence of atomic actions like a handler; every action accounts for the
  entries it meets, so theory Site applies to workers with any number of threads.

  An action of a thread is atomic here because it holds the mutex of the zone or because it is an
  insertion into SQLite. The code does not enforce the latter: the tasks of one worker share its
  connection, and two threads may insert at the same time. Theory Interleaving (lemma
  \<open>second_list_refused\<close>) shows what the second list meets then. That a thread resets nginx's
  timer, which belongs to the event loop, is not modelled either.
\<close>

section \<open>The actions of a thread\<close>

text \<open>Where a thread is within a task; a thread without a task is \<open>None\<close>.\<close>

datatype job =
    Job_inserting "ngx_str list list" db "ngx_str list option"
  | Job_unshifting "ngx_str list"
  | Job_flushing "ngx_str list list"
  | Job_done

definition opt_entry :: "ngx_str list option \<Rightarrow> ngx_str list list" where
  "opt_entry u = (case u of None \<Rightarrow> [] | Some e \<Rightarrow> [e])"

lemma opt_entry_simps [simp]: "opt_entry None = []" "opt_entry (Some e) = [e]"
  by (simp_all add: opt_entry_def)

inductive thread_act ::
  "('w, 'p, 'l) deps \<Rightarrow> job option \<Rightarrow> ('w, 'p) world \<Rightarrow> event_of_entry list \<Rightarrow> job option \<Rightarrow> ('w, 'p) world \<Rightarrow> bool"
  for D where
  Insert_1: "wd_tasks wd = t # ts \<Longrightarrow> tk_handler t = Thread_insert_1 \<Longrightarrow> tk_db t = Some d \<Longrightarrow>
    tk_entry t = Some e \<Longrightarrow> fst (db_insert (dp_sqlite D) d e (wd_sys wd)) = rc \<Longrightarrow>
    thread_act D None wd [if rc = SQLITE_OK then Stored [e] else Lost [e]] (Some Job_done)
      (thread_insert_1 D d e (wd\<lparr>wd_tasks := ts\<rparr>))"
| List_n: "wd_tasks wd = t # ts \<Longrightarrow> tk_handler t = Thread_insert_n \<Longrightarrow> tk_db t = Some d \<Longrightarrow>
    sv_buf (wd_srv wd) = Some b \<Longrightarrow> thread_insert_n_locked D b d (wd\<lparr>wd_tasks := ts\<rparr>) = (r, wd') \<Longrightarrow>
    thread_act D None wd (if r = None then [Lost (opt_entry (tk_entry t))] else [])
      (Some (case r of None \<Rightarrow> Job_done | Some rows \<Rightarrow> Job_inserting rows d (tk_entry t))) wd'"
| Insert_n: "thread_n_insert D d rows wd = (rc, wd') \<Longrightarrow>
    thread_act D (Some (Job_inserting rows d u)) wd
      [if rc = SQLITE_OK then Stored (real_rows rows) else Lost (real_rows rows @ opt_entry u)]
      (Some (case u of None \<Rightarrow> Job_done | Some e \<Rightarrow> if rc = SQLITE_OK then Job_unshifting e else Job_done)) wd'"
| Unshift_n: "thread_n_unshift D e wd = (rc, wd') \<Longrightarrow>
    thread_act D (Some (Job_unshifting e)) wd (if rc = NGX_OK then [] else [Lost [e]]) (Some Job_done) wd'"
| List_flush: "wd_tasks wd = t # ts \<Longrightarrow> tk_handler t = Thread_flush \<Longrightarrow> tk_entry t = None \<Longrightarrow>
    sv_buf (wd_srv wd) = Some b \<Longrightarrow> thread_flush_locked D b (wd\<lparr>wd_tasks := ts\<rparr>) = (r, wd') \<Longrightarrow>
    thread_act D None wd [] (Some (case r of None \<Rightarrow> Job_done | Some rows \<Rightarrow> Job_flushing rows)) wd'"
| Insert_flush: "fst (db_insert_list (dp_sqlite D) (wd_db wd) rows (wd_sys wd)) = rc \<Longrightarrow>
    thread_act D (Some (Job_flushing rows)) wd [if rc = SQLITE_OK then Stored rows else Lost rows] (Some Job_done)
      (thread_flush_insert D rows wd)"

section \<open>The actions of the event loop\<close>

text \<open>
  With a thread pool a request gets a pool before its log entry is built, and only touches the zone
  in one critical section; without a buffer and without a thread pool it is one insertion.
\<close>

inductive loop_act ::
  "('w, 'p, 'l) deps \<Rightarrow> pc \<Rightarrow> ('w, 'p) world \<Rightarrow> event_of_entry list \<Rightarrow> pc \<Rightarrow> ('w, 'p) world \<Rightarrow> bool"
  for D where
  Plain: "act D pc wd evs pc' wd' \<Longrightarrow> loop_act D pc wd evs pc' wd'"
| Direct: "\<not> wd_tp wd \<Longrightarrow> sv_buf (wd_srv wd) = None \<Longrightarrow> handle_1 D e wd = (rc, wd') \<Longrightarrow>
    loop_act D (Handling e) wd [if rc = NGX_OK then Stored [e] else Lost [e]]
      (if rc = NGX_OK then Idle else Reporting) wd'"
| Begin_pool: "sv_enabled (wd_srv wd) \<noteq> 0 \<Longrightarrow> accepted D r wd \<Longrightarrow> wd_tp wd \<Longrightarrow> create_pool wd = (ok, wd') \<Longrightarrow>
    loop_act D Idle wd [] (if ok then Building r else Idle)
      (if ok then wd' else wd'\<lparr>wd_sys := log_error
         ''sqlitelog: failed to allocate %z bytes for pool during request handler'' [] (wd_sys wd')\<rparr>)"
| Async_1: "wd_tp wd \<Longrightarrow> sv_buf (wd_srv wd) = None \<Longrightarrow> handle_1_async D e wd = (rc, wd') \<Longrightarrow>
    loop_act D (Handling e) wd (if rc = NGX_OK then [] else [Lost [e]])
      (if rc = NGX_OK then Idle else Reporting) wd'"
| Async_n: "wd_tp wd \<Longrightarrow> sv_buf (wd_srv wd) = Some b \<Longrightarrow> handle_n_async D b e wd = (rc, wd') \<Longrightarrow>
    loop_act D (Handling e) wd (if rc \<noteq> NGX_OK \<and> entries (wd_sh wd') = entries (wd_sh wd) then [Lost [e]] else [])
      (if rc = NGX_OK then Idle else Reporting) wd'"
| Async_flush: "wd_tp wd \<Longrightarrow> sv_buf (wd_srv wd) = Some b \<Longrightarrow>
    loop_act D Expired wd [] Idle (buf_flush_async D b wd)"

section \<open>A worker with threads\<close>

text \<open>The place of a worker: that of its event loop and that of each of its threads.\<close>

type_synonym place = "pc \<times> job option list"

inductive worker_act ::
  "('w, 'p, 'l) deps \<Rightarrow> place \<Rightarrow> ('w, 'p) world \<Rightarrow> event_of_entry list \<Rightarrow> place \<Rightarrow> ('w, 'p) world \<Rightarrow> bool"
  for D where
  Loop: "loop_act D pc wd evs pc' wd' \<Longrightarrow> worker_act D (pc, js) wd evs (pc', js) wd'"
| Thread: "j < length js \<Longrightarrow> thread_act D (js ! j) wd evs job wd' \<Longrightarrow>
    worker_act D (pc, js) wd evs (pc, js[j := job]) wd'"
| Completed: "j < length js \<Longrightarrow> js ! j = Some Job_done \<Longrightarrow>
    worker_act D (Idle, js) wd [] (Idle, js[j := None]) (thread_completed wd)"

text \<open>What a thread, a posted task and a worker hold.\<close>

fun job_hands :: "job option \<Rightarrow> ngx_str list list" where
  "job_hands (Some (Job_inserting rows d u)) = real_rows rows @ opt_entry u"
| "job_hands (Some (Job_unshifting e)) = [e]"
| "job_hands (Some (Job_flushing rows)) = rows"
| "job_hands _ = []"

definition task_hands :: "('w, 'p) world \<Rightarrow> ngx_str list multiset" where
  "task_hands wd = (\<Sum>t\<leftarrow>wd_tasks wd. mset (opt_entry (tk_entry t)))"

fun worker_hands :: "place \<Rightarrow> ('w, 'p) world \<Rightarrow> ngx_str list multiset" where
  "worker_hands (pc, js) wd = mset (in_flight pc) + task_hands wd + (\<Sum>j\<leftarrow>js. mset (job_hands j))"

text \<open>
  \<open>worker_fits f\<close>: every database that the worker, its tasks and its threads use has the format
  \<open>f\<close>, and what they hold fits its columns.
\<close>

fun job_fits :: "fmt \<Rightarrow> job option \<Rightarrow> bool" where
  "job_fits f (Some (Job_inserting rows d u)) =
     (rows_fit (length (fmt_columns f)) rows \<and> db_fmt d = f \<and> (\<forall>e. u = Some e \<longrightarrow> length e = length (fmt_columns f)))"
| "job_fits f (Some (Job_unshifting e)) = (length e = length (fmt_columns f))"
| "job_fits f (Some (Job_flushing rows)) = (\<forall>r\<in>set rows. length r = length (fmt_columns f))"
| "job_fits f _ = True"

definition tasks_use :: "fmt \<Rightarrow> ('w, 'p) world \<Rightarrow> bool" where
  "tasks_use f wd \<longleftrightarrow> db_fmt (wd_db wd) = f \<and> (\<forall>t\<in>set (wd_tasks wd). \<forall>d. tk_db t = Some d \<longrightarrow> db_fmt d = f)"

fun worker_fits :: "fmt \<Rightarrow> place \<Rightarrow> ('w, 'p) world \<Rightarrow> bool" where
  "worker_fits f (pc, js) wd =
     (tasks_use f wd \<and> pc_fits (length (fmt_columns f)) pc \<and> (\<forall>j\<in>set js. job_fits f j))"

section \<open>Every action accounts for every entry\<close>

lemma task_hands_cong: "wd_tasks wd' = wd_tasks wd \<Longrightarrow> task_hands wd' = task_hands wd"
  by (simp add: task_hands_def)

lemma tasks_use_cong:
  "wd_tasks wd' = wd_tasks wd \<Longrightarrow> db_fmt (wd_db wd') = db_fmt (wd_db wd) \<Longrightarrow> tasks_use f wd' = tasks_use f wd"
  by (simp add: tasks_use_def)

lemma keeps_tasks:
  "keeps wd wd' \<Longrightarrow> wd_sh wd' = wd_sh wd \<and> task_hands wd' = task_hands wd \<and> tasks_use f wd' = tasks_use f wd"
  by (simp add: keeps_def task_hands_def tasks_use_def)

lemma act_tasks: "act D pc wd evs pc' wd' \<Longrightarrow> wd_tasks wd' = wd_tasks wd \<and> db_fmt (wd_db wd') = db_fmt (wd_db wd)"
proof (induction rule: act.induct)
  case (Flush_take wd b r wd')
  then show ?case
    by (auto simp: buf_flush_locked_def create_pool_def wd_palloc_def destroy_pool_def Let_def
        split: prod.splits option.splits if_splits)
next
  case (Insert rows wd wd' u)
  then show ?case using handle_n_insert_keeps [of D rows wd NGX_OK wd'] by (simp add: keeps_def)
next
  case (Insert_error rows wd wd' u)
  then show ?case using handle_n_insert_keeps [of D rows wd NGX_ERROR wd'] by (simp add: keeps_def)
next
  case (Fail wd rc wd')
  then show ?case using handler_failed_keeps [of D wd rc wd'] by (simp add: keeps_def)
next
  case (Flush_insert wd rows rc)
  then show ?case using buf_flush_insert_spec [of D rows wd, OF refl] by (auto simp: keeps_def)
next
  case (Exit_insert wd rows rc)
  then show ?case using exit_insert_spec [of D rows wd, OF refl] by (auto simp: keeps_def)
next
  case (Exit_end wd)
  show ?case using exit_end_spec [of wd D] by (simp add: keeps_def)
qed (auto simp: handle_n_locked_def handle_n_unshift_def exit_take_def Let_def split: prod.splits option.splits if_splits)

text \<open>The balance of an action of the event loop, with the tasks it posts.\<close>

definition balanced ::
  "ngx_str list multiset \<Rightarrow> ('w, 'p) world \<Rightarrow> event_of_entry list \<Rightarrow> ngx_str list multiset \<Rightarrow> ('w, 'p) world \<Rightarrow> bool" where
  "balanced h wd evs h' wd' \<longleftrightarrow>
     mset (received evs) + mset (entries (wd_sh wd)) + h =
     mset (stored evs) + mset (lost evs) + mset (entries (wd_sh wd')) + h'"

lemma handle_n_async_spec:
  assumes ok: "world_ok z D wd" and len: "length e = zn_width z" and run: "handle_n_async D b e wd = (rc, wd')"
  shows "(entries (wd_sh wd') = entries (wd_sh wd) @ [e] \<and> task_hands wd' = task_hands wd \<or>
     rc = NGX_OK \<and> entries (wd_sh wd') = entries (wd_sh wd) \<and> task_hands wd' = task_hands wd + {#e#} \<or>
     rc \<noteq> NGX_OK \<and> entries (wd_sh wd') = entries (wd_sh wd) \<and> task_hands wd' = task_hands wd) \<and>
    (tasks_use f wd \<longrightarrow> tasks_use f wd')"
proof -
  note w = world_ok_parts [OF ok]
  obtain rc_push sh where p: "buf_push (zn_slab z) b e (wd_sh wd) = (rc_push, sh)"
    by (cases "buf_push (zn_slab z) b e (wd_sh wd)")
  note pr = push_ready [OF w(1) len p]
  let ?w = "(node_log D e wd)\<lparr>wd_sh := sh\<rparr>"
  obtain ok w2 where a: "wd_palloc ?w = (ok, w2)" by (cases "wd_palloc ?w")
  note af = wd_palloc_frame [OF a]
  let ?t = "\<lparr>tk_handler = Thread_insert_n, tk_db = Some (wd_db w2),
      tk_entry = (if rc_push = NGX_DONE then None else Some e)\<rparr>"
  obtain rp w3 where t: "post_task ?t w2 = (rp, w3)" by (cases "post_task ?t w2")
  note tf = post_task_spec [OF t]
  consider (queued) "rc_push = NGX_OK" "rc = NGX_OK" "wd' = ?w"
    | (no_task) "rc_push \<noteq> NGX_OK" "rc = NGX_ERROR" "wd' = w2"
    | (posted) "rc_push \<noteq> NGX_OK" "rc = rp" "wd' = w3"
    using run p a t w(3) by (auto simp: handle_n_async_def Let_def split: if_splits)
  then show ?thesis
  proof cases
    case queued
    with pr show ?thesis by (auto simp: task_hands_def tasks_use_def)
  next
    case no_task
    with pr af show ?thesis by (auto simp: task_hands_def tasks_use_def)
  next
    case posted
    with pr af tf show ?thesis by (auto simp: task_hands_def tasks_use_def)
  qed
qed

lemma handle_1_async_spec:
  assumes run: "handle_1_async D e wd = (rc, wd')"
  shows "wd_sh wd' = wd_sh wd \<and> task_hands wd' = task_hands wd + (if rc = NGX_OK then {#e#} else {#}) \<and>
    (tasks_use f wd \<longrightarrow> tasks_use f wd')"
proof -
  obtain ok w1 where a: "wd_palloc wd = (ok, w1)" by (cases "wd_palloc wd")
  note af = wd_palloc_frame [OF a]
  let ?t = "\<lparr>tk_handler = Thread_insert_1, tk_db = Some (wd_db w1), tk_entry = Some e\<rparr>"
  obtain rp w2 where t: "post_task ?t w1 = (rp, w2)" by (cases "post_task ?t w1")
  note tf = post_task_spec [OF t]
  have "if ok \<and> rp = NGX_OK then rc = NGX_OK \<and> wd' = w2\<lparr>wd_blocked := wd_blocked w2 + 1\<rparr>
    else rc \<noteq> NGX_OK \<and> wd_sh wd' = wd_sh wd \<and> wd_tasks wd' = wd_tasks wd \<and> wd_db wd' = wd_db wd"
    using run a t af tf by (auto simp: handle_1_async_def Let_def split: if_splits)
  with af tf show ?thesis by (auto simp: task_hands_def tasks_use_def split: if_splits)
qed

lemma buf_flush_async_spec:
  assumes ok: "world_ok z D wd"
  shows "entries (wd_sh (buf_flush_async D b wd)) = entries (wd_sh wd) \<and>
    task_hands (buf_flush_async D b wd) = task_hands wd \<and>
    (tasks_use f wd \<longrightarrow> tasks_use f (buf_flush_async D b wd))"
proof -
  obtain len sh where g: "buf_get_len (wd_sh wd) = (len, sh)" by (cases "buf_get_len (wd_sh wd)")
  note gf = get_len_ready [OF world_ok_parts(1) [OF ok] g]
  let ?wd = "wd\<lparr>wd_sh := sh\<rparr>"
  obtain okp w1 where p: "create_pool ?wd = (okp, w1)" by (cases "create_pool ?wd")
  note pf = create_pool_frame [OF p]
  obtain okt w2 where t: "wd_palloc w1 = (okt, w2)" by (cases "wd_palloc w1")
  note tf = wd_palloc_frame [OF t]
  let ?t = "\<lparr>tk_handler = Thread_flush, tk_db = None, tk_entry = None\<rparr>"
  obtain rp w3 where ps: "post_task ?t w2 = (rp, w3)" by (cases "post_task ?t w2")
  note psf = post_task_spec [OF ps]
  show ?thesis
    using g gf p t ps pf tf psf
    by (auto simp: buf_flush_async_def task_hands_def tasks_use_def destroy_pool_def Let_def)
qed

lemma loop_act_balanced:
  assumes "loop_act D pc wd evs pc' wd'" and ok: "world_ok z D wd" and f: "pc_fits (zn_width z) pc"
  shows "world_ok z D wd' \<and> pc_fits (zn_width z) pc' \<and> (tasks_use f wd \<longrightarrow> tasks_use f wd') \<and>
    balanced (mset (in_flight pc) + task_hands wd) wd evs (mset (in_flight pc') + task_hands wd') wd'"
  using assms(1)
proof cases
  case Plain
  note a = act_accounted [OF Plain ok f]
  moreover have "task_hands wd' = task_hands wd" "tasks_use f wd' = tasks_use f wd"
    using act_tasks [OF Plain] by (simp_all add: task_hands_def tasks_use_def)
  ultimately show ?thesis by (simp add: accounted_def balanced_def ac_simps)
next
  case (Direct e rc)
  have k: "keeps wd wd'" by (rule handle_1_keeps [OF Direct(6)])
  with keeps_ok [OF k ok] keeps_tasks [OF k, of f] Direct(1-3) show ?thesis
    by (auto simp: balanced_def)
next
  case (Begin_pool r made wd1)
  note c = create_pool_frame [OF Begin_pool(8)] and w = world_ok_create_pool [OF ok Begin_pool(8)]
  have "wd_sh wd' = wd_sh wd" "wd_tasks wd' = wd_tasks wd" "wd_srv wd' = wd_srv wd"
    using Begin_pool(4) c by simp_all
  with w Begin_pool(1-4) show ?thesis by (auto simp: balanced_def task_hands_def tasks_use_def)
next
  case (Async_1 e rc)
  have len: "length e = zn_width z" using Async_1(1) f by simp
  from handle_1_async_spec [OF Async_1(6), of f] handle_1_async_ok [OF ok len Async_1(6)] Async_1(1-3)
  show ?thesis by (auto simp: balanced_def)
next
  case (Async_n b e rc)
  have len: "length e = zn_width z" using Async_n(1) f by simp
  from handle_n_async_spec [OF ok len Async_n(6), of f] handle_n_async_ok [OF ok len Async_n(6)] Async_n(1-3)
  show ?thesis by (auto simp: balanced_def)
next
  case (Async_flush b)
  with buf_flush_async_spec [OF ok, of b f] buf_flush_async_ok [OF ok, of b] show ?thesis
    by (simp add: balanced_def)
qed

lemma first_task:
  assumes "world_ok z D wd" and "wd_tasks wd = t # ts"
  shows "world_ok z D (wd\<lparr>wd_tasks := ts\<rparr>)" "task_fits (zn_width z) t"
    "task_hands wd = mset (opt_entry (tk_entry t)) + task_hands (wd\<lparr>wd_tasks := ts\<rparr>)"
    "tasks_use f wd \<Longrightarrow> tasks_use f (wd\<lparr>wd_tasks := ts\<rparr>)" "tasks_use f wd \<Longrightarrow> tk_db t = Some d \<Longrightarrow> db_fmt d = f"
  using assms by (simp_all add: world_ok_def task_hands_def tasks_use_def)

lemma thread_act_balanced:
  assumes "thread_act D job wd evs job' wd'" and ok: "world_ok z D wd" and f: "job_fits f job"
    and uses: "tasks_use f wd"
  shows "world_ok z D wd' \<and> job_fits f job' \<and> tasks_use f wd' \<and>
    balanced (mset (job_hands job) + task_hands wd) wd evs (mset (job_hands job') + task_hands wd') wd'"
proof -
  have width: "length (fmt_columns f) = zn_width z"
    using world_ok_parts(5) [OF ok] uses by (simp add: tasks_use_def)
  show ?thesis
    using assms(1)
  proof cases
    case (Insert_1 t ts d e rc)
    note ft = first_task [OF ok Insert_1(5)]
    have k: "keeps (wd\<lparr>wd_tasks := ts\<rparr>) wd'" using thread_insert_1_keeps Insert_1(4) by simp
    from keeps_ok [OF k ft(1)] keeps_tasks [OF k, of f] ft(3) ft(4) [OF uses] Insert_1(1-3,8)
    show ?thesis by (simp add: balanced_def)
  next
    case (List_n t ts d b r)
    note ft = first_task [OF ok List_n(4)]
    have d: "db_fmt d = f" using ft(5) [OF uses List_n(6)] .
    then have "length (fmt_columns (db_fmt d)) = zn_width z" using width by simp
    note sp = thread_insert_n_locked_spec [OF ft(1) this List_n(8)]
    have th: "task_hands wd' = task_hands (wd\<lparr>wd_tasks := ts\<rparr>)" using sp by (intro task_hands_cong) simp
    have tu: "tasks_use f wd'"
      using ft(4) [OF uses] sp tasks_use_cong [of wd' "wd\<lparr>wd_tasks := ts\<rparr>" f] by simp
    note re = ready_entries [OF world_ok_parts(1) [OF ok]]
    have real: "real_rows (rows_of (entries (wd_sh wd))) = entries (wd_sh wd)" using re(3) by (rule real_rows_of)
    show ?thesis
    proof (cases r)
      case None
      with List_n(1-3) sp th tu ft(3) show ?thesis by (simp add: balanced_def ac_simps)
    next
      case (Some rows)
      with List_n(1-3) sp th tu ft(2,3) d real rows_fit_of [OF re(1)] width show ?thesis
        by (simp add: balanced_def task_fits_def ac_simps)
    qed
  next
    case (Insert_n d rows rc u)
    have k: "keeps wd wd'" using thread_n_insert_keeps [OF Insert_n(4)] by blast
    with keeps_ok [OF k ok] keeps_tasks [OF k, of f] Insert_n(1-3) f uses show ?thesis
      by (cases u) (auto simp: balanced_def ac_simps)
  next
    case (Unshift_n e rc)
    have len: "length e = zn_width z" using f Unshift_n(1) width by simp
    note sp = thread_n_unshift_spec [OF ok len Unshift_n(4)]
    then have "task_hands wd' = task_hands wd" "tasks_use f wd' = tasks_use f wd"
      by (simp_all add: task_hands_def tasks_use_def)
    with sp uses Unshift_n(1-3) show ?thesis by (auto simp: balanced_def)
  next
    case (List_flush t ts b r)
    note ft = first_task [OF ok List_flush(4)]
    note sp = thread_flush_locked_spec [OF ft(1) List_flush(8)]
    have th: "task_hands wd' = task_hands (wd\<lparr>wd_tasks := ts\<rparr>)" using sp by (intro task_hands_cong) simp
    have tu: "tasks_use f wd'"
      using ft(4) [OF uses] sp tasks_use_cong [of wd' "wd\<lparr>wd_tasks := ts\<rparr>" f] by simp
    note re = ready_entries(1) [OF world_ok_parts(1) [OF ok]]
    show ?thesis
    proof (cases r)
      case None
      with List_flush(1-3,6) sp th tu ft(3) show ?thesis by (simp add: balanced_def)
    next
      case (Some rows)
      with List_flush(1-3,6) sp th tu ft(3) re width show ?thesis by (simp add: balanced_def)
    qed
  next
    case (Insert_flush rows rc)
    have k: "keeps wd wd'" using thread_flush_insert_keeps Insert_flush(4) by blast
    with keeps_ok [OF k ok] keeps_tasks [OF k, of f] Insert_flush(1-3) uses show ?thesis
      by (simp add: balanced_def)
  qed
qed

text \<open>The balance of one thread is that of its worker.\<close>

lemma balance_part:
  fixes r :: "'b multiset"
  assumes "r + q + (h + t) = x + q' + (h' + t')" and "s' + h = s + h'"
  shows "r + q + (p + t + s) = x + q' + (p + t' + s')"
proof -
  have "r + q + (p + t + s) + h = (r + q + (h + t)) + (p + s)" by (simp add: ac_simps)
  also have "\<dots> = x + q' + t' + p + (s + h')" using assms(1) by (simp add: ac_simps)
  also have "\<dots> = x + q' + (p + t' + s') + h" using assms(2) [symmetric] by (simp add: ac_simps)
  finally show ?thesis by simp
qed

lemma list_update_fits: "\<forall>j\<in>set js. P j \<Longrightarrow> P x \<Longrightarrow> \<forall>j\<in>set (js[i := x]). P j"
  using set_update_subset_insert [of js i x] by blast

lemma worker_act_balanced:
  assumes "worker_act D pl wd evs pl' wd'" and ok: "world_ok z D wd" and f: "worker_fits f pl wd"
  shows "world_ok z D wd' \<and> worker_fits f pl' wd' \<and>
    balanced (worker_hands pl wd) wd evs (worker_hands pl' wd') wd'"
  using assms(1)
proof cases
  case (Loop pc pc' js)
  have "length (fmt_columns f) = zn_width z"
    using world_ok_parts(5) [OF ok] f Loop(1) by (simp add: tasks_use_def)
  with loop_act_balanced [OF Loop(3) ok, of f] f Loop(1,2) show ?thesis
    by (simp add: balanced_def ac_simps)
next
  case (Thread j js job pc)
  have j: "job_fits f (js ! j)" and u: "tasks_use f wd" using f Thread(1,3) by simp_all
  note t = thread_act_balanced [OF Thread(4) ok j u]
  have sum: "(\<Sum>j\<leftarrow>js[j := job]. mset (job_hands j)) + mset (job_hands (js ! j)) =
      (\<Sum>j\<leftarrow>js. mset (job_hands j)) + mset (job_hands job)"
    by (rule sum_list_update_mset [OF Thread(3)])
  have "balanced (worker_hands pl wd) wd evs (worker_hands pl' wd') wd'"
    using t balance_part [OF _ sum] Thread(1,2) by (simp add: balanced_def)
  with t f Thread(1,2) list_update_fits [of js "job_fits f" job j] show ?thesis by simp
next
  case (Completed j js)
  have sum: "(\<Sum>j\<leftarrow>js[j := None]. mset (job_hands j)) = (\<Sum>j\<leftarrow>js. mset (job_hands j))"
    using sum_list_update_mset [OF Completed(5), of "\<lambda>j. mset (job_hands j)" None] Completed(6) by simp
  show ?thesis
    using f Completed(1-4) sum ok list_update_fits [of js "job_fits f" None j]
    by (simp add: balanced_def thread_completed_def destroy_pool_def task_hands_def tasks_use_def world_ok_def)
qed

section \<open>The copies of the database\<close>

text \<open>The copies that the posted tasks and the threads of a worker hold.\<close>

fun job_db :: "job option \<Rightarrow> db option" where
  "job_db (Some (Job_inserting rows d u)) = Some d"
| "job_db _ = None"

definition copies :: "place \<Rightarrow> ('w, 'p) world \<Rightarrow> db set" where
  "copies pl wd = {d. \<exists>t\<in>set (wd_tasks wd). tk_db t = Some d} \<union> {d. \<exists>j\<in>set (snd pl). job_db j = Some d}"

lemma copies_fit: "worker_fits f pl wd \<Longrightarrow> d \<in> copies pl wd \<Longrightarrow> db_fmt d = f"
  by (cases pl) (auto simp: copies_def tasks_use_def elim!: job_db.elims)

lemma task_copy: "t \<in> set (wd_tasks wd) \<Longrightarrow> tk_db t = Some d \<Longrightarrow> d \<in> copies pl wd"
  by (auto simp: copies_def)

lemma job_copy: "j \<in> set js \<Longrightarrow> job_db j = Some d \<Longrightarrow> d \<in> copies (pc, js) wd"
  by (auto simp: copies_def)

text \<open>A task that the event loop posts gets a copy of the database of the server, or none.\<close>

definition tasks_from :: "('w, 'p) world \<Rightarrow> ('w, 'p) world \<Rightarrow> bool" where
  "tasks_from wd wd' \<longleftrightarrow>
     (\<forall>t\<in>set (wd_tasks wd'). t \<in> set (wd_tasks wd) \<or> tk_db t \<in> {None, Some (wd_db wd)})"

lemma tasks_from_same: "wd_tasks wd' = wd_tasks wd \<Longrightarrow> tasks_from wd wd'"
  by (simp add: tasks_from_def)

lemma async_tasks_from:
  "handle_n_async D b e wd = (rc, wd') \<Longrightarrow> tasks_from wd wd'" "handle_1_async D e wd = (rc, wd') \<Longrightarrow> tasks_from wd wd'"
  "tasks_from wd (buf_flush_async D b wd)"
  by (auto simp: handle_n_async_def handle_1_async_def buf_flush_async_def post_task_def wd_palloc_def create_pool_def
      destroy_pool_def node_log_def tasks_from_def Let_def split: prod.splits sum.splits if_splits)

lemma loop_act_tasks_from: "loop_act D pc wd evs pc' wd' \<Longrightarrow> tasks_from wd wd'"
proof (induction rule: loop_act.induct)
  case (Plain pc wd evs pc' wd')
  then show ?case using act_tasks tasks_from_same by blast
next
  case (Direct wd e rc wd')
  then show ?case using handle_1_keeps [of D e wd rc wd'] by (simp add: keeps_def tasks_from_def)
next
  case (Begin_pool wd r ok wd')
  then show ?case using create_pool_frame [OF Begin_pool(4)] by (simp add: tasks_from_def)
qed (auto intro: async_tasks_from)

text \<open>A thread takes tasks; the copy it goes on with is that of its task.\<close>

lemma thread_act_copies:
  assumes "thread_act D job wd evs job' wd'"
  shows "set (wd_tasks wd') \<subseteq> set (wd_tasks wd) \<and>
    (job_db job' = None \<or> job_db job' = job_db job \<or> (\<exists>t\<in>set (wd_tasks wd). job_db job' = tk_db t))"
  using assms
proof cases
  case (Insert_1 t ts d e rc)
  then show ?thesis using thread_steps_pools(1) [of "wd\<lparr>wd_tasks := ts\<rparr>" D d e] by (auto simp: same_pools_def)
next
  case (List_n t ts d b r)
  then show ?thesis using thread_steps_pools(2) [of "wd\<lparr>wd_tasks := ts\<rparr>" D b d]
    by (auto simp: same_pools_def split: option.splits)
next
  case (Insert_n d rows rc u)
  then show ?thesis using thread_steps_pools(3) [of wd D d rows] by (auto simp: same_pools_def split: option.splits)
next
  case (Unshift_n e rc)
  then show ?thesis using thread_steps_pools(4) [of wd D e] by (auto simp: same_pools_def)
next
  case (List_flush t ts b r)
  then show ?thesis using thread_steps_pools(5) [of "wd\<lparr>wd_tasks := ts\<rparr>" D b]
    by (auto simp: same_pools_def split: option.splits)
next
  case (Insert_flush rows rc)
  then show ?thesis using thread_steps_pools(6) [of wd D rows] by (auto simp: same_pools_def)
qed

text \<open>So a copy is one of those there were, or a copy of the database of the server as it was before.\<close>

lemma worker_act_copies:
  assumes "worker_act D pl wd evs pl' wd'"
  shows "copies pl' wd' \<subseteq> insert (wd_db wd) (copies pl wd)"
  using assms
proof cases
  case (Loop pc pc' js)
  then show ?thesis using loop_act_tasks_from [OF Loop(3)] by (fastforce simp: tasks_from_def copies_def)
next
  case (Thread j js job pc)
  note t = thread_act_copies [OF Thread(4)]
  have "js ! j \<in> set js" using Thread(3) by simp
  moreover have "set (js[j := job]) \<subseteq> insert job (set js)" by (rule set_update_subset_insert)
  ultimately show ?thesis using t Thread(1,2) unfolding copies_def by fastforce
next
  case (Completed j js)
  have "set (js[j := None]) \<subseteq> insert None (set js)" by (rule set_update_subset_insert)
  then show ?thesis using Completed(1-4) by (fastforce simp: copies_def thread_completed_def destroy_pool_def)
qed

text \<open>Workers with any number of threads.\<close>

interpretation pooled: accounting "worker_act D" worker_hands "worker_fits f" z D for z D f
proof unfold_locales
  fix pl wd evs pl' wd'
  assume a: "worker_act D pl wd evs pl' wd'" and ok: "world_ok z D wd" and f: "worker_fits f pl wd"
  note b = worker_act_balanced [OF a ok f]
  then show "world_ok z D wd' \<and> worker_fits f pl' wd'" by blast
  from b show "mset (received evs) + mset (entries (wd_sh wd)) + worker_hands pl wd =
      mset (stored evs) + mset (lost evs) + mset (entries (wd_sh wd')) + worker_hands pl' wd'"
    by (simp add: balanced_def)
next
  fix pl :: place and wd :: "('a, 'b) world" and sh s
  show "worker_hands pl (wd\<lparr>wd_sh := sh, wd_sys := s\<rparr>) = worker_hands pl wd"
    by (cases pl) (simp add: task_hands_def)
  show "worker_fits f pl (wd\<lparr>wd_sh := sh, wd_sys := s\<rparr>) = worker_fits f pl wd"
    by (cases pl) (simp add: tasks_use_def)
qed

end
