(* ===== verification/Interleaving.thy ===== *)
theory Interleaving
  imports Threads
begin

text \<open>
  What the interleaving of all workers and all their threads does to log entries: every entry is
  accounted for, what an action reports as stored is committed, and the handlers and the tasks of
  theory Handler are sequences of the actions that interleave.
\<close>

section \<open>What is stored is in the database\<close>

text \<open>
  The entries \<open>es\<close> were committed as one list (\<open>commits\<close>), or one entry was added as one row, by one
  attempt: the first one on the given database, or the retry on the database that \<open>db_init\<close> opened
  again, after a first attempt that added nothing because the file had been moved.
\<close>

definition row_reopened ::
  "'w sqlite \<Rightarrow> 'w view \<Rightarrow> db \<Rightarrow> conn \<Rightarrow> ngx_str list \<Rightarrow> 'w sys \<Rightarrow> db \<Rightarrow> 'w sys \<Rightarrow> bool" where
  "row_reopened S V d c e s d' s0 \<longleftrightarrow>
     (\<exists>t rc s1. sq t = sq s \<and> try_insert S d e t = (rc, s1) \<and> rc \<noteq> SQLITE_OK \<and> nothing_added V c (sq s) (sq s1) \<and>
        s3_extended_errcode S (Some c) (sq s1) = SQLITE_READONLY_DBMOVED \<and> db_init S d s1 = (SQLITE_OK, d', s0))"

definition stores ::
  "'w sqlite \<Rightarrow> 'w view \<Rightarrow> db \<Rightarrow> ngx_str list list \<Rightarrow> 'w sys \<Rightarrow> db \<Rightarrow> 'w sys \<Rightarrow> bool" where
  "stores S V d es s d' s' \<longleftrightarrow> commits S V d es s d' s' \<or>
     (\<exists>e c c' s0 s1. es = [e] \<and> db_conn d = Some c \<and> db_conn d' = Some c' \<and>
        try_insert S d' e s0 = (SQLITE_OK, s1) \<and> sq s1 = sq s' \<and> row_added V c' e (sq s0) (sq s') \<and>
        (d' = d \<and> sq s0 = sq s \<or> row_reopened S V d c e s d' s0))"

text \<open>SQLite refuses to prepare a statement on a NULL connection.\<close>

definition null_prepare_law :: "'w sqlite \<Rightarrow> bool" where
  "null_prepare_law S \<longleftrightarrow> (\<forall>sql w. fst (s3_prepare_v2 S None sql w) \<noteq> SQLITE_OK)"

text \<open>All that the module relies on SQLite for, for a table of the format \<open>f\<close>.\<close>

definition storage_law :: "'w sqlite \<Rightarrow> 'w view \<Rightarrow> ('w \<Rightarrow> conn set) \<Rightarrow> fmt \<Rightarrow> bool" where
  "storage_law S V conns f \<longleftrightarrow>
     sqlite_law S V f \<and> conn_law S conns \<and> null_conn_law S \<and> null_prepare_law S"

lemma stores_cong: "sq s' = sq s'' \<Longrightarrow> stores S V d es s d' s' \<Longrightarrow> stores S V d es s d' s''"
  by (simp add: stores_def commits_def)

lemma null_insert:
  assumes "null_conn_law S" and "null_prepare_law S" and "db_conn d = None" and "db_insert S d vs s = (rc, d', s')"
  shows "rc \<noteq> SQLITE_OK"
proof -
  obtain rp st s1 where p: "sqlite3_prepare_v2 S None (fmt_sql_insert (db_fmt d)) s = (rp, st, s1)"
    by (cases "sqlite3_prepare_v2 S None (fmt_sql_insert (db_fmt d)) s") auto
  have rp: "rp \<noteq> SQLITE_OK" using prepare_result [OF p] assms(2) unfolding null_prepare_law_def by (metis fst_conv)
  obtain rt s2 where t: "try_insert S d vs s = (rt, s2)" by (cases "try_insert S d vs s")
  have rt: "rt \<noteq> SQLITE_OK" using t p rp assms(3) by (auto simp: try_insert_def split: prod.splits)
  have "\<not> s3_extended_errcode S (db_conn d) (sq s2) = SQLITE_READONLY_DBMOVED"
    using assms(1,3) unfolding null_conn_law_def by auto
  from row.no_retry [OF t rt this] assms(4) rt show ?thesis by simp
qed

lemma row_stored:
  assumes law: "storage_law S V conns (db_fmt d)" and "length e = length (fmt_columns (db_fmt d))"
    and "db_insert S d e s = (SQLITE_OK, d', s')"
  shows "stores S V d [e] s d' s'"
proof -
  obtain c where c: "db_conn d = Some c"
    using null_insert [OF _ _ _ assms(3)] law by (cases "db_conn d") (auto simp: storage_law_def)
  have "sqlite_law S V (db_fmt d)" "conn_law S conns" using law by (simp_all add: storage_law_def)
  from row_inserted_once [OF this c assms(2,3)] c show ?thesis unfolding stores_def row_reopened_def by metis
qed

lemma list_stored:
  assumes law: "storage_law S V conns (db_fmt d)" and fit: "rows_fit (length (fmt_columns (db_fmt d))) rows"
    and ne: "real_rows rows \<noteq> []" and run: "db_insert_list S d rows s = (SQLITE_OK, d', s')"
  shows "stores S V d (real_rows rows) s d' s'"
proof -
  have rows: "real_rows rows = rows" "\<forall>r\<in>set rows. length r = length (fmt_columns (db_fmt d))"
    using ne fit by (auto simp: real_rows_def rows_fit_def split: if_splits)
  obtain c where c: "db_conn d = Some c"
    using null_insert_list [OF _ _ run] law by (cases "db_conn d") (auto simp: storage_law_def)
  have "commits S V d (map (padded (length (fmt_columns (db_fmt d)))) rows) s d' s'"
    using insert_list_commits [of S V d conns c rows s d' s', OF _ _ c _ run] law rows(2) by (simp add: storage_law_def)
  then show ?thesis using rows by (simp add: stores_def padded_rows)
qed

lemma rows_stored:
  assumes "storage_law S V conns (db_fmt d)" and "\<forall>r\<in>set rows. length r = length (fmt_columns (db_fmt d))"
    and "0 < length (fmt_columns (db_fmt d))" and "rows \<noteq> []" and "db_insert_list S d rows s = (SQLITE_OK, d', s')"
  shows "stores S V d rows s d' s'"
proof -
  have "real_rows rows = rows" using assms(2,3) by (intro real_rows_full) auto
  with list_stored [OF assms(1) _ _ assms(5)] assms(2,4) show ?thesis by (simp add: rows_fit_def)
qed

text \<open>The action stores \<open>es\<close> on one of the databases \<open>ds\<close>.\<close>

definition stores_in ::
  "'w sqlite \<Rightarrow> 'w view \<Rightarrow> db set \<Rightarrow> ngx_str list list \<Rightarrow> ('w, 'p) world \<Rightarrow> ('w, 'p) world \<Rightarrow> bool" where
  "stores_in S V ds es wd wd' \<longleftrightarrow> (\<exists>d\<in>ds. \<exists>d'. stores S V d es (wd_sys wd) d' (wd_sys wd'))"

lemma stores_inI:
  "stores S V d es (wd_sys wd) d' s' \<Longrightarrow> d \<in> ds \<Longrightarrow> sq (wd_sys wd') = sq s' \<Longrightarrow> stores_in S V ds es wd wd'"
  unfolding stores_in_def using stores_cong by metis

lemma act_stores:
  assumes "act D pc wd evs pc' wd'" and ok: "world_ok z D wd" and fit: "pc_fits (zn_width z) pc"
    and law: "storage_law (dp_sqlite D) V conns (db_fmt (wd_db wd))" and "Stored es \<in> set evs" and "es \<noteq> []"
  shows "stores_in (dp_sqlite D) V {wd_db wd} es wd wd'"
  using assms(1)
proof cases
  case (Insert rows u)
  have es: "es = real_rows rows" using Insert assms(5) by simp
  have i: "db_insert_list (dp_sqlite D) (wd_db wd) rows (wd_sys wd) = (SQLITE_OK, wd_db wd', wd_sys wd')"
    using handle_n_insert_spec [OF Insert(4)] by simp
  have "rows_fit (length (fmt_columns (db_fmt (wd_db wd)))) rows"
    using fit Insert(1) world_ok_parts(5) [OF ok] by simp
  from stores_inI [OF list_stored [OF law this _ i] singletonI refl] es assms(6) show ?thesis by simp
next
  case (Flush_insert rows rc)
  have es: "es = rows" "rc = SQLITE_OK" using Flush_insert assms(5) by (simp_all split: if_splits)
  obtain s where i: "db_insert_list (dp_sqlite D) (wd_db wd) rows (wd_sys wd) = (SQLITE_OK, wd_db wd', s)"
      "sq (wd_sys wd') = sq s"
    using buf_flush_insert_spec [of D rows wd wd'] Flush_insert es by auto
  note w = world_ok_parts(5) [OF ok] ready_entries(2) [OF world_ok_parts(1) [OF ok]]
  from stores_inI [OF rows_stored [OF law _ _ _ i(1)] singletonI i(2)] es assms(6) fit Flush_insert(1) w
  show ?thesis by simp
next
  case (Exit_insert rows rc)
  have es: "es = rows" "rc = SQLITE_OK" using Exit_insert assms(5) by (simp_all split: if_splits)
  obtain s where i: "db_insert_list (dp_sqlite D) (wd_db wd) rows (wd_sys wd) = (SQLITE_OK, wd_db wd', s)"
      "sq (wd_sys wd') = sq s"
    using exit_insert_spec [of D rows wd wd'] Exit_insert es by auto
  note w = world_ok_parts(5) [OF ok] ready_entries(2) [OF world_ok_parts(1) [OF ok]]
  from stores_inI [OF rows_stored [OF law _ _ _ i(1)] singletonI i(2)] es assms(6) fit Exit_insert(1) w
  show ?thesis by simp
qed (use assms(5) in \<open>auto split: if_splits\<close>)

lemma loop_act_stores:
  assumes "loop_act D pc wd evs pc' wd'" and ok: "world_ok z D wd" and fit: "pc_fits (zn_width z) pc"
    and law: "storage_law (dp_sqlite D) V conns (db_fmt (wd_db wd))" and "Stored es \<in> set evs" and "es \<noteq> []"
  shows "stores_in (dp_sqlite D) V {wd_db wd} es wd wd'"
  using assms(1)
proof cases
  case Plain
  from act_stores [OF this ok fit law assms(5,6)] show ?thesis .
next
  case (Direct e rc)
  have es: "es = [e]" "rc = NGX_OK" using Direct(2) assms(5) by (auto split: if_splits)
  obtain ri d s where i: "db_insert (dp_sqlite D) (wd_db wd) e (wd_sys wd) = (ri, d, s)"
    by (cases "db_insert (dp_sqlite D) (wd_db wd) e (wd_sys wd)") auto
  with Direct(6) es have ri: "ri = SQLITE_OK" "wd_sys wd' = s"
    by (auto simp: handle_1_def Let_def split: if_splits)
  have "length e = length (fmt_columns (db_fmt (wd_db wd)))" using fit Direct(1) world_ok_parts(5) [OF ok] by simp
  from stores_inI [OF row_stored [OF law this i [unfolded ri(1)]] singletonI] ri(2) es show ?thesis by simp
qed (use assms(5) in \<open>auto split: if_splits\<close>)

lemma thread_act_stores:
  assumes "thread_act D job wd evs job' wd'" and ok: "world_ok z D wd" and fit: "job_fits f job"
    and uses: "tasks_use f wd" and law: "storage_law (dp_sqlite D) V conns f"
    and "Stored es \<in> set evs" and "es \<noteq> []"
  shows "stores_in (dp_sqlite D) V (insert (wd_db wd) (copies (pc, [job]) wd)) es wd wd'"
proof -
  have f: "db_fmt (wd_db wd) = f" using uses by (simp add: tasks_use_def)
  have width: "length (fmt_columns f) = zn_width z" "0 < zn_width z"
    using world_ok_parts(5) [OF ok] ready_entries(2) [OF world_ok_parts(1) [OF ok]] f by simp_all
  show ?thesis
    using assms(1)
  proof cases
    case (Insert_1 t ts d e rc)
    note ft = first_task [OF ok Insert_1(5)]
    have d: "db_fmt d = f" using ft(5) [OF uses Insert_1(7)] .
    have len: "length e = length (fmt_columns (db_fmt d))"
      using ft(2) Insert_1(7,8) by (simp add: task_fits_def)
    have es: "es = [e]" "rc = SQLITE_OK" using Insert_1 assms(6) by (simp_all split: if_splits)
    obtain d' s where i: "db_insert (dp_sqlite D) d e (wd_sys wd) = (SQLITE_OK, d', s)"
      using Insert_1(9) es(2) by (metis prod.collapse)
    then have "wd_sys wd' = s" using Insert_1(4) by (simp add: thread_insert_1_def)
    moreover have "d \<in> copies (pc, [job]) wd" using Insert_1(5,7) by (intro task_copy [of t]) simp_all
    ultimately show ?thesis using stores_inI [OF row_stored [OF _ len i]] law d es by simp
  next
    case (Insert_n d rows rc u)
    have es: "es = real_rows rows" "rc = SQLITE_OK" using Insert_n assms(6) by (simp_all split: if_splits)
    obtain d' s where i: "db_insert_list (dp_sqlite D) d rows (wd_sys wd) = (SQLITE_OK, d', s)"
        "sq (wd_sys wd') = sq s"
      using thread_n_insert_keeps [OF Insert_n(4)] es(2) by blast
    have d: "db_fmt d = f" "rows_fit (length (fmt_columns (db_fmt d))) rows" using fit Insert_n(1) by auto
    have "d \<in> copies (pc, [job]) wd" using Insert_n(1) by (intro job_copy [of job]) simp_all
    with stores_inI [OF list_stored [OF _ d(2) _ i(1)] _ i(2)] law es assms(7) d(1) show ?thesis by simp
  next
    case (Insert_flush rows rc)
    have es: "es = rows" "rc = SQLITE_OK" using Insert_flush assms(6) by (simp_all split: if_splits)
    obtain s where i: "db_insert_list (dp_sqlite D) (wd_db wd) rows (wd_sys wd) = (SQLITE_OK, wd_db wd', s)"
        "sq (wd_sys wd') = sq s"
      using thread_flush_insert_keeps [of D rows wd wd'] Insert_flush es by auto
    have "\<forall>r\<in>set rows. length r = length (fmt_columns (db_fmt (wd_db wd)))" using fit Insert_flush(1) f by simp
    from stores_inI [OF rows_stored [OF _ this _ _ i(1)] insertI1 i(2)] law f width es assms(7) show ?thesis by simp
  qed (use assms(6) in \<open>auto split: if_splits\<close>)
qed

lemma worker_act_stores:
  assumes "worker_act D pl wd evs pl' wd'" and ok: "world_ok z D wd" and fits: "worker_fits f pl wd"
    and law: "storage_law (dp_sqlite D) V conns f" and "Stored es \<in> set evs" and "es \<noteq> []"
  shows "stores_in (dp_sqlite D) V (insert (wd_db wd) (copies pl wd)) es wd wd'"
  using assms(1)
proof cases
  case (Loop pc pc' js)
  have f: "db_fmt (wd_db wd) = f" using fits Loop(1) by (simp add: tasks_use_def)
  then have "pc_fits (zn_width z) pc" using fits Loop(1) world_ok_parts(5) [OF ok] by simp
  from loop_act_stores [OF Loop(3) ok this _ assms(5,6), of V conns] law f show ?thesis by (simp add: stores_in_def)
next
  case (Thread j js job pc)
  have "job_fits f (js ! j)" "tasks_use f wd" using fits Thread(1,3) by simp_all
  from thread_act_stores [OF Thread(4) ok this law assms(5,6)]
  have "stores_in (dp_sqlite D) V (insert (wd_db wd) (copies (pc, [js ! j]) wd)) es wd wd'" .
  moreover have "copies (pc, [js ! j]) wd \<subseteq> copies pl wd" using Thread(1,3) by (auto simp: copies_def)
  ultimately show ?thesis by (auto simp: stores_in_def)
next
  case (Completed j js)
  with assms(5) show ?thesis by simp
qed

section \<open>The tasks are made of actions\<close>

text \<open>The tasks that the module posts.\<close>

definition runnable :: "('w, 'p) world \<Rightarrow> task \<Rightarrow> bool" where
  "runnable wd t \<longleftrightarrow>
     (case tk_handler t of
        Thread_insert_1 \<Rightarrow> tk_db t \<noteq> None \<and> tk_entry t \<noteq> None
      | Thread_insert_n \<Rightarrow> tk_db t \<noteq> None \<and> sv_buf (wd_srv wd) \<noteq> None
      | Thread_flush \<Rightarrow> tk_entry t = None \<and> sv_buf (wd_srv wd) \<noteq> None)"

lemmas one_job = acts_one [of "thread_act D" for D]
lemmas more_jobs = acts.Act [of "thread_act D" for D]

abbreviation does_task :: "('w, 'p, 'l) deps \<Rightarrow> ('w, 'p) world \<Rightarrow> ('w, 'p) world \<Rightarrow> bool" where
  "does_task D wd wd' \<equiv> \<exists>evs. acts (thread_act D) None wd evs (Some Job_done) wd'"

lemma insert_1_acts:
  assumes "wd_tasks wd = t # ts" and "tk_handler t = Thread_insert_1" and "tk_db t = Some d" and "tk_entry t = Some e"
  shows "does_task D wd (call_task D t (wd\<lparr>wd_tasks := ts\<rparr>))"
  using one_job [OF thread_act.Insert_1 [OF assms refl]] assms by (auto simp: call_task_def)

lemma insert_n_acts:
  assumes t: "wd_tasks wd = t # ts" "tk_handler t = Thread_insert_n" "tk_db t = Some d"
    and b: "sv_buf (wd_srv wd) = Some b"
  shows "does_task D wd (call_task D t (wd\<lparr>wd_tasks := ts\<rparr>))"
proof -
  let ?w = "wd\<lparr>wd_tasks := ts\<rparr>"
  obtain r w1 where l: "thread_insert_n_locked D b d ?w = (r, w1)" by (cases "thread_insert_n_locked D b d ?w")
  note take = thread_act.List_n [OF t b l]
  have call: "call_task D t ?w = thread_insert_n D b d (tk_entry t) ?w"
    using t b by (simp add: call_task_def)
  show ?thesis
  proof (cases r)
    case None
    with call l one_job [OF take] show ?thesis by (auto simp: thread_insert_n_def)
  next
    case (Some rows)
    obtain ri w2 where i: "thread_n_insert D d rows w1 = (ri, w2)" by (cases "thread_n_insert D d rows w1")
    note ins = thread_act.Insert_n [OF i, of "tk_entry t"]
    have take: "thread_act D None wd [] (Some (Job_inserting rows d (tk_entry t))) w1" using take Some by simp
    show ?thesis
    proof (cases "ri = NGX_OK \<and> tk_entry t \<noteq> None")
      case False
      then have "call_task D t ?w = w2" using call l Some i by (auto simp: thread_insert_n_def)
      moreover have "thread_act D (Some (Job_inserting rows d (tk_entry t))) w1
          [if ri = SQLITE_OK then Stored (real_rows rows) else Lost (real_rows rows @ opt_entry (tk_entry t))]
          (Some Job_done) w2"
        using ins False by (cases "tk_entry t") auto
      ultimately show ?thesis using more_jobs [OF take one_job] by fastforce
    next
      case True
      then obtain e where e: "tk_entry t = Some e" by blast
      obtain ru w3 where u: "thread_n_unshift D e w2 = (ru, w3)" by (cases "thread_n_unshift D e w2")
      have "call_task D t ?w = w3" using call l Some i e u True by (simp add: thread_insert_n_def)
      moreover have "thread_act D (Some (Job_inserting rows d (tk_entry t))) w1 [Stored (real_rows rows)]
          (Some (Job_unshifting e)) w2"
        using ins e True by simp
      ultimately show ?thesis
        using more_jobs [OF take more_jobs [OF _ one_job [OF thread_act.Unshift_n [OF u]]]] by auto
    qed
  qed
qed

lemma flush_acts:
  assumes t: "wd_tasks wd = t # ts" "tk_handler t = Thread_flush" "tk_entry t = None"
    and b: "sv_buf (wd_srv wd) = Some b"
  shows "does_task D wd (call_task D t (wd\<lparr>wd_tasks := ts\<rparr>))"
proof -
  let ?w = "wd\<lparr>wd_tasks := ts\<rparr>"
  obtain r w1 where l: "thread_flush_locked D b ?w = (r, w1)" by (cases "thread_flush_locked D b ?w")
  note take = thread_act.List_flush [OF t b l]
  have call: "call_task D t ?w = thread_flush D b ?w"
    using t b by (simp add: call_task_def split: option.splits)
  show ?thesis
  proof (cases r)
    case None
    with call l one_job [OF take] show ?thesis by (auto simp: thread_flush_def)
  next
    case (Some rows)
    then have "thread_act D None wd [] (Some (Job_flushing rows)) w1" using take by simp
    from more_jobs [OF this one_job [OF thread_act.Insert_flush [OF refl]]] call l Some show ?thesis
      by (auto simp: thread_flush_def)
  qed
qed

lemma task_acts:
  assumes "wd_tasks wd = t # ts" and "runnable wd t"
  shows "does_task D wd (call_task D t (wd\<lparr>wd_tasks := ts\<rparr>))"
proof (cases "tk_handler t")
  case Thread_insert_1
  then show ?thesis using assms insert_1_acts [OF assms(1) Thread_insert_1] by (auto simp: runnable_def)
next
  case Thread_insert_n
  then show ?thesis using assms insert_n_acts [OF assms(1) Thread_insert_n] by (auto simp: runnable_def)
next
  case Thread_flush
  then show ?thesis using assms flush_acts [OF assms(1) Thread_flush] by (auto simp: runnable_def)
qed

section \<open>Properties\<close>

text \<open>
  However the event loops and the threads of all workers interleave, the mutex discipline
  holds and every entry is accounted for: those that were queued, in a posted task or in the hands
  of a worker or thread at the start and those received since are, as often as they occurred,
  committed, dropped with an error, still queued, or in the hands of a worker, task or thread. So
  nothing is stored twice, and when nobody holds an entry and none had an error, what was received
  is stored or queued.
\<close>

theorem nothing_lost_silently:
  assumes "site_ok (worker_fits f) z D g" and "interleaving (worker_act D) g evs g'"
  shows "mset (received evs) + mset (entries (st_sh g)) + all_hands worker_hands g =
      mset (stored evs) + mset (lost evs) + mset (entries (st_sh g')) + all_hands worker_hands g' \<and>
    (st_workers g \<noteq> [] \<longrightarrow> \<not> sh_held (st_sh g') \<and> \<not> sh_fault (st_sh g'))"
  using pooled.interleaving_balance [OF assms(2,1)] pooled.interleaving_mutex [OF assms(2,1)] by blast

text \<open>
  Two workers with buffers of two entries, each with one idle thread; the first one has just built
  a log entry.
\<close>

definition example_place :: "nat \<Rightarrow> place" where
  "example_place i = (if i = 0 then Handling example_entry else Idle, [None])"

definition example_site :: "(place, nat \<times> int, slab_state) site" where
  "example_site = \<lparr>st_sh = example_shctx 8, st_sys = full_sys,
     st_workers = [(example_place 0, example_full_world), (example_place 1, example_full_world)]\<rparr>"

lemma example_full_simps [simp]:
  "wd_tasks example_full_world = []" "\<not> wd_tp example_full_world" "wd_db example_full_world = mem_db"
  "sv_buf (wd_srv example_full_world) = Some (example_buf 2)" "sv_enabled (wd_srv example_full_world) = 1"
  by (simp_all add: example_full_world_def)

lemma example_site_world: "i < 2 \<Longrightarrow> worker_world example_site i = example_full_world"
  by (cases i) (auto simp: example_site_def worker_world_def example_full_world_def example_world_def
      less_Suc_eq numeral_2_eq_2)

lemma example_empty_ok: "world_ok (example_zone 2 0) (example_deps full_api) example_full_world"
  unfolding example_full_world_def by (rule example_world_ok)

lemma example_site_ok: "site_ok (worker_fits mem_fmt) (example_zone 2 0) (example_deps full_api) example_site"
proof -
  have "length (st_workers example_site) = 2" by (simp add: example_site_def)
  moreover have "worker_pc example_site i = example_place i" if "i < 2" for i
    using that by (cases i) (auto simp: example_site_def worker_pc_def less_Suc_eq numeral_2_eq_2)
  ultimately show ?thesis
    using example_site_world example_empty_ok by (simp add: site_ok_def tasks_use_def example_place_def)
qed

lemma example_locked_eval:
  "fst (handle_n_locked (example_deps full_api) (example_buf 2) example_entry example_full_world) = Inl NGX_OK"
  "entries (wd_sh (snd (handle_n_locked (example_deps full_api) (example_buf 2) example_entry example_full_world))) =
     [example_entry]"
  by code_simp+

definition example_site_1 :: "(place, nat \<times> int, slab_state) site" where
  "example_site_1 = put_worker 0 (Idle, [None])
     (snd (handle_n_locked (example_deps full_api) (example_buf 2) example_entry example_full_world)) example_site"

theorem nothing_lost_silently_witness:
  "interleaving (worker_act (example_deps full_api)) example_site [] example_site_1 \<and>
   all_hands worker_hands example_site = {#example_entry#} \<and> all_hands worker_hands example_site_1 = {#}"
proof -
  let ?D = "example_deps full_api"
  let ?w = "snd (handle_n_locked ?D (example_buf 2) example_entry example_full_world)"
  have w: "worker_world example_site 0 = example_full_world" by (rule example_site_world) simp
  have "handle_n_locked ?D (example_buf 2) example_entry example_full_world = (Inl NGX_OK, ?w)"
    using example_locked_eval(1) by (metis prod.collapse)
  then have "act ?D (Handling example_entry) example_full_world [] Idle ?w"
    by (intro act.Queue [where b = "example_buf 2"]) simp_all
  then have "worker_act ?D (worker_pc example_site 0) (worker_world example_site 0) [] (Idle, [None]) ?w"
    using worker_act.Loop [OF loop_act.Plain, of ?D "Handling example_entry" example_full_world "[]" Idle ?w "[None]"] w
    by (simp add: worker_pc_def example_site_def example_place_def)
  then have run: "interleaving (worker_act ?D) example_site [] example_site_1"
    using interleaving.Step [OF interleaving.Start, of 0 example_site "worker_act ?D" "[]" "(Idle, [None])" ?w]
    by (simp add: example_site_1_def) (simp add: example_site_def)
  have hands: "all_hands worker_hands example_site = {#example_entry#}"
    by (simp add: all_hands_def example_site_def example_place_def task_hands_def)
  have "entries (st_sh example_site_1) = [example_entry]"
    using example_locked_eval(2) by (simp add: example_site_1_def put_worker_def)
  with nothing_lost_silently [OF example_site_ok run] run hands show ?thesis
    by (simp add: example_site_def)
qed

text \<open>A worker with one thread and a posted task with one entry.\<close>

definition example_task :: task where
  "example_task = \<lparr>tk_handler = Thread_insert_1, tk_db = Some mem_db, tk_entry = Some example_entry\<rparr>"

definition example_task_world :: "(mem_sqlite, slab_state) world" where
  "example_task_world = (example_world mem_start None True 8)\<lparr>wd_tasks := [example_task]\<rparr>"

lemma mem_storage_law: "storage_law mem_api mem_view mem_conns mem_fmt"
proof -
  have "null_conn_law mem_api" "null_prepare_law mem_api"
    by (simp_all add: null_conn_law_def null_prepare_law_def mem_api_def mem_exec_def mem_prepare_def)
  then show ?thesis using mem_sqlite_law mem_conn_law by (simp add: storage_law_def)
qed

section \<open>Two threads on one connection\<close>

text \<open>
  SQLite documents that a transaction cannot start within a transaction: the extended result code
  is then that of a generic error.
\<close>

definition nested_begin_law :: "'w sqlite \<Rightarrow> 'w view \<Rightarrow> bool" where
  "nested_begin_law S V \<longleftrightarrow>
     (\<forall>c w rs. v_txn V c w = Some rs \<longrightarrow>
        s3_extended_errcode S (Some c) (snd (s3_exec S (Some c) ''BEGIN EXCLUSIVE TRANSACTION'' w)) = SQLITE_ERROR)"

lemma second_list_refused:
  assumes law: "sqlite_law S V (db_fmt d)" and c: "db_conn d = Some c" and t: "v_txn V c (sq s) = Some rs"
    and nested: "nested_begin_law S V" and run: "db_insert_list S d parts s = (rc, d', s')"
  shows "rc \<noteq> SQLITE_OK \<and> d' = d \<and> same_rows V c (sq s) (sq s')"
proof -
  obtain rt s1 where try_run: "try_insert_list S d parts s = (rt, s1)" by (cases "try_insert_list S d parts s")
  note b = open_transaction_blocks [OF law c t try_run]
  obtain rcb s2 where e: "sqlite3_exec S (Some c) ''BEGIN EXCLUSIVE TRANSACTION'' s = (rcb, s2)"
    by (cases "sqlite3_exec S (Some c) ''BEGIN EXCLUSIVE TRANSACTION'' s")
  have "rcb \<noteq> SQLITE_OK"
    using law_txn(1) [OF law conjunct1 [OF exec_txn(1) [OF e]]] t by (auto split: if_splits)
  then have "s1 = s2" using try_run c e by (simp add: try_insert_list_def)
  moreover have "sq s2 = snd (s3_exec S (Some c) ''BEGIN EXCLUSIVE TRANSACTION'' (sq s))"
    using exec_txn(1) [OF e] by simp
  ultimately have "s3_extended_errcode S (db_conn d) (sq s1) = SQLITE_ERROR"
    using nested t c by (simp add: nested_begin_law_def)
  then have "\<not> (s3_extended_errcode S (db_conn d) (sq s1) = SQLITE_READONLY_DBMOVED \<or>
      s3_extended_errcode S (db_conn d) (sq s1) = SQLITE_OK)" by simp
  from rows.no_retry [OF try_run _ this] b run show ?thesis by simp
qed

text \<open>
  C27. The tasks of one worker use one connection. A thread that gets to its
  insertion while another one is inside its transaction is refused, without a new attempt: it
  stores nothing, reports an error, and the entries that it had taken from the queue are not put
  back. The other transaction goes on as if nothing had happened.
\<close>

theorem second_thread_loses_list:
  assumes "sqlite_law (dp_sqlite D) V (db_fmt d)" and "nested_begin_law (dp_sqlite D) V"
    and "db_conn d = Some c" and "v_txn V c (sq (wd_sys wd)) = Some rs" and "thread_n_insert D d rows wd = (rc, wd')"
  shows "rc \<noteq> SQLITE_OK \<and> wd_sh wd' = wd_sh wd \<and> v_rows V c (sq (wd_sys wd')) = v_rows V c (sq (wd_sys wd)) \<and>
    v_txn V c (sq (wd_sys wd')) = Some rs \<and>
    thread_act D (Some (Job_inserting rows d u)) wd [Lost (real_rows rows @ opt_entry u)] (Some Job_done) wd'"
proof -
  obtain d' s where i: "db_insert_list (dp_sqlite D) d rows (wd_sys wd) = (rc, d', s)" "sq (wd_sys wd') = sq s"
    and k: "keeps wd wd'"
    using thread_n_insert_keeps [OF assms(5)] by blast
  note r = second_list_refused [OF assms(1,3,4,2) i(1)]
  have "thread_act D (Some (Job_inserting rows d u)) wd [Lost (real_rows rows @ opt_entry u)] (Some Job_done) wd'"
    using thread_act.Insert_n [OF assms(5), of u] r by (cases u) simp_all
  with r i(2) k assms(4) show ?thesis by (simp add: same_rows_def keeps_def)
qed

theorem second_thread_loses_list_witness:
  "\<exists>rc wd'. thread_n_insert (example_deps mem_api) mem_db one_row (example_world mem_txn_open None True 8) = (rc, wd') \<and>
     rc \<noteq> SQLITE_OK \<and> v_txn mem_view 1 (sq (wd_sys wd')) = Some two_rows"
proof -
  let ?w = "example_world mem_txn_open None True 8" and ?D = "example_deps mem_api"
  obtain rc wd' where run: "thread_n_insert ?D mem_db one_row ?w = (rc, wd')"
    by (cases "thread_n_insert ?D mem_db one_row ?w")
  have "nested_begin_law mem_api mem_view"
    by (auto simp: nested_begin_law_def mem_api_def mem_exec_def mem_view_def)
  moreover have "v_txn mem_view 1 (sq (wd_sys ?w)) = Some two_rows"
    by (simp add: mem_view_def mem_txn_open_def)
  ultimately show ?thesis
    using second_thread_loses_list [of ?D mem_view mem_db 1 ?w two_rows one_row rc wd'] mem_db_law run by simp
qed

end
