(* ===== verification/Process.thy ===== *)
theory Process
  imports Worker
begin

text \<open>
  A worker process with all its servers: the loops of \<open>init_worker\<close> and \<open>exit_worker\<close> in
  \<open>ngx_http_sqlitelog_module.c\<close>, and what happens between them. Servers that inherit a \<open>sqlitelog\<close>
  share one buffer: one flush event, and one pointer from its flush context to the database of one
  of them. Servers whose buffers have the same zone share it. One server with its
  view of the rest is a \<open>world\<close> of theory Handler, so the handlers are used as they are.
\<close>

section \<open>State\<close>

text \<open>
  \<open>sb_db\<close> is the \<open>db\<close> of the flush context: the number of the server whose database it points to,
  \<open>None\<close> for NULL.
\<close>

record shared_buf =
  sb_buf :: buf
  sb_db :: "nat option"

text \<open>
  nginx knows a zone by its name and size: a new configuration that asks for the same takes the old
  zone over. \<open>No_zone g i\<close> is what server number \<open>i\<close> of configuration number \<open>g\<close> has in its place
  when it has no buffer, and nothing works on it.
\<close>

datatype zone_id = Zone string int | No_zone nat nat

text \<open>
  A server: \<open>sl_buf\<close> is the number of its buffer (its own \<open>sv_buf\<close> is not used), \<open>sl_zone\<close> the
  zone of that buffer. The rest is what the server left behind in nginx.
\<close>

record slot =
  sl_srv :: srv
  sl_buf :: "nat option"
  sl_zone :: zone_id
  sl_pools :: int
  sl_blocked :: int
  sl_tasks :: "task list"

text \<open>\<open>pr_srvs\<close> holds \<open>None\<close> for a server without a configuration of this module.\<close>

record ('w, 'p) process =
  pr_sys :: "'w sys"
  pr_mem :: mem
  pr_tp :: bool
  pr_zones :: "zone_id \<Rightarrow> 'p shctx"
  pr_bufs :: "shared_buf list"
  pr_srvs :: "slot option list"

text \<open>What a handler of the server \<open>s\<close> sees, and what it leaves behind as server number \<open>i\<close>.\<close>

definition srv_view :: "slot \<Rightarrow> ('w, 'p) process \<Rightarrow> ('w, 'p) world" where
  "srv_view s p = \<lparr>wd_srv = (sl_srv s)\<lparr>sv_buf := map_option (\<lambda>k. sb_buf (pr_bufs p ! k)) (sl_buf s)\<rparr>,
     wd_sys = pr_sys p, wd_sh = pr_zones p (sl_zone s), wd_mem = pr_mem p, wd_pools = sl_pools s,
     wd_blocked = sl_blocked s, wd_tasks = sl_tasks s, wd_tp = pr_tp p\<rparr>"

definition put_buf :: "nat option \<Rightarrow> buf option \<Rightarrow> shared_buf list \<Rightarrow> shared_buf list" where
  "put_buf k b bs = (case (k, b) of (Some k, Some b) \<Rightarrow> bs[k := (bs ! k)\<lparr>sb_buf := b\<rparr>] | _ \<Rightarrow> bs)"

definition put_back :: "nat \<Rightarrow> slot \<Rightarrow> ('w, 'p) world \<Rightarrow> ('w, 'p) process \<Rightarrow> ('w, 'p) process" where
  "put_back i s wd p = p\<lparr>pr_sys := wd_sys wd, pr_mem := wd_mem wd,
     pr_zones := (pr_zones p)(sl_zone s := wd_sh wd),
     pr_bufs := put_buf (sl_buf s) (sv_buf (wd_srv wd)) (pr_bufs p),
     pr_srvs := (pr_srvs p)[i := Some (s\<lparr>sl_srv := (wd_srv wd)\<lparr>sv_buf := sv_buf (sl_srv s)\<rparr>,
       sl_pools := wd_pools wd, sl_blocked := wd_blocked wd, sl_tasks := wd_tasks wd\<rparr>)]\<rparr>"

section \<open>Start and exit\<close>

text \<open>
  The body of the loop of \<open>init_worker\<close> for server number \<open>i\<close>: after the flush timer was started,
  the flush context of the buffer gets the database of this server.
\<close>

definition init_slot :: "('w, 'p, 'l) deps \<Rightarrow> nat \<Rightarrow> slot \<Rightarrow> ('w, 'p) process \<Rightarrow> ('w, 'p) process" where
  "init_slot D i s p =
     (let (sv, sys) = init_worker_srv (dp_sqlite D) (dp_pid D) (wd_srv (srv_view s p)) (pr_sys p);
          p = put_back i s ((srv_view s p)\<lparr>wd_srv := sv, wd_sys := sys\<rparr>) p
      in case (sl_buf s, sv_buf sv) of
           (Some k, Some b) \<Rightarrow>
             if sv_enabled sv \<noteq> 0 \<and> buf_flush b \<noteq> 0
             then p\<lparr>pr_bufs := (pr_bufs p)[k := (pr_bufs p ! k)\<lparr>sb_db := Some i\<rparr>]\<rparr> else p
         | _ \<Rightarrow> p)"

text \<open>After the first \<open>n\<close> iterations.\<close>

fun init_slots :: "('w, 'p, 'l) deps \<Rightarrow> nat \<Rightarrow> ('w, 'p) process \<Rightarrow> ('w, 'p) process" where
  "init_slots D 0 p = p"
| "init_slots D (Suc n) p =
     (let p = init_slots D n p
      in case pr_srvs p ! n of None \<Rightarrow> p | Some s \<Rightarrow> init_slot D n s p)"

definition init_worker :: "('w, 'p, 'l) deps \<Rightarrow> ('w, 'p) process \<Rightarrow> int \<times> ('w, 'p) process" where
  "init_worker D p = (NGX_OK, init_slots D (length (pr_srvs p)) p)"

fun exit_slots :: "('w, 'p, 'l) deps \<Rightarrow> nat \<Rightarrow> ('w, 'p) process \<Rightarrow> ('w, 'p) process" where
  "exit_slots D 0 p = p"
| "exit_slots D (Suc n) p =
     (let p = exit_slots D n p
      in case pr_srvs p ! n of
           None \<Rightarrow> p
         | Some s \<Rightarrow> put_back n s (exit_srv D (srv_view s p)) p)"

definition exit_worker :: "('w, 'p, 'l) deps \<Rightarrow> ('w, 'p) process \<Rightarrow> ('w, 'p) process" where
  "exit_worker D p = exit_slots D (length (pr_srvs p)) p"

section \<open>Between start and exit\<close>

text \<open>
  What a worker process does, from the start of a handler to its end: a request to a server, the
  flush event of a buffer, which works on the server that its flush context points to, and a task.
\<close>

inductive event_step :: "('w, 'p, 'l) deps \<Rightarrow> ('w, 'p) process \<Rightarrow> ('w, 'p) process \<Rightarrow> bool" for D where
  Request: "i < length (pr_srvs p) \<Longrightarrow> pr_srvs p ! i = Some s \<Longrightarrow> handler D r (srv_view s p) = (rc, wd) \<Longrightarrow>
    event_step D p (put_back i s wd p)"
| Timer: "k < length (pr_bufs p) \<Longrightarrow> pr_bufs p ! k = sb \<Longrightarrow> buf_event (sb_buf sb) = Some ev \<Longrightarrow> timer_set ev \<Longrightarrow>
    sb_db sb = Some i \<Longrightarrow> i < length (pr_srvs p) \<Longrightarrow> pr_srvs p ! i = Some s \<Longrightarrow>
    event_step D p
      (put_back i s (buf_flush_handler D (fired (sb_buf sb)) (set_buf (fired (sb_buf sb)) (srv_view s p))) p)"
| Task: "i < length (pr_srvs p) \<Longrightarrow> pr_srvs p ! i = Some s \<Longrightarrow> sl_tasks s \<noteq> [] \<Longrightarrow>
    event_step D p (put_back i s (run_task D (srv_view s p)) p)"

text \<open>The event of the buffer \<open>k\<close> expires; its flush context points to server number \<open>i\<close>.\<close>

definition flushed :: "('w, 'p, 'l) deps \<Rightarrow> nat \<Rightarrow> nat \<Rightarrow> slot \<Rightarrow> ('w, 'p) process \<Rightarrow> ('w, 'p) process" where
  "flushed D k i s p =
     (let b = fired (sb_buf (pr_bufs p ! k))
      in put_back i s (buf_flush_handler D b (set_buf b (srv_view s p))) p)"

section \<open>Views\<close>

lemma view_simps [simp]:
  "wd_sh (srv_view s p) = pr_zones p (sl_zone s)" "wd_sys (srv_view s p) = pr_sys p"
  "wd_mem (srv_view s p) = pr_mem p" "wd_tasks (srv_view s p) = sl_tasks s" "wd_tp (srv_view s p) = pr_tp p"
  "wd_db (srv_view s p) = sv_db (sl_srv s)" "sv_enabled (wd_srv (srv_view s p)) = sv_enabled (sl_srv s)"
  "sv_buf (wd_srv (srv_view s p)) = map_option (\<lambda>k. sb_buf (pr_bufs p ! k)) (sl_buf s)"
  by (simp_all add: srv_view_def)

lemma put_back_simps [simp]:
  "pr_sys (put_back i s wd p) = wd_sys wd" "pr_mem (put_back i s wd p) = wd_mem wd"
  "pr_tp (put_back i s wd p) = pr_tp p" "pr_zones (put_back i s wd p) = (pr_zones p)(sl_zone s := wd_sh wd)"
  "pr_bufs (put_back i s wd p) = put_buf (sl_buf s) (sv_buf (wd_srv wd)) (pr_bufs p)"
  "length (pr_srvs (put_back i s wd p)) = length (pr_srvs p)"
  by (simp_all add: put_back_def)

lemma put_back_slot:
  "i < length (pr_srvs p) \<Longrightarrow> pr_srvs (put_back i s wd p) ! j =
    (if j = i then Some (s\<lparr>sl_srv := (wd_srv wd)\<lparr>sv_buf := sv_buf (sl_srv s)\<rparr>,
       sl_pools := wd_pools wd, sl_blocked := wd_blocked wd, sl_tasks := wd_tasks wd\<rparr>) else pr_srvs p ! j)"
  by (simp add: put_back_def)

lemma update_same: "f x = f (xs ! k) \<Longrightarrow> map f (xs[k := x]) = map f xs"
  by (cases "k < length xs") (auto simp: list_eq_iff_nth_eq nth_list_update)

lemma put_buf_links [simp]:
  "map sb_db (put_buf k b bs) = map sb_db bs" "length (put_buf k b bs) = length bs"
  by (simp_all add: put_buf_def update_same split: option.split)

lemma put_buf_link [simp]: "j < length bs \<Longrightarrow> sb_db (put_buf k b bs ! j) = sb_db (bs ! j)"
  using put_buf_links(1) [of k b bs] by (metis nth_map put_buf_links(2))

lemma put_buf_same [simp]: "put_buf k (map_option (\<lambda>k. sb_buf (bs ! k)) k) bs = bs"
proof (cases k)
  case (Some j)
  have "(bs ! j)\<lparr>sb_buf := sb_buf (bs ! j)\<rparr> = bs ! j" by simp
  with Some show ?thesis by (simp add: put_buf_def)
qed (simp add: put_buf_def)

text \<open>A handler that changes nothing leaves the process as it is.\<close>

lemma put_view:
  assumes "pr_srvs p ! i = Some s"
  shows "put_back i s (srv_view s p) p = p"
proof -
  have s: "s\<lparr>sl_srv := (wd_srv (srv_view s p))\<lparr>sv_buf := sv_buf (sl_srv s)\<rparr>, sl_pools := wd_pools (srv_view s p),
      sl_blocked := wd_blocked (srv_view s p), sl_tasks := wd_tasks (srv_view s p)\<rparr> = s"
    by (simp add: srv_view_def)
  have "(pr_srvs p)[i := Some s] = pr_srvs p" using assms by (metis list_update_id)
  then show ?thesis unfolding put_back_def s by simp
qed

section \<open>The invariant of a process\<close>

text \<open>
  \<open>zs k\<close> is the zone \<open>k\<close>, with the number of columns of the servers that use it. A dormant
  server was never enabled: nothing works on its database.
\<close>

definition slot_ok :: "(zone_id \<Rightarrow> ('p, 'l) zone) \<Rightarrow> ('w, 'p, 'l) deps \<Rightarrow> slot \<Rightarrow> bool" where
  "slot_ok zs D s \<longleftrightarrow> zone_fits (zs (sl_zone s)) D (sv_db (sl_srv s)) \<and>
     (\<forall>t\<in>set (sl_tasks s). task_fits (zn_width (zs (sl_zone s))) t)"

definition dormant :: "nat \<Rightarrow> slot \<Rightarrow> ('w, 'p) process \<Rightarrow> bool" where
  "dormant i s p \<longleftrightarrow> sv_enabled (sl_srv s) = 0 \<and> sl_tasks s = [] \<and> Some i \<notin> set (map sb_db (pr_bufs p))"

definition process_ok ::
  "(zone_id \<Rightarrow> ('p, 'l) zone) \<Rightarrow> ('w, 'p, 'l) deps \<Rightarrow> ('w, 'p) process \<Rightarrow> bool" where
  "process_ok zs D p \<longleftrightarrow> (\<forall>k. zone_ready (zs k) (pr_zones p k)) \<and>
     (\<forall>i<length (pr_srvs p). \<forall>s. pr_srvs p ! i = Some s \<longrightarrow> slot_ok zs D s \<or> dormant i s p)"

lemma view_ok: "process_ok zs D p \<Longrightarrow> slot_ok zs D s \<Longrightarrow> world_ok (zs (sl_zone s)) D (srv_view s p)"
  by (simp add: process_ok_def slot_ok_def world_ok_def)

lemma put_back_ok:
  assumes ok: "process_ok zs D p" and i: "i < length (pr_srvs p)" and wd: "world_ok (zs (sl_zone s)) D wd"
  shows "process_ok zs D (put_back i s wd p)"
  unfolding process_ok_def
proof (intro conjI allI impI)
  fix k
  show "zone_ready (zs k) (pr_zones (put_back i s wd p) k)"
    using ok wd by (simp add: process_ok_def world_ok_def)
next
  fix j s' assume j: "j < length (pr_srvs (put_back i s wd p))" "pr_srvs (put_back i s wd p) ! j = Some s'"
  show "slot_ok zs D s' \<or> dormant j s' (put_back i s wd p)"
  proof (cases "j = i")
    case True
    with j i wd show ?thesis by (auto simp: put_back_slot slot_ok_def world_ok_def)
  next
    case False
    with j i ok show ?thesis by (auto simp: put_back_slot process_ok_def dormant_def)
  qed
qed

text \<open>A server that does anything is not dormant.\<close>

lemma awake:
  assumes "process_ok zs D p" and "i < length (pr_srvs p)" and "pr_srvs p ! i = Some s"
    and "sv_enabled (sl_srv s) \<noteq> 0 \<or> sl_tasks s \<noteq> [] \<or> (\<exists>k<length (pr_bufs p). sb_db (pr_bufs p ! k) = Some i)"
  shows "slot_ok zs D s"
proof -
  have "\<not> dormant i s p"
  proof
    assume d: "dormant i s p"
    with assms(4) obtain k where "k < length (pr_bufs p)" "sb_db (pr_bufs p ! k) = Some i"
      by (auto simp: dormant_def)
    then have "Some i \<in> set (map sb_db (pr_bufs p))" by (metis length_map nth_map nth_mem)
    with d show False by (simp add: dormant_def)
  qed
  with assms(1-3) show ?thesis by (auto simp: process_ok_def)
qed

lemma handler_disabled: "sv_enabled (wd_srv wd) = 0 \<Longrightarrow> handler D r wd = (NGX_OK, wd)"
  by (simp add: handler_def)

lemma flush_handler_ok:
  "world_ok z D wd \<Longrightarrow> world_ok z D (buf_flush_handler D (fired b) (set_buf (fired b) wd))"
  by (simp add: buf_flush_handler_def buf_flush_sync_ok buf_flush_async_ok)

lemma event_step_ok: "event_step D p p' \<Longrightarrow> process_ok zs D p \<Longrightarrow> process_ok zs D p'"
proof (induction rule: event_step.induct)
  case (Request i p s r rc wd)
  show ?case
  proof (cases "sv_enabled (sl_srv s) = 0")
    case True
    then have "wd = srv_view s p" using Request(3) handler_disabled [of "srv_view s p" D r] by simp
    with Request(2,4) show ?thesis by (simp add: put_view)
  next
    case False
    then have "slot_ok zs D s" using awake [OF Request(4,1,2)] by simp
    then show ?thesis using handler_ok [OF view_ok [OF Request(4)] Request(3)] by (intro put_back_ok [OF Request(4,1)])
  qed
next
  case (Timer k p sb ev i s)
  have "slot_ok zs D s" using awake [OF Timer(8,6,7)] Timer(1,2,5) by blast
  then show ?case by (intro put_back_ok [OF Timer(8,6)] flush_handler_ok view_ok [OF Timer(8)])
next
  case (Task i p s)
  have "slot_ok zs D s" using awake [OF Task(4,1,2)] Task(3) by simp
  from run_task_ok [OF view_ok [OF Task(4) this]] show ?case by (intro put_back_ok [OF Task(4,1)]) simp
qed

section \<open>The flush context\<close>

definition timer_on :: "buf \<Rightarrow> bool" where
  "timer_on b \<longleftrightarrow> (\<exists>ev. buf_event b = Some ev \<and> timer_set ev)"

definition can_flush :: "buf \<Rightarrow> bool" where
  "can_flush b \<longleftrightarrow> buf_flush b \<noteq> 0 \<and> buf_event b \<noteq> None"

text \<open>
  Every buffer of a server exists, every flush context points to a server with this buffer, and the
  context of a buffer whose timer runs, or whose timer a server may start, is set.
\<close>

definition linked :: "('w, 'p) process \<Rightarrow> bool" where
  "linked p \<longleftrightarrow>
     (\<forall>i<length (pr_srvs p). \<forall>s k. pr_srvs p ! i = Some s \<and> sl_buf s = Some k \<longrightarrow> k < length (pr_bufs p) \<and>
        (sb_db (pr_bufs p ! k) = None \<longrightarrow> can_flush (sb_buf (pr_bufs p ! k)) \<longrightarrow>
           sv_enabled (sl_srv s) = 0 \<and> sl_tasks s = [])) \<and>
     (\<forall>k<length (pr_bufs p). timer_on (sb_buf (pr_bufs p ! k)) \<longrightarrow> sb_db (pr_bufs p ! k) \<noteq> None) \<and>
     (\<forall>k<length (pr_bufs p). \<forall>i. sb_db (pr_bufs p ! k) = Some i \<longrightarrow>
        i < length (pr_srvs p) \<and> (\<exists>s. pr_srvs p ! i = Some s \<and> sl_buf s = Some k))"

lemma linked_cong: "pr_bufs p' = pr_bufs p \<Longrightarrow> pr_srvs p' = pr_srvs p \<Longrightarrow> linked p' = linked p"
  by (simp only: linked_def)

lemma linkedD:
  assumes "linked p"
  shows "i < length (pr_srvs p) \<Longrightarrow> pr_srvs p ! i = Some s \<Longrightarrow> sl_buf s = Some k \<Longrightarrow> k < length (pr_bufs p)"
    "i < length (pr_srvs p) \<Longrightarrow> pr_srvs p ! i = Some s \<Longrightarrow> sl_buf s = Some k \<Longrightarrow> sb_db (pr_bufs p ! k) = None \<Longrightarrow>
      can_flush (sb_buf (pr_bufs p ! k)) \<Longrightarrow> sv_enabled (sl_srv s) = 0 \<and> sl_tasks s = []"
    "k < length (pr_bufs p) \<Longrightarrow> timer_on (sb_buf (pr_bufs p ! k)) \<Longrightarrow> sb_db (pr_bufs p ! k) \<noteq> None"
    "k < length (pr_bufs p) \<Longrightarrow> sb_db (pr_bufs p ! k) = Some i \<Longrightarrow>
      i < length (pr_srvs p) \<and> (\<exists>s. pr_srvs p ! i = Some s \<and> sl_buf s = Some k)"
  using assms unfolding linked_def by blast+

text \<open>What the operations of a server do to its buffer.\<close>

definition buf_moves :: "buf \<Rightarrow> buf \<Rightarrow> bool" where
  "buf_moves b b' \<longleftrightarrow> can_flush b' = can_flush b \<and> (timer_on b' \<longrightarrow> timer_on b \<or> can_flush b)"

definition moves :: "('w, 'p) world \<Rightarrow> ('w, 'p) world \<Rightarrow> bool" where
  "moves wd wd' \<longleftrightarrow> rel_option buf_moves (sv_buf (wd_srv wd)) (sv_buf (wd_srv wd'))"

lemma buf_moves_refl [simp]: "buf_moves b b"
  by (simp add: buf_moves_def)

lemma buf_moves_reset [simp]: "buf_moves b (buf_timer_reset b)"
  by (auto simp: buf_moves_def can_flush_def timer_on_def buf_timer_reset_def buf_timer_stop_def
      buf_timer_start_def split: option.splits)

lemma moves_refl [simp]: "sv_buf (wd_srv wd') = sv_buf (wd_srv wd) \<Longrightarrow> moves wd wd'"
  by (simp add: moves_def option.rel_refl)

lemma moves_trans: "moves w1 w2 \<Longrightarrow> moves w2 w3 \<Longrightarrow> moves w1 w3"
  by (auto simp: moves_def option_rel_Some1 buf_moves_def elim!: option.rel_cases)

lemma keeps_moves: "keeps wd wd' \<Longrightarrow> moves wd wd'"
  by (simp add: keeps_def)

lemma locked_moves:
  assumes b: "sv_buf (wd_srv wd) = Some b"
  shows "handle_n_locked D b e wd = (r, wd') \<Longrightarrow> moves wd wd'"
    "buf_flush_locked D b wd = (r', wd') \<Longrightarrow> moves wd wd'"
    "thread_insert_n_locked D b d wd = (r', wd') \<Longrightarrow> moves wd wd'"
    "thread_flush_locked D b wd = (r', wd') \<Longrightarrow> moves wd wd'"
  using b by (auto simp: handle_n_locked_def buf_flush_locked_def thread_insert_n_locked_def thread_flush_locked_def
      moves_def set_buf_def wd_log_def create_pool_def wd_palloc_def destroy_pool_def Let_def
      split: prod.splits option.splits if_splits)

lemma unshift_moves:
  "handle_n_unshift D e wd = (rc, wd') \<Longrightarrow> moves wd wd'" "thread_n_unshift D e wd = (rc, wd') \<Longrightarrow> moves wd wd'"
  by (auto simp: handle_n_unshift_def thread_n_unshift_def wd_log_def Let_def split: prod.splits if_splits)

lemma handle_n_moves:
  assumes b: "sv_buf (wd_srv wd) = Some b" and run: "handle_n D b e wd = (rc, wd')"
  shows "moves wd wd'"
proof -
  obtain r w1 where l: "handle_n_locked D b e wd = (r, w1)" by (cases "handle_n_locked D b e wd")
  note m1 = locked_moves(1) [OF b l]
  show ?thesis
  proof (cases r)
    case (Inl rc1)
    with run l m1 show ?thesis by (simp add: handle_n_def)
  next
    case (Inr q)
    obtain rows rc_push where q: "q = (rows, rc_push)" by (cases q)
    obtain ri w2 where i: "handle_n_insert D rows w1 = (ri, w2)" by (cases "handle_n_insert D rows w1")
    obtain ru w3 where u: "handle_n_unshift D e w2 = (ru, w3)" by (cases "handle_n_unshift D e w2")
    have m2: "moves w1 w2" by (rule keeps_moves [OF handle_n_insert_keeps [OF i]])
    note m3 = unshift_moves(1) [OF u]
    have "wd' = w2 \<or> wd' = w3" using run l Inr q i u by (auto simp: handle_n_def split: if_splits)
    with m1 m2 m3 moves_trans show ?thesis by metis
  qed
qed

lemma post_task_moves: "post_task t wd = (rc, wd') \<Longrightarrow> moves wd wd'"
  using post_task_spec(2) by fastforce

lemma async_moves:
  "handle_n_async D b e wd = (rc, wd') \<Longrightarrow> moves wd wd'" "handle_1_async D e wd = (rc, wd') \<Longrightarrow> moves wd wd'"
  by (auto simp: handle_n_async_def handle_1_async_def wd_palloc_def Let_def dest!: post_task_spec(2)
      split: prod.splits if_splits)

lemma handle_entry_moves: "handle_entry D e wd = (rc, wd') \<Longrightarrow> moves wd wd'"
  using async_moves handle_n_moves keeps_moves [OF handle_1_keeps]
  by (auto simp: handle_entry_def split: if_splits option.splits)

lemma handler_entry_moves:
  assumes run: "handler_entry D r wd = (rc, wd')"
  shows "moves wd wd'"
proof -
  obtain en r1 m where e: "log_entry (dp_env D) r (map col_op (fmt_columns (db_fmt (wd_db wd)))) (wd_mem wd) = (en, r1, m)"
    by (cases "log_entry (dp_env D) r (map col_op (fmt_columns (db_fmt (wd_db wd)))) (wd_mem wd)") auto
  have failed: "handler_failed D w = (rc, wd') \<Longrightarrow> moves w wd'" for w
    using keeps_moves handler_failed_keeps by blast
  show ?thesis
  proof (cases en)
    case (Inl f)
    with run e obtain s where "handler_failed D (wd\<lparr>wd_mem := m, wd_sys := s\<rparr>) = (rc, wd')"
      by (auto simp: handler_entry_def Let_def)
    from failed [OF this] show ?thesis by (simp add: moves_def)
  next
    case (Inr entry)
    obtain rh w2 where h: "handle_entry D entry (wd\<lparr>wd_mem := m\<rparr>) = (rh, w2)"
      by (cases "handle_entry D entry (wd\<lparr>wd_mem := m\<rparr>)")
    have m2: "moves wd w2" using handle_entry_moves [OF h] by (simp add: moves_def)
    show ?thesis
    proof (cases "rh = NGX_OK")
      case True
      with run e Inr h m2 show ?thesis by (simp add: handler_entry_def)
    next
      case False
      with run e Inr h have "handler_failed D
          (wd_log ''sqlitelog: failed to handle log entry for database \"%V\"'' w2) = (rc, wd')"
        by (simp add: handler_entry_def)
      from failed [OF this] have "moves w2 wd'" by (simp add: moves_def wd_log_def)
      with m2 show ?thesis by (rule moves_trans)
    qed
  qed
qed

lemma handler_moves:
  assumes "handler D r wd = (rc, wd')"
  shows "moves wd wd'"
proof -
  have entry: "handler_entry D r w = (rc, wd') \<Longrightarrow> moves w wd'" for w
    by (rule handler_entry_moves)
  have pooled: "handler_entry D r w = (rc, wd') \<Longrightarrow> create_pool wd = (ok, w) \<Longrightarrow> moves wd wd'" for w ok
    using moves_trans [OF _ entry, of wd w] create_pool_frame [of wd ok w] by simp
  have none: "create_pool wd = (ok, w) \<Longrightarrow> moves wd (w\<lparr>wd_sys := s\<rparr>)" for w ok s
    using create_pool_frame [of wd ok w] by simp
  show ?thesis
    using assms entry [of wd] pooled none
    by (auto simp: handler_def Let_def split: if_splits option.splits prod.splits bool.splits)
qed

lemma thread_insert_n_moves:
  assumes b: "sv_buf (wd_srv wd) = Some b"
  shows "moves wd (thread_insert_n D b d e wd)"
proof -
  obtain r w1 where l: "thread_insert_n_locked D b d wd = (r, w1)" by (cases "thread_insert_n_locked D b d wd")
  note m1 = locked_moves(3) [OF b l]
  show ?thesis
  proof (cases r)
    case None
    with l m1 show ?thesis by (simp add: thread_insert_n_def)
  next
    case (Some rows)
    obtain ri w2 where i: "thread_n_insert D d rows w1 = (ri, w2)" by (cases "thread_n_insert D d rows w1")
    have m2: "moves wd w2"
      using moves_trans [OF m1 keeps_moves] thread_n_insert_keeps [OF i] by blast
    have "moves w2 (snd (thread_n_unshift D x w2))" for x by (rule unshift_moves(2) [OF prod.collapse [symmetric]])
    then have "moves wd (snd (thread_n_unshift D x w2))" for x using moves_trans [OF m2] by blast
    with m2 l Some i show ?thesis by (auto simp: thread_insert_n_def split: option.split)
  qed
qed

lemma thread_flush_moves:
  assumes b: "sv_buf (wd_srv wd) = Some b"
  shows "moves wd (thread_flush D b wd)"
proof -
  obtain r w1 where l: "thread_flush_locked D b wd = (r, w1)" by (cases "thread_flush_locked D b wd")
  note m1 = locked_moves(4) [OF b l]
  have "moves w1 (thread_flush_insert D rows w1)" for rows
    using thread_flush_insert_keeps [OF refl] keeps_moves by blast
  with l m1 moves_trans [OF m1] show ?thesis by (cases r) (simp_all add: thread_flush_def)
qed

lemma run_task_moves: "moves wd (run_task D wd)"
proof (cases "wd_tasks wd")
  case (Cons t ts)
  let ?w = "wd\<lparr>wd_tasks := ts\<rparr>"
  consider "call_task D t ?w = ?w" | d e where "call_task D t ?w = thread_insert_1 D d e ?w"
    | d b where "sv_buf (wd_srv ?w) = Some b" "call_task D t ?w = thread_insert_n D b d (tk_entry t) ?w"
    | b where "sv_buf (wd_srv ?w) = Some b" "call_task D t ?w = thread_flush D b ?w"
    by (fastforce simp: call_task_def split: task_handler.splits option.splits)
  then have "moves ?w (call_task D t ?w)"
  proof cases
    case (2 d e)
    with keeps_moves [OF thread_insert_1_keeps [of ?w D d e]] show ?thesis by simp
  next
    case (3 d b)
    with thread_insert_n_moves [OF 3(1)] show ?thesis by simp
  next
    case (4 b)
    with thread_flush_moves [OF 4(1)] show ?thesis by simp
  qed simp
  then show ?thesis using Cons by (simp add: run_task_def moves_def thread_completed_def destroy_pool_def)
qed (simp add: run_task_def)

lemma put_back_linked:
  assumes ok: "linked p" and i: "i < length (pr_srvs p)" "pr_srvs p ! i = Some s"
    and op: "\<And>k. sl_buf s = Some k \<Longrightarrow> sb_db (pr_bufs p ! k) = None \<Longrightarrow>
      moves (srv_view s p) wd \<and> \<not> can_flush (sb_buf (pr_bufs p ! k))"
  shows "linked (put_back i s wd p)"
proof -
  let ?q = "put_back i s wd p" and ?b = "\<lambda>p k. sb_buf (pr_bufs p ! k)"
  have slots: "\<exists>s'. pr_srvs p ! j = Some s' \<and> sl_buf s' = sl_buf t \<and>
      (j \<noteq> i \<longrightarrow> s' = t)" if "pr_srvs ?q ! j = Some t" for j t
    using that i by (auto simp: put_back_slot split: if_splits)
  have buf: "?b ?q k = ?b p k \<or> sb_db (pr_bufs p ! k) \<noteq> None \<or> buf_moves (?b p k) (?b ?q k) \<and> \<not> can_flush (?b p k)"
    if k: "k < length (pr_bufs p)" for k
  proof (cases "sl_buf s = Some k \<and> sv_buf (wd_srv wd) \<noteq> None \<and> sb_db (pr_bufs p ! k) = None")
    case False
    then show ?thesis
      using k by (auto simp: put_buf_def nth_list_update split: option.splits)
  next
    case True
    then obtain b' where b': "sv_buf (wd_srv wd) = Some b'" by blast
    have m: "moves (srv_view s p) wd" and "\<not> can_flush (?b p k)" using op True by auto
    moreover have "buf_moves (?b p k) b'" using m True b' by (simp add: moves_def)
    ultimately show ?thesis using True b' k by (simp add: put_buf_def)
  qed
  have flush: "can_flush (?b ?q k) = can_flush (?b p k) \<and> (timer_on (?b ?q k) \<longrightarrow> timer_on (?b p k))"
    if "k < length (pr_bufs p)" "sb_db (pr_bufs p ! k) = None" for k
    using buf [OF that(1)] that(2) by (auto simp: buf_moves_def)
  have idle: "sv_enabled (sl_srv t) = 0 \<and> sl_tasks t = []"
    if "pr_srvs ?q ! j = Some t" "j < length (pr_srvs p)" "sl_buf t = Some k" "sb_db (pr_bufs p ! k) = None"
      "can_flush (?b p k)" for j t k
  proof (cases "j = i")
    case False
    then have "pr_srvs p ! j = Some t" using that(1) i(1) by (simp add: put_back_slot)
    then show ?thesis using linkedD(2) [OF ok that(2)] that(3-5) by blast
  next
    case True
    then have "sl_buf s = Some k" using slots [OF that(1)] i(2) that(3) by simp
    with op that(4,5) show ?thesis by blast
  qed
  have points: "\<exists>t. pr_srvs ?q ! j = Some t \<and> sl_buf t = Some k"
    if "pr_srvs p ! j = Some s'" "sl_buf s' = Some k" for j s' k
    using that i by (cases "j = i") (simp_all add: put_back_slot)
  show ?thesis
    unfolding linked_def
  proof (intro conjI allI impI; (elim conjE)?)
    fix j t k assume a: "j < length (pr_srvs ?q)" "pr_srvs ?q ! j = Some t" "sl_buf t = Some k"
    then show k: "k < length (pr_bufs ?q)" using linkedD(1) [OF ok, of j] slots [OF a(2)] a(1,3) by auto
    assume "sb_db (pr_bufs ?q ! k) = None" "can_flush (?b ?q k)"
    with k have n: "sb_db (pr_bufs p ! k) = None" and k': "k < length (pr_bufs p)" by simp_all
    with idle [OF a(2) _ a(3) n] flush [OF k' n] a(1) \<open>can_flush (?b ?q k)\<close>
    show "sv_enabled (sl_srv t) = 0" "sl_tasks t = []" by simp_all
  next
    fix k assume "k < length (pr_bufs ?q)" "timer_on (?b ?q k)"
    then show "sb_db (pr_bufs ?q ! k) \<noteq> None" using linkedD(3) [OF ok, of k] flush [of k] by auto
  next
    fix k j assume "k < length (pr_bufs ?q)" "sb_db (pr_bufs ?q ! k) = Some j"
    then have "k < length (pr_bufs p)" "sb_db (pr_bufs p ! k) = Some j" by simp_all
    then show "j < length (pr_srvs ?q)" "\<exists>t. pr_srvs ?q ! j = Some t \<and> sl_buf t = Some k"
      using linkedD(4) [OF ok] points by (simp, blast)
  qed
qed

lemma awake_linked:
  assumes "linked p" and "i < length (pr_srvs p)" and "pr_srvs p ! i = Some s" and "moves (srv_view s p) wd"
    and "sv_enabled (sl_srv s) \<noteq> 0 \<or> sl_tasks s \<noteq> []"
  shows "linked (put_back i s wd p)"
  using put_back_linked [OF assms(1-3)] assms(4) linkedD(2) [OF assms(1-3)] assms(5) by blast

lemma event_step_linked: "event_step D p p' \<Longrightarrow> linked p \<Longrightarrow> linked p'"
proof (induction rule: event_step.induct)
  case (Request i p s r rc wd)
  show ?case
  proof (cases "sv_enabled (sl_srv s) = 0")
    case True
    then have "wd = srv_view s p" using Request(3) handler_disabled [of "srv_view s p" D r] by simp
    with Request(2,4) show ?thesis by (simp add: put_view)
  next
    case False
    with awake_linked [OF Request(4,1,2) handler_moves [OF Request(3)]] show ?thesis by simp
  qed
next
  case (Timer k p sb ev i s)
  then have "sl_buf s = Some k" using linkedD(4) [OF Timer(8,1), of i] by simp
  with Timer(2,5) show ?case by (intro put_back_linked [OF Timer(8,6,7)]) auto
next
  case (Task i p s)
  with awake_linked [OF Task(4,1,2) run_task_moves] show ?case by simp
qed

section \<open>Start: proofs\<close>

text \<open>Server number \<open>i\<close> is enabled and has the buffer \<open>k\<close>; the last such server below \<open>n\<close>.\<close>

definition uses :: "('w, 'p) process \<Rightarrow> nat \<Rightarrow> nat \<Rightarrow> bool" where
  "uses p i k \<longleftrightarrow>
     (case pr_srvs p ! i of None \<Rightarrow> False | Some s \<Rightarrow> sv_enabled (sl_srv s) \<noteq> 0 \<and> sl_buf s = Some k)"

fun last_user :: "('w, 'p) process \<Rightarrow> nat \<Rightarrow> nat \<Rightarrow> nat option" where
  "last_user p 0 k = None"
| "last_user p (Suc n) k = (if uses p n k then Some n else last_user p n k)"

lemma last_user_Some: "last_user p n k = Some i \<longleftrightarrow> i < n \<and> uses p i k \<and> (\<forall>j<n. i < j \<longrightarrow> \<not> uses p j k)"
  by (induction n) (auto simp: less_Suc_eq)

lemma last_user_None: "last_user p n k = None \<longleftrightarrow> (\<forall>i<n. \<not> uses p i k)"
  by (induction n) (auto simp: less_Suc_eq)

lemma last_user_cong: "\<forall>i<n. pr_srvs p ! i = pr_srvs q ! i \<Longrightarrow> last_user p n k = last_user q n k"
  by (induction n) (simp_all add: uses_def)

lemma init_srv_result:
  assumes "init_worker_srv S pid sv s = (sv', s')"
  shows "db_fmt (sv_db sv') = db_fmt (sv_db sv)"
    "sv_buf sv' = (if sv_enabled sv' \<noteq> 0 then
       map_option (\<lambda>b. if buf_flush b \<noteq> 0 then buf_timer_start b else b) (sv_buf sv) else sv_buf sv)"
  using assms by (auto simp: init_worker_srv_def Let_def same_config_def dest!: db_init_config
      split: if_splits prod.splits option.splits)

lemma shared_buf_update [simp]: "(x :: shared_buf)\<lparr>sb_buf := b, sb_db := d\<rparr> = \<lparr>sb_buf = b, sb_db = d\<rparr>"
  by (cases x) simp

lemma init_slot_spec:
  assumes law: "conn_law (dp_sqlite D) conns" and i: "i < length (pr_srvs p)" "pr_srvs p ! i = Some s"
    and s: "db_conn (sv_db (sl_srv s)) = None" "\<And>k. sl_buf s = Some k \<Longrightarrow> k < length (pr_bufs p)"
    and q: "init_slot D i s p = q"
  shows "length (pr_srvs q) = length (pr_srvs p)" "\<And>j. j \<noteq> i \<Longrightarrow> pr_srvs q ! j = pr_srvs p ! j"
    "\<exists>sv. pr_srvs q ! i = Some (s\<lparr>sl_srv := sv\<rparr>) \<and> db_fmt (sv_db sv) = db_fmt (sv_db (sl_srv s)) \<and>
      (sv_enabled sv = 0 \<or> db_conn (sv_db sv) \<noteq> None \<and> sv_enabled sv = sv_enabled (sl_srv s)) \<and>
      conns (sq (pr_sys q)) = conns (sq (pr_sys p)) \<union> set_option (db_conn (sv_db sv))"
    "pr_zones q = pr_zones p" "length (pr_bufs q) = length (pr_bufs p)"
    "\<And>k. k < length (pr_bufs p) \<Longrightarrow>
      pr_bufs q ! k = (if uses q i k \<and> buf_flush (sb_buf (pr_bufs p ! k)) \<noteq> 0
        then \<lparr>sb_buf = buf_timer_start (sb_buf (pr_bufs p ! k)), sb_db = Some i\<rparr> else pr_bufs p ! k)"
proof -
  let ?v = "srv_view s p"
  obtain sv sys where r: "init_worker_srv (dp_sqlite D) (dp_pid D) (wd_srv ?v) (pr_sys p) = (sv, sys)"
    by (cases "init_worker_srv (dp_sqlite D) (dp_pid D) (wd_srv ?v) (pr_sys p)")
  note rr = init_srv_result [OF r]
  have sp: "srv_started sv \<and> (sv_enabled sv = sv_enabled (sl_srv s) \<or> sv_enabled sv = 0) \<and>
      conns (sq sys) = conns (sq (pr_sys p)) \<union> set_option (db_conn (sv_db sv))"
    using init_worker_srv_spec [OF law _ r] s(1) by simp
  let ?q = "put_back i s (?v\<lparr>wd_srv := sv, wd_sys := sys\<rparr>) p"
  have q': "q = (case (sl_buf s, sv_buf sv) of
      (Some k, Some b) \<Rightarrow> if sv_enabled sv \<noteq> 0 \<and> buf_flush b \<noteq> 0
        then ?q\<lparr>pr_bufs := (pr_bufs ?q)[k := (pr_bufs ?q ! k)\<lparr>sb_db := Some i\<rparr>]\<rparr> else ?q
    | _ \<Rightarrow> ?q)"
    unfolding q [symmetric] init_slot_def r Let_def prod.case by (rule refl)
  have f: "pr_srvs q = pr_srvs ?q" "pr_sys q = sys" "pr_zones q = pr_zones p" "length (pr_bufs q) = length (pr_bufs p)"
    unfolding q' by (auto split: option.split)
  show "length (pr_srvs q) = length (pr_srvs p)" "pr_zones q = pr_zones p" "length (pr_bufs q) = length (pr_bufs p)"
    using f by simp_all
  show "pr_srvs q ! j = pr_srvs p ! j" if "j \<noteq> i" for j using f(1) that i by (simp add: put_back_slot)
  have slot: "pr_srvs q ! i = Some (s\<lparr>sl_srv := sv\<lparr>sv_buf := sv_buf (sl_srv s)\<rparr>\<rparr>)"
    using f(1) i by (simp add: put_back_slot srv_view_def)
  then show "\<exists>sv. pr_srvs q ! i = Some (s\<lparr>sl_srv := sv\<rparr>) \<and> db_fmt (sv_db sv) = db_fmt (sv_db (sl_srv s)) \<and>
      (sv_enabled sv = 0 \<or> db_conn (sv_db sv) \<noteq> None \<and> sv_enabled sv = sv_enabled (sl_srv s)) \<and>
      conns (sq (pr_sys q)) = conns (sq (pr_sys p)) \<union> set_option (db_conn (sv_db sv))"
    using sp rr(1) f(2) by (intro exI [of _ "sv\<lparr>sv_buf := sv_buf (sl_srv s)\<rparr>"]) (auto simp: srv_started_def)
  fix k assume k: "k < length (pr_bufs p)"
  show "pr_bufs q ! k = (if uses q i k \<and> buf_flush (sb_buf (pr_bufs p ! k)) \<noteq> 0
        then \<lparr>sb_buf = buf_timer_start (sb_buf (pr_bufs p ! k)), sb_db = Some i\<rparr> else pr_bufs p ! k)"
  proof (cases "sl_buf s")
    case None
    with slot show ?thesis unfolding q' by (simp add: uses_def put_buf_def)
  next
    case (Some j)
    define b where "b = sb_buf (pr_bufs p ! j)"
    define b' where "b' = (if sv_enabled sv \<noteq> 0 \<and> buf_flush b \<noteq> 0 then buf_timer_start b else b)"
    have j: "j < length (pr_bufs p)" "sv_buf sv = Some b'" "buf_flush b' = buf_flush b"
      using s(2) Some rr(2) by (auto simp: b_def b'_def)
    have u: "uses q i k \<longleftrightarrow> sv_enabled sv \<noteq> 0 \<and> j = k" using slot Some by (simp add: uses_def)
    have "pr_bufs ?q = (pr_bufs p)[j := (pr_bufs p ! j)\<lparr>sb_buf := b'\<rparr>]"
      using j Some by (simp add: put_buf_def)
    then have "pr_bufs q = (pr_bufs p)[j := if sv_enabled sv \<noteq> 0 \<and> buf_flush b \<noteq> 0
        then \<lparr>sb_buf = b', sb_db = Some i\<rparr> else (pr_bufs p ! j)\<lparr>sb_buf := b'\<rparr>]"
      unfolding q' using Some j by simp
    then show ?thesis using u j(1) k by (auto simp: b_def b'_def nth_list_update)
  qed
qed

text \<open>Before the start: no connection, no task, no running timer, no flush context.\<close>

definition unstarted :: "('w, 'p) process \<Rightarrow> bool" where
  "unstarted p \<longleftrightarrow>
     (\<forall>i<length (pr_srvs p). \<forall>s. pr_srvs p ! i = Some s \<longrightarrow> db_conn (sv_db (sl_srv s)) = None \<and> sl_tasks s = [] \<and>
        (\<forall>k. sl_buf s = Some k \<longrightarrow> k < length (pr_bufs p))) \<and>
     (\<forall>k<length (pr_bufs p). sb_db (pr_bufs p ! k) = None \<and> \<not> timer_on (sb_buf (pr_bufs p ! k)))"

definition no_tasks :: "('w, 'p) process \<Rightarrow> bool" where
  "no_tasks p \<longleftrightarrow> (\<forall>i<length (pr_srvs p). \<forall>s. pr_srvs p ! i = Some s \<longrightarrow> sl_tasks s = [])"

definition slot_conns :: "('w, 'p) process \<Rightarrow> nat \<Rightarrow> conn set" where
  "slot_conns p i = (case pr_srvs p ! i of None \<Rightarrow> {} | Some s \<Rightarrow> set_option (db_conn (sv_db (sl_srv s))))"

text \<open>A buffer when \<open>u\<close> was the last server that started it.\<close>

definition started_buf :: "nat option \<Rightarrow> shared_buf \<Rightarrow> shared_buf" where
  "started_buf u sb =
     (case u of
        None \<Rightarrow> sb
      | Some i \<Rightarrow>
          if buf_flush (sb_buf sb) \<noteq> 0 then \<lparr>sb_buf = buf_timer_start (sb_buf sb), sb_db = Some i\<rparr> else sb)"

lemma start_twice: "buf_timer_start (buf_timer_start b) = buf_timer_start b"
  by (simp add: buf_timer_start_def split: option.split)

lemma started_again: "started_buf (Some i) (started_buf u sb) = started_buf (Some i) sb"
  by (simp add: started_buf_def start_twice split: option.split)

lemma started_flush [simp]: "buf_flush (sb_buf (started_buf u sb)) = buf_flush (sb_buf sb)"
  by (simp add: started_buf_def split: option.split)

text \<open>After \<open>n\<close> iterations on the process \<open>p\<close>.\<close>

definition started_upto :: "('w \<Rightarrow> conn set) \<Rightarrow> nat \<Rightarrow> ('w, 'p) process \<Rightarrow> ('w, 'p) process \<Rightarrow> bool" where
  "started_upto conns n p q \<longleftrightarrow> length (pr_srvs q) = length (pr_srvs p) \<and> pr_zones q = pr_zones p \<and>
     length (pr_bufs q) = length (pr_bufs p) \<and>
     (\<forall>i. n \<le> i \<longrightarrow> pr_srvs q ! i = pr_srvs p ! i) \<and>
     (\<forall>i<n. pr_srvs q ! i = None \<and> pr_srvs p ! i = None \<or>
        (\<exists>s sv. pr_srvs p ! i = Some s \<and> pr_srvs q ! i = Some (s\<lparr>sl_srv := sv\<rparr>) \<and>
          db_fmt (sv_db sv) = db_fmt (sv_db (sl_srv s)) \<and>
          (sv_enabled sv = 0 \<or> db_conn (sv_db sv) \<noteq> None \<and> sv_enabled sv = sv_enabled (sl_srv s)))) \<and>
     conns (sq (pr_sys q)) = conns (sq (pr_sys p)) \<union> (\<Union>i<n. slot_conns q i) \<and>
     (\<forall>k<length (pr_bufs p). pr_bufs q ! k = started_buf (last_user q n k) (pr_bufs p ! k))"

lemma init_slots_spec:
  assumes law: "conn_law (dp_sqlite D) conns" and p: "unstarted p"
  shows "n \<le> length (pr_srvs p) \<Longrightarrow> started_upto conns n p (init_slots D n p)"
proof (induction n)
  case 0
  then show ?case by (simp add: started_upto_def started_buf_def)
next
  case (Suc n)
  define q where "q = init_slots D n p"
  have ih: "started_upto conns n p q" using Suc by (simp add: q_def)
  show ?case
  proof (cases "pr_srvs q ! n")
    case None
    then have "init_slots D (Suc n) p = q" by (simp add: q_def)
    moreover have "last_user q (Suc n) k = last_user q n k" "slot_conns q n = {}" for k
      using None by (simp_all add: uses_def slot_conns_def)
    ultimately show ?thesis
      using ih None unfolding started_upto_def by (simp add: less_Suc_eq lessThan_Suc)
  next
    case (Some s)
    define q' where "q' = init_slot D n s q"
    have r: "init_slots D (Suc n) p = q'" using Some by (simp add: q_def q'_def)
    have len: "length (pr_srvs q) = length (pr_srvs p)" "length (pr_bufs q) = length (pr_bufs p)"
      and old: "pr_srvs p ! n = Some s" and n: "n < length (pr_srvs q)"
      using ih Some Suc.prems by (auto simp: started_upto_def)
    have s: "db_conn (sv_db (sl_srv s)) = None" "\<And>k. sl_buf s = Some k \<Longrightarrow> k < length (pr_bufs q)"
      using p old n len unfolding unstarted_def by auto
    note i = init_slot_spec [OF law n Some s q'_def [symmetric]]
    obtain sv where sv: "pr_srvs q' ! n = Some (s\<lparr>sl_srv := sv\<rparr>)"
        "db_fmt (sv_db sv) = db_fmt (sv_db (sl_srv s))"
        "sv_enabled sv = 0 \<or> db_conn (sv_db sv) \<noteq> None \<and> sv_enabled sv = sv_enabled (sl_srv s)"
        "conns (sq (pr_sys q')) = conns (sq (pr_sys q)) \<union> set_option (db_conn (sv_db sv))"
      using i(3) by blast
    have same: "last_user q' n k = last_user q n k" for k using i(2) by (intro last_user_cong) simp
    have sc: "(\<Union>i<n. slot_conns q' i) = (\<Union>i<n. slot_conns q i)" using i(2) by (simp add: slot_conns_def)
    have "conns (sq (pr_sys q')) = conns (sq (pr_sys p)) \<union> (\<Union>i<Suc n. slot_conns q' i)"
      using ih sv(1,4) sc unfolding started_upto_def by (auto simp: lessThan_Suc slot_conns_def)
    moreover have "pr_bufs q' ! k = started_buf (last_user q' (Suc n) k) (pr_bufs p ! k)"
      if "k < length (pr_bufs p)" for k
    proof -
      have "pr_bufs q ! k = started_buf (last_user q n k) (pr_bufs p ! k)"
        using ih that by (simp add: started_upto_def)
      then have "pr_bufs q' ! k = (if uses q' n k then started_buf (Some n) (started_buf (last_user q n k) (pr_bufs p ! k))
          else started_buf (last_user q n k) (pr_bufs p ! k))"
        using i(6) [of k] that len by (simp add: started_buf_def split: option.split)
      then show ?thesis using same by (simp add: started_again)
    qed
    moreover have "\<forall>j. Suc n \<le> j \<longrightarrow> pr_srvs q' ! j = pr_srvs p ! j"
      using ih i(2) unfolding started_upto_def by simp
    moreover have "pr_srvs q' ! j = pr_srvs q ! j" if "j < n" for j using i(2) that by simp
    ultimately show ?thesis
      using ih i(1,4,5) old sv(1-3) unfolding r started_upto_def by (auto simp: less_Suc_eq)
  qed
qed

text \<open>What the start makes of each server: the server of the process before, after its own \<open>db_init\<close>.\<close>

definition started_srv :: "('w, 'p, 'l) deps \<Rightarrow> nat \<Rightarrow> slot \<Rightarrow> ('w, 'p) process \<Rightarrow> slot" where
  "started_srv D i t p =
     (if sv_enabled (sl_srv t) = 0 then t
      else case db_init (dp_sqlite D) (sv_db (sl_srv t)) (pr_sys (init_slots D i p)) of (rc, d, sys) \<Rightarrow>
        t\<lparr>sl_srv := (sl_srv t)\<lparr>sv_db := d,
          sv_enabled := if rc = SQLITE_OK then sv_enabled (sl_srv t) else 0\<rparr>\<rparr>)"

lemma init_worker_srv_slot:
  "(fst (init_worker_srv S pid (wd_srv (srv_view s p)) sys))\<lparr>sv_buf := sv_buf (sl_srv s)\<rparr> =
     (if sv_enabled (sl_srv s) = 0 then sl_srv s
      else case db_init S (sv_db (sl_srv s)) sys of (rc, d, sys') \<Rightarrow>
        (sl_srv s)\<lparr>sv_db := d, sv_enabled := if rc = SQLITE_OK then sv_enabled (sl_srv s) else 0\<rparr>)"
  by (simp add: init_worker_srv_def srv_view_def Let_def split: prod.split option.split)

lemma init_slot_srvs:
  assumes "i < length (pr_srvs p)" and "pr_srvs p ! i = Some s"
  shows "length (pr_srvs (init_slot D i s p)) = length (pr_srvs p)"
    and "pr_srvs (init_slot D i s p) ! j =
      (if j = i then Some (s\<lparr>sl_srv := (fst (init_worker_srv (dp_sqlite D) (dp_pid D) (wd_srv (srv_view s p)) (pr_sys p)))
         \<lparr>sv_buf := sv_buf (sl_srv s)\<rparr>\<rparr>) else pr_srvs p ! j)"
proof -
  obtain sv sys where r: "init_worker_srv (dp_sqlite D) (dp_pid D) (wd_srv (srv_view s p)) (pr_sys p) = (sv, sys)"
    by (cases "init_worker_srv (dp_sqlite D) (dp_pid D) (wd_srv (srv_view s p)) (pr_sys p)")
  have q: "pr_srvs (init_slot D i s p) = pr_srvs (put_back i s ((srv_view s p)\<lparr>wd_srv := sv, wd_sys := sys\<rparr>) p)"
    unfolding init_slot_def r Let_def prod.case by (auto split: option.split)
  then show "length (pr_srvs (init_slot D i s p)) = length (pr_srvs p)" by simp
  have "sl_pools s = wd_pools (srv_view s p)" "sl_blocked s = wd_blocked (srv_view s p)" by (simp_all add: srv_view_def)
  then show "pr_srvs (init_slot D i s p) ! j =
      (if j = i then Some (s\<lparr>sl_srv := (fst (init_worker_srv (dp_sqlite D) (dp_pid D) (wd_srv (srv_view s p)) (pr_sys p)))
         \<lparr>sv_buf := sv_buf (sl_srv s)\<rparr>\<rparr>) else pr_srvs p ! j)"
    using assms q r by (simp add: put_back_slot)
qed

lemma init_slots_srvs:
  "n \<le> length (pr_srvs p) \<Longrightarrow> length (pr_srvs (init_slots D n p)) = length (pr_srvs p) \<and>
    (\<forall>j. pr_srvs (init_slots D n p) ! j =
      (if j < n then map_option (\<lambda>t. started_srv D j t p) (pr_srvs p ! j) else pr_srvs p ! j))"
proof (induction n)
  case (Suc n)
  define q where "q = init_slots D n p"
  have ih: "length (pr_srvs q) = length (pr_srvs p)" "\<And>j. pr_srvs q ! j =
      (if j < n then map_option (\<lambda>t. started_srv D j t p) (pr_srvs p ! j) else pr_srvs p ! j)"
    using Suc by (simp_all add: q_def)
  show ?case
  proof (cases "pr_srvs p ! n")
    case None
    with ih Suc.prems show ?thesis by (auto simp: q_def less_Suc_eq)
  next
    case (Some t)
    have n: "n < length (pr_srvs q)" "pr_srvs q ! n = Some t" using ih Suc.prems Some by simp_all
    have "t\<lparr>sl_srv := (fst (init_worker_srv (dp_sqlite D) (dp_pid D) (wd_srv (srv_view t q)) (pr_sys q)))
        \<lparr>sv_buf := sv_buf (sl_srv t)\<rparr>\<rparr> = started_srv D n t p"
      unfolding init_worker_srv_slot by (simp add: started_srv_def q_def split: prod.split)
    with init_slot_srvs [OF n, of D] ih n Some show ?thesis by (simp add: q_def Let_def less_Suc_eq)
  qed
qed simp

lemma started_slot:
  assumes "started_upto conns n p q" and "i < n" and "pr_srvs q ! i = Some s"
  obtains t sv where "pr_srvs p ! i = Some t" "s = t\<lparr>sl_srv := sv\<rparr>" "db_fmt (sv_db sv) = db_fmt (sv_db (sl_srv t))"
    "sv_enabled sv = 0 \<or> db_conn (sv_db sv) \<noteq> None \<and> sv_enabled sv = sv_enabled (sl_srv t)"
proof -
  have "pr_srvs q ! i = None \<and> pr_srvs p ! i = None \<or>
      (\<exists>s sv. pr_srvs p ! i = Some s \<and> pr_srvs q ! i = Some (s\<lparr>sl_srv := sv\<rparr>) \<and>
        db_fmt (sv_db sv) = db_fmt (sv_db (sl_srv s)) \<and>
        (sv_enabled sv = 0 \<or> db_conn (sv_db sv) \<noteq> None \<and> sv_enabled sv = sv_enabled (sl_srv s)))"
    using assms(1,2) unfolding started_upto_def by blast
  with assms(3) that show thesis by auto
qed

lemma started_link:
  assumes "unstarted p" and "started_upto conns n p q" and "k < length (pr_bufs p)"
    and "sb_db (pr_bufs q ! k) = Some i"
  shows "last_user q n k = Some i"
proof -
  have "pr_bufs q ! k = started_buf (last_user q n k) (pr_bufs p ! k)" "sb_db (pr_bufs p ! k) = None"
    using assms(1-3) by (simp_all add: started_upto_def unstarted_def)
  with assms(4) show ?thesis by (auto simp: started_buf_def split: option.splits if_splits)
qed

lemma started_linked:
  assumes p: "unstarted p" and q: "started_upto conns (length (pr_srvs p)) p q"
  shows "linked q"
proof -
  have len: "length (pr_srvs q) = length (pr_srvs p)" "length (pr_bufs q) = length (pr_bufs p)"
    using q by (simp_all add: started_upto_def)
  have slot: "\<exists>s'. pr_srvs p ! i = Some s' \<and> sl_buf s' = sl_buf s \<and> sl_tasks s' = sl_tasks s"
    if "i < length (pr_srvs p)" "pr_srvs q ! i = Some s" for i s
    using started_slot [OF q that] by fastforce
  have buf: "pr_bufs q ! k = started_buf (last_user q (length (pr_srvs p)) k) (pr_bufs p ! k)"
    and none: "sb_db (pr_bufs p ! k) = None" "\<not> timer_on (sb_buf (pr_bufs p ! k))" if "k < length (pr_bufs p)" for k
    using q p that by (simp_all add: started_upto_def unstarted_def)
  show ?thesis
    unfolding linked_def
  proof (intro conjI allI impI; (elim conjE)?)
    fix i s k assume a: "i < length (pr_srvs q)" "pr_srvs q ! i = Some s" "sl_buf s = Some k"
    obtain s' where s': "pr_srvs p ! i = Some s'" "sl_buf s' = sl_buf s" "sl_tasks s' = sl_tasks s"
      using slot [OF _ a(2)] a(1) len by auto
    with p a len have k: "k < length (pr_bufs p)" "sl_tasks s' = []" unfolding unstarted_def by auto
    then show "k < length (pr_bufs q)" using len by simp
    show "sl_tasks s = []" using s' k by simp
    assume n: "sb_db (pr_bufs q ! k) = None" "can_flush (sb_buf (pr_bufs q ! k))"
    then have "last_user q (length (pr_srvs p)) k = None"
      using buf [OF k(1)] by (auto simp: started_buf_def can_flush_def split: option.splits if_splits)
    then have "\<not> uses q i k" using a(1) len by (simp add: last_user_None)
    then show "sv_enabled (sl_srv s) = 0" using a by (simp add: uses_def)
  next
    fix k assume "k < length (pr_bufs q)" "timer_on (sb_buf (pr_bufs q ! k))"
    with len buf none show "sb_db (pr_bufs q ! k) \<noteq> None"
      by (auto simp: started_buf_def split: option.splits if_splits)
  next
    fix k i assume a: "k < length (pr_bufs q)" "sb_db (pr_bufs q ! k) = Some i"
    then have "last_user q (length (pr_srvs p)) k = Some i" using started_link [OF p q] len by simp
    then show "i < length (pr_srvs q)" "\<exists>s. pr_srvs q ! i = Some s \<and> sl_buf s = Some k"
      using len by (auto simp: last_user_Some uses_def split: option.splits)
  qed
qed

lemma started_no_tasks:
  assumes "unstarted p" and "started_upto conns (length (pr_srvs p)) p q"
  shows "no_tasks q"
  unfolding no_tasks_def
proof (intro allI impI)
  fix i s assume a: "i < length (pr_srvs q)" "pr_srvs q ! i = Some s"
  then have i: "i < length (pr_srvs p)" using assms(2) by (simp add: started_upto_def)
  obtain t sv where "pr_srvs p ! i = Some t" "s = t\<lparr>sl_srv := sv\<rparr>"
    using started_slot [OF assms(2) i a(2)] by metis
  with assms(1) i show "sl_tasks s = []" by (simp add: unstarted_def)
qed

lemma started_ok:
  assumes p: "unstarted p" and q: "started_upto conns (length (pr_srvs p)) p q"
    and zones: "\<And>k. zone_ready (zs k) (pr_zones p k)"
    and fits: "\<And>i s. i < length (pr_srvs p) \<Longrightarrow> pr_srvs p ! i = Some s \<Longrightarrow> sv_enabled (sl_srv s) \<noteq> 0 \<Longrightarrow>
      zone_fits (zs (sl_zone s)) D (sv_db (sl_srv s))"
  shows "process_ok zs D q"
  unfolding process_ok_def
proof (intro conjI allI impI)
  show "zone_ready (zs k) (pr_zones q k)" for k using zones q by (simp add: started_upto_def)
next
  fix i s assume a: "i < length (pr_srvs q)" "pr_srvs q ! i = Some s"
  then have i: "i < length (pr_srvs p)" using q by (simp add: started_upto_def)
  from started_slot [OF q this a(2)] obtain t sv where t: "pr_srvs p ! i = Some t" "s = t\<lparr>sl_srv := sv\<rparr>"
      "db_fmt (sv_db sv) = db_fmt (sv_db (sl_srv t))" "sv_enabled sv = 0 \<or> sv_enabled sv = sv_enabled (sl_srv t)"
    by metis
  have tasks: "sl_tasks t = []" using p i t(1) unfolding unstarted_def by blast
  show "slot_ok zs D s \<or> dormant i s q"
  proof (cases "sv_enabled (sl_srv t) = 0")
    case False
    with fits [OF i t(1)] t tasks show ?thesis by (simp add: slot_ok_def zone_fits_def)
  next
    case True
    then have off: "sv_enabled sv = 0" using t(4) by auto
    have "sb_db (pr_bufs q ! k) \<noteq> Some i" if k: "k < length (pr_bufs q)" for k
    proof
      assume "sb_db (pr_bufs q ! k) = Some i"
      moreover have "k < length (pr_bufs p)" using k q by (simp add: started_upto_def)
      ultimately have "last_user q (length (pr_srvs p)) k = Some i" using started_link [OF p q] by blast
      with a off t(2) show False by (auto simp: last_user_Some uses_def)
    qed
    then have "Some i \<notin> set (map sb_db (pr_bufs q))" by (metis in_set_conv_nth length_map nth_map)
    with off t(2) tasks show ?thesis by (simp add: dormant_def)
  qed
qed

section \<open>Exit: proofs\<close>

definition flushes :: "slot \<Rightarrow> bool" where
  "flushes s \<longleftrightarrow> sv_enabled (sl_srv s) \<noteq> 0 \<and> db_conn (sv_db (sl_srv s)) \<noteq> None \<and> sl_buf s \<noteq> None"

definition exited_upto ::
  "(zone_id \<Rightarrow> ('p, 'l) zone) \<Rightarrow> ('w, 'p, 'l) deps \<Rightarrow> nat \<Rightarrow> ('w, 'p) process \<Rightarrow> ('w, 'p) process \<Rightarrow> bool" where
  "exited_upto zs D n p q \<longleftrightarrow> process_ok zs D q \<and> ample (pr_mem q) \<and> length (pr_srvs q) = length (pr_srvs p) \<and>
     (\<forall>i. n \<le> i \<longrightarrow> pr_srvs q ! i = pr_srvs p ! i) \<and>
     (\<forall>k. entries (pr_zones q k) \<in> {entries (pr_zones p k), []}) \<and>
     (\<forall>i<n. \<forall>s. pr_srvs p ! i = Some s \<and> flushes s \<longrightarrow> entries (pr_zones q (sl_zone s)) = [])"

lemma exit_slots_spec:
  assumes "process_ok zs D p" and "ample (pr_mem p)"
  shows "n \<le> length (pr_srvs p) \<Longrightarrow> exited_upto zs D n p (exit_slots D n p)"
proof (induction n)
  case 0
  with assms show ?case by (simp add: exited_upto_def)
next
  case (Suc n)
  define q where "q = exit_slots D n p"
  have ih: "exited_upto zs D n p q" using Suc by (simp add: q_def)
  then have n: "n < length (pr_srvs q)" and same: "pr_srvs q ! n = pr_srvs p ! n" and ok: "process_ok zs D q"
    and mem: "ample (pr_mem q)"
    using Suc.prems by (auto simp: exited_upto_def)
  show ?case
  proof (cases "pr_srvs q ! n")
    case None
    then have "exit_slots D (Suc n) p = q" by (simp add: q_def)
    with ih None same show ?thesis by (auto simp: exited_upto_def less_Suc_eq)
  next
    case (Some s)
    define wd where "wd = exit_srv D (srv_view s q)"
    have r: "exit_slots D (Suc n) p = put_back n s wd q" using Some by (simp add: q_def wd_def Let_def)
    show ?thesis
    proof (cases "sv_enabled (sl_srv s) = 0")
      case True
      then have "wd = srv_view s q" by (simp add: wd_def exit_srv_def)
      then have "exit_slots D (Suc n) p = q" using r put_view [of q n s] Some by simp
      with ih True Some same show ?thesis by (auto simp: exited_upto_def less_Suc_eq flushes_def)
    next
      case False
      then have "slot_ok zs D s" using awake [OF ok n Some] by simp
      from exit_srv_spec [OF view_ok [OF ok this] _ wd_def [symmetric]] mem
      have w: "world_ok (zs (sl_zone s)) D wd" "ample (wd_mem wd)"
        "entries (wd_sh wd) \<in> {entries (pr_zones q (sl_zone s)), []}" "flushes s \<Longrightarrow> entries (wd_sh wd) = []"
        by (auto simp: flushes_def)
      have z: "entries (pr_zones (put_back n s wd q) k) \<in> {entries (pr_zones q k), []}" for k
        using w(3) by simp
      have kept: "\<forall>k. entries (pr_zones (put_back n s wd q) k) \<in> {entries (pr_zones p k), []}"
        using ih z unfolding exited_upto_def by (metis insert_iff singletonD)
      have empty: "entries (pr_zones (put_back n s wd q) (sl_zone t)) = []"
        if "i < Suc n" "pr_srvs p ! i = Some t" "flushes t" for i t
      proof (cases "i = n")
        case True
        with that same Some w(4) show ?thesis by simp
      next
        case False
        then have "i < n" using that(1) by simp
        with that ih have "entries (pr_zones q (sl_zone t)) = []" by (auto simp: exited_upto_def)
        with z [of "sl_zone t"] show ?thesis by simp
      qed
      have "\<forall>i. Suc n \<le> i \<longrightarrow> pr_srvs (put_back n s wd q) ! i = pr_srvs p ! i"
        using ih n by (simp add: exited_upto_def put_back_slot)
      with put_back_ok [OF ok n w(1)] w(2) kept empty ih show ?thesis
        unfolding r exited_upto_def by simp
    qed
  qed
qed

section \<open>Properties\<close>

text \<open>
  C38. A worker always starts. A server that the configuration enabled gets what \<open>db_init\<close> of
  its own leaves, in the order of the configuration: it stays enabled exactly if that succeeded, and else it
  is disabled in this worker, on the error alone; a server that was disabled is not touched. Every
  server that is enabled afterwards has a connection; if its buffer is to be flushed, the timer of
  the buffer runs and its flush context points to the database of the last server that is enabled
  and has this buffer: all servers that share a buffer are flushed through the database of that one.
  The connections that are open afterwards are those of before and those recorded in the servers: a
  server whose initialisation failed after its database was opened is disabled with an open
  connection. The process before has no connections, no tasks and no flush contexts, and the flush
  events are cleared, which the code does not see to (it takes their memory as it is).
\<close>

theorem worker_starts_servers:
  assumes "conn_law (dp_sqlite D) conns" and "unstarted p" and "init_worker D p = (rc, q)"
  shows "rc = NGX_OK \<and> length (pr_srvs q) = length (pr_srvs p) \<and>
    (\<forall>i<length (pr_srvs q). \<forall>s. pr_srvs q ! i = Some s \<longrightarrow> sv_enabled (sl_srv s) = 0 \<or>
      db_conn (sv_db (sl_srv s)) \<noteq> None \<and>
      (\<forall>k. sl_buf s = Some k \<and> can_flush (sb_buf (pr_bufs q ! k)) \<longrightarrow> timer_on (sb_buf (pr_bufs q ! k)) \<and>
        sb_db (pr_bufs q ! k) = last_user q (length (pr_srvs q)) k)) \<and>
    conns (sq (pr_sys q)) = conns (sq (pr_sys p)) \<union> (\<Union>i<length (pr_srvs q). slot_conns q i) \<and>
    (\<forall>i<length (pr_srvs p). pr_srvs q ! i = map_option (\<lambda>t. started_srv D i t p) (pr_srvs p ! i))"
proof -
  have st: "started_upto conns (length (pr_srvs p)) p q" and rc: "rc = NGX_OK"
    using init_slots_spec [OF assms(1,2) order_refl] assms(3) by (simp_all add: init_worker_def)
  have len: "length (pr_srvs q) = length (pr_srvs p)" using st by (simp add: started_upto_def)
  have slot: "sv_enabled (sl_srv s) = 0 \<or> db_conn (sv_db (sl_srv s)) \<noteq> None \<and>
      (\<forall>k. sl_buf s = Some k \<and> can_flush (sb_buf (pr_bufs q ! k)) \<longrightarrow> timer_on (sb_buf (pr_bufs q ! k)) \<and>
        sb_db (pr_bufs q ! k) = last_user q (length (pr_srvs p)) k)"
    if i: "i < length (pr_srvs p)" "pr_srvs q ! i = Some s" for i s
  proof (cases "sv_enabled (sl_srv s) = 0")
    case False
    obtain t sv where t: "pr_srvs p ! i = Some t" "s = t\<lparr>sl_srv := sv\<rparr>"
        "sv_enabled sv = 0 \<or> db_conn (sv_db sv) \<noteq> None \<and> sv_enabled sv = sv_enabled (sl_srv t)"
      using started_slot [OF st i] by metis
    have "timer_on (sb_buf (pr_bufs q ! k)) \<and> sb_db (pr_bufs q ! k) = last_user q (length (pr_srvs p)) k"
      if k: "sl_buf s = Some k" and f: "can_flush (sb_buf (pr_bufs q ! k))" for k
    proof -
      have "k < length (pr_bufs p)" using assms(2) t(1,2) i(1) k unfolding unstarted_def by auto
      then have b: "pr_bufs q ! k = started_buf (last_user q (length (pr_srvs p)) k) (pr_bufs p ! k)"
        using st by (simp add: started_upto_def)
      have "uses q i k" using False k i(2) by (simp add: uses_def)
      then obtain j where "last_user q (length (pr_srvs p)) k = Some j"
        using i(1) last_user_None by (metis not_None_eq)
      with b f show ?thesis
        by (auto simp: started_buf_def can_flush_def timer_on_def timer_start_on split: if_splits)
    qed
    with t False show ?thesis by auto
  qed simp
  have "conns (sq (pr_sys q)) = conns (sq (pr_sys p)) \<union> (\<Union>i<length (pr_srvs q). slot_conns q i)"
    using st len unfolding started_upto_def by metis
  moreover have "\<forall>i<length (pr_srvs p). pr_srvs q ! i = map_option (\<lambda>t. started_srv D i t p) (pr_srvs p ! i)"
    using init_slots_srvs [OF order_refl, of D p] assms(3) by (simp add: init_worker_def)
  ultimately show ?thesis using rc len slot by simp
qed

text \<open>A SQLite that rejects one script.\<close>

definition script_api :: "(nat \<times> nat list \<times> bool) sqlite" where
  "script_api = moved_api\<lparr>s3_exec := \<lambda>c sql w. (if sql = ''bad'' then SQLITE_ERROR else SQLITE_OK, w)\<rparr>"

lemma script_conn_law: "conn_law script_api moved_conns"
  using moved_conn_law
  by (simp add: conn_law_def conn_open_law_def conn_close_law_def script_api_def)

definition example_slot :: "int \<Rightarrow> db \<Rightarrow> slot" where
  "example_slot en d = \<lparr>sl_srv = \<lparr>sv_enabled = en, sv_filter = None, sv_db = d, sv_buf = None\<rparr>,
     sl_buf = Some 0, sl_zone = Zone ''z'' 32768, sl_pools = 0, sl_blocked = 0, sl_tasks = []\<rparr>"

definition example_flush_buf :: "bool \<Rightarrow> buf" where
  "example_flush_buf on = \<lparr>buf_max = 2, buf_flush = 1000, buf_event = Some \<lparr>timer_set = on, timer_delay = 1000\<rparr>\<rparr>"

text \<open>
  Three servers that share a buffer; the script of the last one fails after it has a connection.
\<close>

definition starting :: "(nat \<times> nat list \<times> bool, slab_state) process" where
  "starting = \<lparr>pr_sys = \<lparr>sq = (0, [], False), elog = [], ub = False\<rparr>, pr_mem = [], pr_tp = False,
     pr_zones = \<lambda>_. example_shctx 8, pr_bufs = [\<lparr>sb_buf = example_flush_buf False, sb_db = None\<rparr>],
     pr_srvs = map (\<lambda>script. Some (example_slot 1 (mem_db\<lparr>db_conn := None, db_init_sql := script\<rparr>)))
       [None, None, Some ''bad'']\<rparr>"

lemma starting_unstarted: "unstarted starting"
  by (simp add: unstarted_def starting_def example_slot_def example_flush_buf_def timer_on_def less_Suc_eq
      numeral_3_eq_3 all_conj_distrib)

lemma starting_eval:
  "map (map_option (\<lambda>s. (sv_enabled (sl_srv s), db_conn (sv_db (sl_srv s)), sl_buf s)))
     (pr_srvs (snd (init_worker (example_deps script_api) starting))) =
   [Some (1, Some 1, Some 0), Some (1, Some 2, Some 0), Some (0, Some 3, Some 0)]"
  "can_flush (sb_buf (pr_bufs (snd (init_worker (example_deps script_api) starting)) ! 0))"
  "last_user (snd (init_worker (example_deps script_api) starting)) 3 0 = Some 1"
  by code_simp+

theorem worker_starts_servers_witness:
  "\<exists>q s. init_worker (example_deps script_api) starting = (NGX_OK, q) \<and> timer_on (sb_buf (pr_bufs q ! 0)) \<and>
     sb_db (pr_bufs q ! 0) = Some 1 \<and> pr_srvs q ! 2 = Some s \<and> sv_enabled (sl_srv s) = 0 \<and>
     db_conn (sv_db (sl_srv s)) = Some 3 \<and> 3 \<in> moved_conns (sq (pr_sys q))"
proof -
  obtain rc q where run: "init_worker (example_deps script_api) starting = (rc, q)"
    by (cases "init_worker (example_deps script_api) starting")
  note ev = starting_eval [unfolded run snd_conv]
  have law: "conn_law (dp_sqlite (example_deps script_api)) moved_conns" using script_conn_law by simp
  note w = worker_starts_servers [OF law starting_unstarted run]
  have len: "length (pr_srvs q) = 3" using arg_cong [OF ev(1), of length] by simp
  let ?f = "map_option (\<lambda>s. (sv_enabled (sl_srv s), db_conn (sv_db (sl_srv s)), sl_buf s))"
  have "?f (pr_srvs q ! 1) = Some (1, Some 2, Some 0)" "?f (pr_srvs q ! 2) = Some (0, Some 3, Some 0)"
    using arg_cong [OF ev(1), of "\<lambda>xs. xs ! 1"] arg_cong [OF ev(1), of "\<lambda>xs. xs ! 2"] len by simp_all
  then obtain s t where s: "pr_srvs q ! 1 = Some s" "sv_enabled (sl_srv s) = 1" "sl_buf s = Some 0"
    and t: "pr_srvs q ! 2 = Some t" "sv_enabled (sl_srv t) = 0" "db_conn (sv_db (sl_srv t)) = Some 3"
    by auto
  have "sv_enabled (sl_srv s) = 0 \<or> db_conn (sv_db (sl_srv s)) \<noteq> None \<and>
      (\<forall>k. sl_buf s = Some k \<and> can_flush (sb_buf (pr_bufs q ! k)) \<longrightarrow> timer_on (sb_buf (pr_bufs q ! k)) \<and>
        sb_db (pr_bufs q ! k) = last_user q (length (pr_srvs q)) k)"
    by (rule conjunct1 [OF conjunct2 [OF conjunct2 [OF w]], THEN spec, THEN mp, THEN spec, THEN mp, OF _ s(1)])
      (simp add: len)
  then have on: "timer_on (sb_buf (pr_bufs q ! 0)) \<and> sb_db (pr_bufs q ! 0) = last_user q 3 0"
    using s(2,3) ev(2) len by simp
  have "slot_conns q 2 \<subseteq> (\<Union>i<length (pr_srvs q). slot_conns q i)"
    using len by (intro UN_upper) simp
  then have "3 \<in> moved_conns (sq (pr_sys q))" using w t by (auto simp: slot_conns_def)
  with on w ev(3) run t show ?thesis by simp
qed

text \<open>
  C34. Servers that share a buffer lose its entries together: when the server that the flush context
  points to has no connection, because it was disabled after an error, the flush event takes the
  whole queue of the zone, stores nothing, and leaves every other server, also one that shares the
  buffer and has a connection, and the other zones as they were. (In a worker without a thread pool,
  with memory enough for the list.)
\<close>

theorem shared_flush_loses_queue:
  assumes "process_ok zs D p" and "ample (pr_mem p)" and "\<not> pr_tp p" and "null_conn_law (dp_sqlite D)"
    and "k < length (pr_bufs p)" and "timer_on (sb_buf (pr_bufs p ! k))" and "sb_db (pr_bufs p ! k) = Some i"
    and "i < length (pr_srvs p)" and "pr_srvs p ! i = Some s" and "db_conn (sv_db (sl_srv s)) = None"
    and "flushed D k i s p = p'"
  shows "event_step D p p' \<and> entries (pr_zones p' (sl_zone s)) = [] \<and> sq (pr_sys p') = sq (pr_sys p) \<and>
    (\<forall>j. j \<noteq> i \<longrightarrow> pr_srvs p' ! j = pr_srvs p ! j) \<and> (\<forall>z. z \<noteq> sl_zone s \<longrightarrow> pr_zones p' z = pr_zones p z)"
proof -
  let ?b = "sb_buf (pr_bufs p ! k)"
  let ?w = "set_buf (fired ?b) (srv_view s p)"
  have p': "p' = put_back i s (buf_flush_handler D (fired ?b) ?w) p" using assms(11) by (simp add: flushed_def Let_def)
  obtain ev where ev: "buf_event ?b = Some ev" "timer_set ev" using assms(6) by (auto simp: timer_on_def)
  have step: "event_step D p p'" unfolding p' by (rule event_step.Timer [OF assms(5) refl ev assms(7-9)])
  have ok: "world_ok (zs (sl_zone s)) D ?w"
    using view_ok [OF assms(1) awake [OF assms(1,8,9)]] assms(5,7) by auto
  have h: "buf_flush_handler D (fired ?b) ?w = buf_flush_sync D (fired ?b) ?w"
    using assms(3) by (simp add: buf_flush_handler_def set_buf_def)
  have "entries (wd_sh (buf_flush_sync D (fired ?b) ?w)) = [] \<and>
      sq (wd_sys (buf_flush_sync D (fired ?b) ?w)) = sq (wd_sys ?w)"
    using assms(2,10) by (intro disabled_worker_loses_queue [OF ok _ _ assms(4)]) (simp_all add: set_buf_def)
  then have "entries (pr_zones p' (sl_zone s)) = []" "sq (pr_sys p') = sq (pr_sys p)"
    using h p' by (simp_all add: set_buf_def)
  with step show ?thesis using put_back_slot [OF assms(8)] p' by simp
qed

text \<open>
  Two servers that share a buffer with one entry: the first one has a connection, the second one,
  to which the flush context points, was disabled.
\<close>

definition sharing :: "(nat \<times> int, slab_state) process" where
  "sharing = \<lparr>pr_sys = full_sys, pr_mem = [], pr_tp = False, pr_zones = \<lambda>_. wd_sh example_full_queue,
     pr_bufs = [\<lparr>sb_buf = example_flush_buf True, sb_db = Some 1\<rparr>],
     pr_srvs = [Some (example_slot 1 mem_db), Some (example_slot 0 (mem_db\<lparr>db_conn := None\<rparr>))]\<rparr>"

lemma sharing_ok: "process_ok (\<lambda>_. example_zone 2 0) (example_deps S) sharing"
proof -
  have "zone_ready (example_zone 2 0) (wd_sh example_full_queue)"
    using world_ok_parts(1) [OF example_full_ok] .
  then show ?thesis
    by (auto simp: process_ok_def sharing_def slot_ok_def zone_fits_def example_slot_def less_Suc_eq)
qed

theorem shared_flush_loses_queue_witness:
  "entries (pr_zones sharing (Zone ''z'' 32768)) = [example_entry] \<and>
   (let p' = flushed (example_deps null_api) 0 1 (example_slot 0 (mem_db\<lparr>db_conn := None\<rparr>)) sharing
    in entries (pr_zones p' (Zone ''z'' 32768)) = [] \<and> pr_srvs p' ! 0 = Some (example_slot 1 mem_db))"
proof -
  let ?s = "example_slot 0 (mem_db\<lparr>db_conn := None\<rparr>)"
  have "process_ok (\<lambda>_. example_zone 2 0) (example_deps null_api) sharing" by (rule sharing_ok)
  note use = shared_flush_loses_queue [OF this, of 0 1 ?s, OF _ _ _ _ _ _ _ _ _ refl]
  have "sl_zone ?s = Zone ''z'' 32768" "pr_srvs sharing ! 0 = Some (example_slot 1 mem_db)"
    by (simp_all add: sharing_def example_slot_def)
  moreover have "entries (pr_zones (flushed (example_deps null_api) 0 1 ?s sharing) (sl_zone ?s)) = [] \<and>
      pr_srvs (flushed (example_deps null_api) 0 1 ?s sharing) ! 0 = pr_srvs sharing ! 0"
    using use null_api_law by (simp add: sharing_def timer_on_def example_flush_buf_def) (simp add: example_slot_def)
  ultimately show ?thesis using example_full_eval(2) by (simp add: sharing_def Let_def)
qed

text \<open>
  C13. A worker that exits, with memory enough, leaves no entry in the queue of any server that it
  has enabled with a connection and a buffer (lemma \<open>exit_buffer_spec\<close> shows that exactly these
  entries went to one \<open>db_insert_list\<close>). No queue gains an entry, the queues of other zones stay
  as they are or are emptied, and every zone is consistent and unlocked for the other workers.
\<close>

theorem worker_exit_empties_queues:
  assumes "process_ok zs D p" and "ample (pr_mem p)"
  shows "(\<forall>k. zone_ready (zs k) (pr_zones (exit_worker D p) k) \<and>
      entries (pr_zones (exit_worker D p) k) \<in> {entries (pr_zones p k), []}) \<and>
    (\<forall>i<length (pr_srvs p). \<forall>s. pr_srvs p ! i = Some s \<and> sv_enabled (sl_srv s) \<noteq> 0 \<and>
      db_conn (sv_db (sl_srv s)) \<noteq> None \<and> sl_buf s \<noteq> None \<longrightarrow> entries (pr_zones (exit_worker D p) (sl_zone s)) = [])"
  using exit_slots_spec [OF assms order_refl]
  by (simp add: exited_upto_def flushes_def exit_worker_def process_ok_def)

theorem worker_exit_empties_queues_witness:
  "entries (pr_zones sharing (Zone ''z'' 32768)) = [example_entry] \<and>
   entries (pr_zones (exit_worker (example_deps full_api) sharing) (Zone ''z'' 32768)) = []"
  using worker_exit_empties_queues [OF sharing_ok, of full_api] example_full_eval(2)
  by (auto simp: sharing_def example_slot_def less_Suc_eq)

end
