(* ===== verification/Refinement.thy ===== *)
theory Refinement
  imports Interleaving Process
begin

text \<open>
  The handlers of theory Handler are sequences of the actions that interleave: a request, a flush
  event or a task, run from its start to its end without anything between its actions, is one of
  the interleavings. A request receives exactly the log entry that it builds.
\<close>

section \<open>What the event loop does for one request\<close>

text \<open>The log entry of a request, if its handler comes to build one.\<close>

definition logged :: "('w, 'p, 'l) deps \<Rightarrow> request \<Rightarrow> ('w, 'p) world \<Rightarrow> ngx_str list option" where
  "logged D r wd =
     (if sv_enabled (wd_srv wd) = 0 \<or> \<not> accepted D r wd then None
      else
        let (ok_pool, wd) = (if wd_tp wd then create_pool wd else (True, wd))
        in if \<not> ok_pool then None
           else (case build D r wd of (Inl _, _) \<Rightarrow> None | (Inr e, _) \<Rightarrow> Some e))"

text \<open>The actions of the event loop apart from the beginning of a flush event.\<close>

definition serve_act ::
  "('w, 'p, 'l) deps \<Rightarrow> pc \<Rightarrow> ('w, 'p) world \<Rightarrow> event_of_entry list \<Rightarrow> pc \<Rightarrow> ('w, 'p) world \<Rightarrow> bool" where
  "serve_act D pc wd evs pc' wd' \<longleftrightarrow> loop_act D pc wd evs pc' wd' \<and> pc' \<noteq> Expired"

lemma one_loop: "loop_act D pc wd evs pc' wd' \<Longrightarrow> pc' \<noteq> Expired \<Longrightarrow> acts (serve_act D) pc wd evs pc' wd'"
  by (rule acts_one) (simp add: serve_act_def)

lemma more_loop:
  "loop_act D pc wd evs1 pc1 wd1 \<Longrightarrow> acts (serve_act D) pc1 wd1 evs2 pc2 wd2 \<Longrightarrow> pc1 \<noteq> Expired \<Longrightarrow>
     acts (serve_act D) pc wd (evs1 @ evs2) pc2 wd2"
  using acts.Act [of "serve_act D"] by (simp add: serve_act_def)

lemma plain_acts: "acts (busy_act D) pc wd evs pc' wd' \<Longrightarrow> acts (serve_act D) pc wd evs pc' wd'"
  by (erule acts_mono) (auto simp: busy_act_def serve_act_def intro: loop_act.Plain)

lemma handle_entry_acts:
  assumes ok: "world_ok z D wd" and len: "length e = zn_width z" and run: "handle_entry D e wd = (rc, wd')"
  shows "\<exists>evs. acts (serve_act D) (Handling e) wd evs (if rc = NGX_OK then Idle else Reporting) wd' \<and>
    received evs = [] \<and> (rc = NGX_OK \<longrightarrow> lost evs = [])"
proof -
  have ends: "(if rc = NGX_OK then Idle else Reporting) \<noteq> Expired" by simp
  show ?thesis
  proof (cases "wd_tp wd"; cases "sv_buf (wd_srv wd)")
    assume tp: "wd_tp wd" and b: "sv_buf (wd_srv wd) = None"
    then have "handle_1_async D e wd = (rc, wd')" using run by (simp add: handle_entry_def)
    from one_loop [OF loop_act.Async_1 [OF tp b this] ends] show ?thesis by fastforce
  next
    fix b assume tp: "wd_tp wd" and b: "sv_buf (wd_srv wd) = Some b"
    then have "handle_n_async D b e wd = (rc, wd')" using run by (simp add: handle_entry_def)
    from one_loop [OF loop_act.Async_n [OF tp b this] ends] show ?thesis by fastforce
  next
    assume tp: "\<not> wd_tp wd" and b: "sv_buf (wd_srv wd) = None"
    then have "handle_1 D e wd = (rc, wd')" using run by (simp add: handle_entry_def)
    from one_loop [OF loop_act.Direct [OF tp b this] ends] show ?thesis by fastforce
  next
    fix b assume tp: "\<not> wd_tp wd" and b: "sv_buf (wd_srv wd) = Some b"
    then have "handle_n D b e wd = (rc, wd')" using run by (simp add: handle_entry_def)
    from handle_n_acts [OF ok tp b len this] show ?thesis using plain_acts by blast
  qed
qed

text \<open>The label \<open>failed\<close>.\<close>

lemma failed_acts:
  assumes "handler_failed D wd = (rc, wd')"
  shows "acts (serve_act D) Failing wd [] Idle wd' \<and> rc \<noteq> NGX_OK"
  using one_loop [OF loop_act.Plain [OF act.Fail [OF assms]]] handler_failed_keeps [OF assms] by simp

lemma handler_entry_acts:
  assumes ok: "world_ok z D wd" and run: "handler_entry D r wd = (rc, wd')"
  shows "\<exists>evs. acts (serve_act D) (Building r) wd evs Idle wd' \<and>
    received evs = (case build D r wd of (Inl _, _) \<Rightarrow> [] | (Inr e, _) \<Rightarrow> [e]) \<and> (rc = NGX_OK \<longrightarrow> lost evs = [])"
proof -
  obtain en r' m where e: "build D r wd = (en, r', m)" by (cases "build D r wd") auto
  show ?thesis
  proof (cases en)
    case (Inl fault)
    let ?w = "wd\<lparr>wd_mem := m, wd_sys := (log_error ''sqlitelog: failed to get log entry for request, '' []
        (wd_sys wd))\<lparr>ub := (ub (wd_sys wd) \<or> fault = Overrun)\<rparr>\<rparr>"
    have f: "handler_failed D ?w = (rc, wd')" using run e Inl by (simp add: handler_entry_def)
    have "loop_act D (Building r) wd [] Failing ?w"
      using loop_act.Plain [OF act.Build_error [OF e [unfolded Inl]]] .
    from more_loop [OF this conjunct1 [OF failed_acts [OF f]]] failed_acts [OF f] e Inl show ?thesis by auto
  next
    case (Inr row)
    let ?w = "wd\<lparr>wd_mem := m\<rparr>"
    have len: "length row = zn_width z"
      using log_entry_length [OF e [unfolded Inr]] world_ok_parts(5) [OF ok] by simp
    obtain rc1 w1 where h: "handle_entry D row ?w = (rc1, w1)" by (cases "handle_entry D row ?w")
    have "world_ok z D ?w" using ok by simp
    from handle_entry_acts [OF this len h] obtain evs where
      a: "acts (serve_act D) (Handling row) ?w evs (if rc1 = NGX_OK then Idle else Reporting) w1"
      and ev: "received evs = []" "rc1 = NGX_OK \<longrightarrow> lost evs = []" by blast
    have build: "loop_act D (Building r) wd [Received row] (Handling row) ?w"
      using loop_act.Plain [OF act.Build [OF e [unfolded Inr]]] .
    show ?thesis
    proof (cases "rc1 = NGX_OK")
      case True
      then have "rc = NGX_OK" "wd' = w1" using run e Inr h by (simp_all add: handler_entry_def)
      with more_loop [OF build a] True ev e Inr show ?thesis by auto
    next
      case False
      let ?f = "wd_log ''sqlitelog: failed to handle log entry for database \"%V\"'' w1"
      have f: "handler_failed D ?f = (rc, wd')" using run e Inr h False by (simp add: handler_entry_def)
      have "acts (serve_act D) (Handling row) ?w evs Reporting w1" using a False by simp
      from more_loop [OF build acts_append [OF this
            more_loop [OF loop_act.Plain [OF act.Report] conjunct1 [OF failed_acts [OF f]]]]]
        failed_acts [OF f] ev e Inr False show ?thesis by auto
    qed
  qed
qed

lemma handler_unfold:
  "sv_enabled (wd_srv wd) = 0 \<or> \<not> accepted D r wd \<Longrightarrow> snd (handler D r wd) = wd"
  "sv_enabled (wd_srv wd) \<noteq> 0 \<Longrightarrow> accepted D r wd \<Longrightarrow> handler D r wd =
     (if wd_tp wd
      then let (ok_pool, wd) = create_pool wd
           in if \<not> ok_pool
              then (NGX_ERROR, wd\<lparr>wd_sys := log_error
                ''sqlitelog: failed to allocate %z bytes for pool during request handler'' [] (wd_sys wd)\<rparr>)
              else handler_entry D r wd
      else handler_entry D r wd)"
  by (auto simp: handler_def accepted_def Let_def split: option.splits bool.splits)

lemma handler_acts:
  assumes ok: "world_ok z D wd" and run: "handler D r wd = (rc, wd')"
  shows "\<exists>evs. acts (serve_act D) Idle wd evs Idle wd' \<and> received evs = opt_entry (logged D r wd) \<and>
    (rc = NGX_OK \<longrightarrow> lost evs = [])"
proof (cases "sv_enabled (wd_srv wd) = 0 \<or> \<not> accepted D r wd")
  case True
  then have "wd' = wd" "logged D r wd = None" using run handler_unfold(1) [OF True] by (auto simp: logged_def)
  then show ?thesis using acts.Stop by fastforce
next
  case False
  then have en: "sv_enabled (wd_srv wd) \<noteq> 0" and acc: "accepted D r wd" by simp_all
  have step: "\<exists>evs. acts (serve_act D) Idle wd evs Idle wd' \<and>
      received evs = opt_entry (case build D r w of (Inl _, _) \<Rightarrow> None | (Inr e, _) \<Rightarrow> Some e) \<and>
      (rc = NGX_OK \<longrightarrow> lost evs = [])"
    if "loop_act D Idle wd [] (Building r) w" "world_ok z D w" "handler_entry D r w = (rc, wd')" for w
    using more_loop [OF that(1)] handler_entry_acts [OF that(2,3)]
    by (fastforce split: prod.splits sum.splits)
  show ?thesis
  proof (cases "wd_tp wd")
    case tp: False
    have "handler_entry D r wd = (rc, wd')" using run handler_unfold(2) [OF en acc] tp by simp
    from step [OF loop_act.Plain [OF act.Begin [OF en acc tp]] ok this] False tp show ?thesis
      by (simp add: logged_def)
  next
    case tp: True
    obtain okp w where p: "create_pool wd = (okp, w)" by (cases "create_pool wd")
    note begin_pool = loop_act.Begin_pool [OF en acc tp p]
    show ?thesis
    proof (cases okp)
      case True
      have "handler_entry D r w = (rc, wd')" using run handler_unfold(2) [OF en acc] tp p True by simp
      moreover have "loop_act D Idle wd [] (Building r) w" using begin_pool True by simp
      ultimately show ?thesis using step [of w] world_ok_create_pool [OF ok p] False tp p True
        by (simp add: logged_def)
    next
      case no_pool: False
      have "wd' = w\<lparr>wd_sys := log_error
          ''sqlitelog: failed to allocate %z bytes for pool during request handler'' [] (wd_sys w)\<rparr>"
        using run handler_unfold(2) [OF en acc] tp p no_pool by simp
      with one_loop [OF begin_pool] False tp p no_pool show ?thesis
        by (intro exI [of _ "[]"]) (simp add: logged_def)
    qed
  qed
qed

section \<open>What it does for a flush event\<close>

lemma flush_handler_acts:
  assumes b: "sv_buf (wd_srv wd) = Some b" "buf_event b = Some ev" "timer_set ev"
  shows "loop_act D Idle wd [] Expired (set_buf (fired b) wd) \<and>
    (\<exists>evs. acts (serve_act D) Expired (set_buf (fired b) wd) evs Idle
       (buf_flush_handler D (fired b) (set_buf (fired b) wd)) \<and> received evs = [])"
proof -
  let ?w = "set_buf (fired b) wd"
  have "\<exists>evs. acts (serve_act D) Expired ?w evs Idle (buf_flush_handler D (fired b) ?w) \<and> received evs = []"
  proof (cases "wd_tp wd")
    case True
    have "loop_act D Expired ?w [] Idle (buf_flush_async D (fired b) ?w)"
      using True by (intro loop_act.Async_flush) simp_all
    from one_loop [OF this] True show ?thesis by (auto simp: buf_flush_handler_def)
  next
    case False
    then have "\<exists>evs. acts (busy_act D) Expired ?w evs Idle (buf_flush_sync D (fired b) ?w) \<and> received evs = []"
      by (intro buf_flush_sync_acts) simp_all
    with False show ?thesis using plain_acts by (simp add: buf_flush_handler_def) blast
  qed
  with loop_act.Plain [OF act.Expire [OF b]] show ?thesis by blast
qed

section \<open>Buffers and posted tasks\<close>

text \<open>No action takes a buffer away or brings one, and the timer only starts if it may.\<close>

lemma exit_take_moves:
  assumes "sv_buf (wd_srv wd) = Some b" and "exit_take D b wd = (r, wd')"
  shows "moves wd wd'"
proof -
  have "buf_moves b (buf_timer_stop b)"
    by (auto simp: buf_moves_def can_flush_def timer_on_def buf_timer_stop_def split: option.splits)
  with assms show ?thesis
    by (auto simp: exit_take_def moves_def set_buf_def Let_def split: prod.splits option.splits if_splits)
qed

lemma act_moves: "act D pc wd evs pc' wd' \<Longrightarrow> moves wd wd'"
proof (induction rule: act.induct)
  case (Queue wd b e wd')
  then show ?case by (simp add: locked_moves(1))
next
  case (Queue_error wd b e wd')
  then show ?case by (simp add: locked_moves(1))
next
  case (Take wd b e rows rc_push wd')
  then show ?case by (simp add: locked_moves(1))
next
  case (Insert rows wd wd' u)
  then show ?case using keeps_moves [OF handle_n_insert_keeps] by blast
next
  case (Insert_error rows wd wd' u)
  then show ?case using keeps_moves [OF handle_n_insert_keeps] by blast
next
  case (Unshift e wd wd')
  then show ?case by (rule unshift_moves)
next
  case (Unshift_error e wd wd')
  then show ?case by (rule unshift_moves)
next
  case (Fail wd rc wd')
  then show ?case using keeps_moves handler_failed_keeps by blast
next
  case (Expire wd b ev)
  then show ?case by (simp add: moves_def buf_moves_def can_flush_def timer_on_def fired_def)
next
  case (Flush_check wd b len sh)
  then show ?case by (simp add: moves_def)
next
  case (Flush_take wd b r wd')
  then show ?case by (simp add: locked_moves(2))
next
  case (Flush_insert wd rows rc)
  have "keeps (destroy_pool wd) (buf_flush_insert D rows wd)" using buf_flush_insert_spec [OF refl] by blast
  from keeps_moves [OF this] show ?case by (simp add: moves_def)
next
  case (Exit_take wd b r wd')
  then show ?case by (simp add: exit_take_moves)
next
  case (Exit_insert wd rows rc)
  then show ?case using keeps_moves exit_insert_spec [OF refl] by blast
next
  case (Exit_end wd)
  show ?case by (rule keeps_moves [OF exit_end_spec])
qed simp_all

lemma flush_async_moves:
  assumes b: "sv_buf (wd_srv wd) = Some b"
  shows "moves wd (buf_flush_async D b wd)"
proof -
  obtain len sh where g: "buf_get_len (wd_sh wd) = (len, sh)" by (cases "buf_get_len (wd_sh wd)")
  let ?wd = "wd\<lparr>wd_sh := sh\<rparr>" and ?t = "\<lparr>tk_handler = Thread_flush, tk_db = None, tk_entry = None\<rparr>"
  obtain okp w1 where p: "create_pool ?wd = (okp, w1)" by (cases "create_pool ?wd")
  obtain okt w2 where t: "wd_palloc w1 = (okt, w2)" by (cases "wd_palloc w1")
  obtain rp w3 where ps: "post_task ?t w2 = (rp, w3)" by (cases "post_task ?t w2")
  have "wd_srv w1 = wd_srv wd" "wd_srv w2 = wd_srv wd" "wd_srv w3 = wd_srv wd"
    using create_pool_frame(2) [OF p] wd_palloc_frame(2) [OF t] post_task_spec(2) [OF ps] by simp_all
  then show ?thesis using b g p t ps by (auto simp: buf_flush_async_def moves_def Let_def option.rel_refl)
qed

lemma loop_act_moves: "loop_act D pc wd evs pc' wd' \<Longrightarrow> moves wd wd'"
proof (induction rule: loop_act.induct)
  case (Direct wd e rc wd')
  then show ?case using keeps_moves [OF handle_1_keeps] by blast
next
  case (Begin_pool wd r made wd')
  then show ?case using create_pool_frame(2) [OF Begin_pool(4)] by simp
next
  case (Async_flush wd b)
  then show ?case by (simp add: flush_async_moves)
qed (simp_all add: act_moves async_moves)

lemma thread_act_moves: "thread_act D job wd evs job' wd' \<Longrightarrow> moves wd wd'"
proof (induction rule: thread_act.induct)
  case (Insert_1 wd t ts d e rc)
  have "moves (wd\<lparr>wd_tasks := ts\<rparr>) (thread_insert_1 D d e (wd\<lparr>wd_tasks := ts\<rparr>))"
    using keeps_moves thread_insert_1_keeps by blast
  then show ?case by (simp add: moves_def)
next
  case (List_n wd t ts d b r wd')
  have "moves (wd\<lparr>wd_tasks := ts\<rparr>) wd'" using List_n(4) by (intro locked_moves(3) [OF _ List_n(5)]) simp
  then show ?case by (simp add: moves_def)
next
  case (Insert_n d rows wd rc wd' u)
  then show ?case using keeps_moves thread_n_insert_keeps by blast
next
  case (Unshift_n e wd rc wd')
  then show ?case by (rule unshift_moves)
next
  case (List_flush wd t ts b r wd')
  have "moves (wd\<lparr>wd_tasks := ts\<rparr>) wd'" using List_flush(4) by (intro locked_moves(4) [OF _ List_flush(5)]) simp
  then show ?case by (simp add: moves_def)
next
  case (Insert_flush wd rows rc)
  then show ?case using keeps_moves thread_flush_insert_keeps [OF refl] by blast
qed

lemma worker_act_moves: "worker_act D pl wd evs pl' wd' \<Longrightarrow> moves wd wd'"
  by (induction rule: worker_act.induct) (auto simp: thread_completed_def dest: loop_act_moves thread_act_moves)

lemma moves_None: "moves wd wd' \<Longrightarrow> (sv_buf (wd_srv wd') = None) = (sv_buf (wd_srv wd) = None)"
  by (auto simp: moves_def)

lemma moves_runnable: "moves wd wd' \<Longrightarrow> runnable wd' t = runnable wd t"
  using moves_None [of wd wd'] by (simp add: runnable_def split: task_handler.split)

text \<open>A worker has a thread pool or not.\<close>

lemma act_tp: "act D pc wd evs pc' wd' \<Longrightarrow> wd_tp wd' = wd_tp wd"
proof (induction rule: act.induct)
  case (Insert rows wd wd' u)
  then show ?case using handle_n_insert_keeps [OF Insert] by (simp add: keeps_def)
next
  case (Insert_error rows wd wd' u)
  then show ?case using handle_n_insert_keeps [OF Insert_error] by (simp add: keeps_def)
next
  case (Fail wd rc wd')
  then show ?case using handler_failed_keeps [OF Fail] by (simp add: keeps_def)
next
  case (Flush_insert wd rows rc)
  then show ?case using buf_flush_insert_spec [of D rows wd, OF refl] by (simp add: keeps_def)
next
  case (Exit_insert wd rows rc)
  then show ?case using exit_insert_spec [of D rows wd, OF refl] by (simp add: keeps_def)
next
  case (Exit_end wd)
  show ?case using exit_end_spec [of wd D] by (simp add: keeps_def)
qed (auto simp: handle_n_locked_def handle_n_unshift_def buf_flush_locked_def exit_take_def create_pool_def wd_palloc_def Let_def
    split: prod.splits option.splits if_splits)

lemma loop_act_tp: "loop_act D pc wd evs pc' wd' \<Longrightarrow> wd_tp wd' = wd_tp wd"
proof (induction rule: loop_act.induct)
  case (Direct wd e rc wd')
  then show ?case using handle_1_keeps [OF Direct(3)] by (simp add: keeps_def)
next
  case (Begin_pool wd r made wd')
  then show ?case using create_pool_frame(6) [OF Begin_pool(4)] by simp
qed (auto simp: act_tp handle_1_async_def handle_n_async_def buf_flush_async_def post_task_def create_pool_def wd_palloc_def
    Let_def split: prod.splits if_splits)

lemma thread_act_tp: "thread_act D job wd evs job' wd' \<Longrightarrow> wd_tp wd' = wd_tp wd"
proof (induction rule: thread_act.induct)
  case (Insert_1 wd t ts d e rc)
  then show ?case using thread_insert_1_keeps [of "wd\<lparr>wd_tasks := ts\<rparr>" D d e] by (simp add: keeps_def)
next
  case (Insert_n d rows wd rc wd' u)
  then show ?case using thread_n_insert_keeps [OF Insert_n] by (simp add: keeps_def)
next
  case (Insert_flush wd rows rc)
  then show ?case using thread_flush_insert_keeps [of D rows wd, OF refl] by (simp add: keeps_def)
qed (auto simp: thread_insert_n_locked_def thread_n_unshift_def thread_flush_locked_def Let_def
    split: prod.splits option.splits if_splits)

lemma worker_act_tp: "worker_act D pl wd evs pl' wd' \<Longrightarrow> wd_tp wd' = wd_tp wd"
  by (induction rule: worker_act.induct) (simp_all add: loop_act_tp thread_act_tp thread_completed_def)

text \<open>Every task that the event loop posts can run.\<close>

lemma flush_async_tasks:
  "sv_buf (wd_srv wd) = Some b \<Longrightarrow> set (wd_tasks (buf_flush_async D b wd)) \<subseteq> set (wd_tasks wd) \<union> Collect (runnable wd)"
  by (auto simp: buf_flush_async_def runnable_def Let_def destroy_pool_def create_pool_def wd_palloc_def post_task_def
      split: prod.splits if_splits)

lemma loop_act_tasks:
  "loop_act D pc wd evs pc' wd' \<Longrightarrow> set (wd_tasks wd') \<subseteq> set (wd_tasks wd) \<union> Collect (runnable wd)"
proof (induction rule: loop_act.induct)
  case (Plain pc wd evs pc' wd')
  then show ?case by (simp add: act_tasks)
next
  case (Direct wd e rc wd')
  then show ?case using handle_1_keeps [OF Direct(3)] by (simp add: keeps_def)
next
  case (Begin_pool wd r made wd')
  then show ?case using create_pool_frame(5) [OF Begin_pool(4)] by simp
next
  case (Async_1 wd e rc wd')
  then show ?case
    by (auto simp: handle_1_async_def runnable_def Let_def wd_palloc_def post_task_def split: prod.splits if_splits)
next
  case (Async_n wd b e rc wd')
  then show ?case
    by (auto simp: handle_n_async_def runnable_def Let_def wd_palloc_def post_task_def split: prod.splits if_splits)
next
  case (Async_flush wd b)
  then show ?case by (intro flush_async_tasks) simp
qed

lemma thread_act_tasks: "thread_act D job wd evs job' wd' \<Longrightarrow> set (wd_tasks wd') \<subseteq> set (wd_tasks wd)"
proof (induction rule: thread_act.induct)
  case (Insert_1 wd t ts d e rc)
  then show ?case using thread_insert_1_keeps [of "wd\<lparr>wd_tasks := ts\<rparr>" D d e] by (auto simp: keeps_def)
next
  case (List_n wd t ts d b r wd')
  then show ?case by (auto simp: thread_insert_n_locked_def Let_def split: prod.splits option.splits)
next
  case (Insert_n d rows wd rc wd' u)
  then show ?case using thread_n_insert_keeps [OF Insert_n] by (simp add: keeps_def)
next
  case (Unshift_n e wd rc wd')
  then show ?case by (auto simp: thread_n_unshift_def Let_def split: prod.splits if_splits)
next
  case (List_flush wd t ts b r wd')
  then show ?case by (auto simp: thread_flush_locked_def Let_def split: prod.splits option.splits if_splits)
next
  case (Insert_flush wd rows rc)
  then show ?case using thread_flush_insert_keeps [of D rows wd, OF refl] by (simp add: keeps_def)
qed

definition tasks_runnable :: "('w, 'p) world \<Rightarrow> bool" where
  "tasks_runnable wd \<longleftrightarrow> (\<forall>t\<in>set (wd_tasks wd). runnable wd t)"

lemma worker_act_runnable:
  assumes "worker_act D pl wd evs pl' wd'" and "tasks_runnable wd"
  shows "tasks_runnable wd'"
proof -
  have "set (wd_tasks wd') \<subseteq> set (wd_tasks wd) \<union> Collect (runnable wd)"
    using assms(1) by cases (auto simp: thread_completed_def dest: loop_act_tasks thread_act_tasks)
  with assms(2) moves_runnable [OF worker_act_moves [OF assms(1)]] show ?thesis by (auto simp: tasks_runnable_def)
qed

section \<open>Whole handlers\<close>

text \<open>
  The actions of a worker; those that begin a flush event only if \<open>flush\<close>.
\<close>

definition guarded ::
  "bool \<Rightarrow> ('w, 'p, 'l) deps \<Rightarrow> place \<Rightarrow> ('w, 'p) world \<Rightarrow> event_of_entry list \<Rightarrow> place \<Rightarrow> ('w, 'p) world \<Rightarrow> bool" where
  "guarded flush D pl wd evs pl' wd' \<longleftrightarrow>
     worker_act D pl wd evs pl' wd' \<and> (fst pl = Idle \<and> fst pl' = Expired \<longrightarrow> flush)"

lemma guarded_acts: "acts (guarded flush D) pl wd evs pl' wd' \<Longrightarrow> acts (worker_act D) pl wd evs pl' wd'"
  by (erule acts_mono) (simp add: guarded_def)

lemma guarded_moves: "acts (guarded flush D) pl wd evs pl' wd' \<Longrightarrow> moves wd wd'"
  by (induction rule: acts.induct) (auto simp: guarded_def dest: worker_act_moves intro: moves_trans)

lemma serve_acts_worker: "acts (serve_act D) pc wd evs pc' wd' \<Longrightarrow> acts (guarded flush D) (pc, js) wd evs (pc', js) wd'"
proof (induction rule: acts.induct)
  case (Stop pc wd)
  show ?case by (rule acts.Stop)
next
  case (Act pc wd evs1 pc1 wd1 evs2 pc2 wd2)
  have "guarded flush D (pc, js) wd evs1 (pc1, js) wd1"
    using Act(1) worker_act.Loop [of D pc wd evs1 pc1 wd1 js] by (simp add: guarded_def serve_act_def)
  from acts.Act [of "guarded flush D", OF this Act(3)] show ?case .
qed

lemma thread_acts_worker:
  assumes "acts (thread_act D) job wd evs job' wd'" and "j < length js" and "js ! j = job"
  shows "acts (guarded flush D) (pc, js) wd evs (pc, js[j := job']) wd'"
  using assms
proof (induction arbitrary: js rule: acts.induct)
  case (Stop job wd)
  then have "js[j := job] = js" by (metis list_update_id)
  then show ?case by (simp add: acts.Stop)
next
  case (Act job wd evs1 job1 wd1 evs2 job2 wd2)
  have "worker_act D (pc, js) wd evs1 (pc, js[j := job1]) wd1"
    using Act.hyps(1) Act.prems by (intro worker_act.Thread) simp_all
  then have "guarded flush D (pc, js) wd evs1 (pc, js[j := job1]) wd1" by (auto simp: guarded_def)
  from acts.Act [of "guarded flush D", OF this Act.IH] Act.prems show ?case by simp
qed

lemma thread_receives_nothing: "acts (thread_act D) job wd evs job' wd' \<Longrightarrow> received evs = []"
  by (induction rule: acts.induct) (auto elim!: thread_act.cases)

lemma guarded_handler:
  assumes "world_ok z D wd" and "handler D r wd = (rc, wd')"
  shows "\<exists>evs. acts (guarded False D) (Idle, js) wd evs (Idle, js) wd' \<and> received evs = opt_entry (logged D r wd) \<and>
    (rc = NGX_OK \<longrightarrow> lost evs = [])"
  using handler_acts [OF assms] serve_acts_worker by blast

lemma guarded_flush:
  assumes "sv_buf (wd_srv wd) = Some b" and "buf_event b = Some ev" and "timer_set ev"
  shows "\<exists>evs. acts (guarded True D) (Idle, js) wd evs (Idle, js)
    (buf_flush_handler D (fired b) (set_buf (fired b) wd)) \<and> received evs = []"
proof -
  let ?w = "set_buf (fired b) wd"
  note f = flush_handler_acts [OF assms, of D]
  have "guarded True D (Idle, js) wd [] (Expired, js) ?w"
    using f worker_act.Loop [of D Idle wd "[]" Expired ?w js] by (simp add: guarded_def)
  from acts.Act [of "guarded True D", OF this serve_acts_worker] f show ?thesis by fastforce
qed

lemma guarded_task:
  assumes "wd_tasks wd \<noteq> []" and "tasks_runnable wd" and j: "j < length js" "js ! j = None"
  shows "\<exists>evs. acts (guarded False D) (Idle, js) wd evs (Idle, js) (run_task D wd) \<and> received evs = []"
proof -
  obtain t ts where t: "wd_tasks wd = t # ts" using assms(1) by (cases "wd_tasks wd") auto
  let ?w = "call_task D t (wd\<lparr>wd_tasks := ts\<rparr>)"
  have "runnable wd t" using assms(2) t by (simp add: tasks_runnable_def)
  from task_acts [OF t this] obtain evs where a: "acts (thread_act D) None wd evs (Some Job_done) ?w" by blast
  have "worker_act D (Idle, js[j := Some Job_done]) ?w [] (Idle, js[j := Some Job_done, j := None])
      (thread_completed ?w)"
    using j(1) by (intro worker_act.Completed) simp_all
  then have completed: "guarded False D (Idle, js[j := Some Job_done]) ?w []
      (Idle, js[j := Some Job_done, j := None]) (thread_completed ?w)"
    by (simp add: guarded_def)
  have "js[j := Some Job_done, j := None] = js" using j by (metis list_update_id list_update_overwrite)
  with acts_append [OF thread_acts_worker [OF a j] acts_one [of "guarded False D", OF completed]]
    thread_receives_nothing [OF a] t show ?thesis by (auto simp: run_task_def)
qed

section \<open>Properties\<close>

text \<open>
  C11. The handlers are sequences of the actions that interleave. A request receives exactly the
  log entry that it builds, if it comes to build one, and a request that is answered with OK loses
  no entry; a flush event and a task receive nothing. All of them end where they began, with the
  event loop idle and the thread free. So what holds for all interleavings of actions holds for all
  interleavings of the critical sections and insertions of the handlers and tasks.
\<close>

theorem handlers_are_actions:
  assumes "world_ok z D wd" and "tasks_runnable wd" and "j < length js" and "js ! j = None"
  shows "(\<forall>r rc wd'. handler D r wd = (rc, wd') \<longrightarrow>
      (\<exists>evs. acts (worker_act D) (Idle, js) wd evs (Idle, js) wd' \<and> received evs = opt_entry (logged D r wd) \<and>
        (rc = NGX_OK \<longrightarrow> lost evs = []) \<and> tasks_runnable wd')) \<and>
    (\<forall>b ev. sv_buf (wd_srv wd) = Some b \<and> buf_event b = Some ev \<and> timer_set ev \<longrightarrow>
      (\<exists>evs. acts (worker_act D) (Idle, js) wd evs (Idle, js) (buf_flush_handler D (fired b) (set_buf (fired b) wd)) \<and>
        received evs = [])) \<and>
    (wd_tasks wd \<noteq> [] \<longrightarrow>
      (\<exists>evs. acts (worker_act D) (Idle, js) wd evs (Idle, js) (run_task D wd) \<and> received evs = []))"
proof (intro conjI allI impI; (elim conjE)?)
  fix r rc wd' assume h: "handler D r wd = (rc, wd')"
  obtain evs where w: "acts (worker_act D) (Idle, js) wd evs (Idle, js) wd'"
    and ev: "received evs = opt_entry (logged D r wd)" "rc = NGX_OK \<longrightarrow> lost evs = []"
    using guarded_handler [OF assms(1) h] guarded_acts by blast
  have "tasks_runnable wd'"
    using w assms(2) by (induction rule: acts.induct) (auto dest: worker_act_runnable)
  with w ev show "\<exists>evs. acts (worker_act D) (Idle, js) wd evs (Idle, js) wd' \<and>
      received evs = opt_entry (logged D r wd) \<and> (rc = NGX_OK \<longrightarrow> lost evs = []) \<and> tasks_runnable wd'"
    by blast
next
  fix b ev assume "sv_buf (wd_srv wd) = Some b" "buf_event b = Some ev" "timer_set ev"
  from guarded_flush [OF this] guarded_acts
  show "\<exists>evs. acts (worker_act D) (Idle, js) wd evs (Idle, js)
      (buf_flush_handler D (fired b) (set_buf (fired b) wd)) \<and> received evs = []" by blast
next
  assume "wd_tasks wd \<noteq> []"
  from guarded_task [OF this assms(2-4)] guarded_acts
  show "\<exists>evs. acts (worker_act D) (Idle, js) wd evs (Idle, js) (run_task D wd) \<and> received evs = []" by blast
qed

text \<open>A request with two values, in a worker with one idle thread and no buffer.\<close>

definition direct_world :: "(mem_sqlite, slab_state) world" where
  "direct_world = example_world mem_start None True 8"

lemma direct_eval:
  "fst (handler (example_deps mem_api) (example_request 150) direct_world) = NGX_OK"
  "logged (example_deps mem_api) (example_request 150) direct_world \<noteq> None"
  by code_simp+

theorem handlers_are_actions_witness:
  "\<exists>evs e wd'. acts (worker_act (example_deps mem_api)) (Idle, [None]) direct_world evs (Idle, [None]) wd' \<and>
     received evs = [e] \<and> lost evs = []"
proof -
  let ?D = "example_deps mem_api"
  obtain wd' where run: "handler ?D (example_request 150) direct_world = (NGX_OK, wd')"
    using direct_eval(1) by (metis prod.collapse)
  have "world_ok (example_zone 2 0) ?D direct_world" unfolding direct_world_def by (rule example_world_ok)
  moreover have "tasks_runnable direct_world" by (simp add: tasks_runnable_def direct_world_def)
  ultimately obtain evs where a: "acts (worker_act ?D) (Idle, [None]) direct_world evs (Idle, [None]) wd'"
      "received evs = opt_entry (logged ?D (example_request 150) direct_world)" "lost evs = []"
    using handlers_are_actions [of "example_zone 2 0" ?D direct_world 0 "[None]"] run by fastforce
  obtain e where "logged ?D (example_request 150) direct_world = Some e" using direct_eval(2) by blast
  with a show ?thesis by auto
qed

end
