(* ===== verification/System.thy ===== *)
theory System
  imports Refinement
begin

text \<open>
  The whole system: any number of worker processes, each with all its servers and with threads, on
  the zones and databases that they share. Workers start and exit while others run. The actions of
  theory Threads, on the view that one server has of its process (theory Process), interleave
  freely, except that a worker has one event loop for all its servers. Every zone is accounted for
  by itself.
\<close>

section \<open>The actions of a worker process\<close>

text \<open>
  A worker process has a \<open>place\<close> for each of its servers. \<open>Loop\<close>: the event loop is busy with one
  server at a time; only the server that the flush context of a buffer points to handles its flush
  event. \<open>Thread\<close>: threads go on at any time. \<open>Exit\<close>: the loop of \<open>exit_worker\<close> goes through the
  servers, and there are no more requests and flush events once it is past a server.
\<close>

inductive process_act ::
  "('w, 'p, 'l) deps \<Rightarrow> place list \<Rightarrow> ('w, 'p) process \<Rightarrow> zone_id \<Rightarrow> event_of_entry list \<Rightarrow>
   place list \<Rightarrow> ('w, 'p) process \<Rightarrow> bool"
  for D where
  Loop: "i < length (pr_srvs p) \<Longrightarrow> pr_srvs p ! i = Some s \<Longrightarrow> (\<forall>j<length pls. j \<noteq> i \<longrightarrow> fst (pls ! j) = Idle) \<Longrightarrow>
    worker_act D (pls ! i) (srv_view s p) evs pl wd \<Longrightarrow>
    (fst (pls ! i) = Idle \<and> fst pl = Expired \<longrightarrow> (\<exists>k. sl_buf s = Some k \<and> sb_db (pr_bufs p ! k) = Some i)) \<Longrightarrow>
    process_act D pls p (sl_zone s) evs (pls[i := pl]) (put_back i s wd p)"
| Thread: "i < length (pr_srvs p) \<Longrightarrow> pr_srvs p ! i = Some s \<Longrightarrow> pls ! i = (pc, js) \<Longrightarrow> j < length js \<Longrightarrow>
    thread_act D (js ! j) (srv_view s p) evs job wd \<Longrightarrow>
    process_act D pls p (sl_zone s) evs (pls[i := (pc, js[j := job])]) (put_back i s wd p)"
| Exit: "i < length (pr_srvs p) \<Longrightarrow> pr_srvs p ! i = Some s \<Longrightarrow>
    (\<forall>j<length pls. j \<noteq> i \<longrightarrow> fst (pls ! j) \<in> {Idle, Exited}) \<Longrightarrow>
    pls ! i = (pc, js) \<Longrightarrow> act D pc (srv_view s p) evs pc' wd \<Longrightarrow> exiting pc' \<Longrightarrow>
    process_act D pls p (sl_zone s) evs (pls[i := (pc', js)]) (put_back i s wd p)"

section \<open>The system\<close>

text \<open>
  The zones and SQLite are those of the system; a worker sees and changes them when it acts. Workers
  start at any time, as processes that are \<open>new\<close>, on the zones as the others left them; when
  \<open>init_worker\<close> is done, they are idle, with threads for each server.
\<close>

record ('w, 'p) system =
  sy_zones :: "zone_id \<Rightarrow> 'p shctx"
  sy_sys :: "'w sys"
  sy_workers :: "(place list \<times> ('w, 'p) process) list"

definition in_worker :: "('w, 'p) system \<Rightarrow> nat \<Rightarrow> ('w, 'p) process" where
  "in_worker y w = (snd (sy_workers y ! w))\<lparr>pr_zones := sy_zones y, pr_sys := sy_sys y\<rparr>"

definition places :: "('w, 'p) system \<Rightarrow> nat \<Rightarrow> place list" where
  "places y w = fst (sy_workers y ! w)"

definition from_worker :: "nat \<Rightarrow> place list \<Rightarrow> ('w, 'p) process \<Rightarrow> ('w, 'p) system \<Rightarrow> ('w, 'p) system" where
  "from_worker w pls p y = y\<lparr>sy_zones := pr_zones p, sy_sys := pr_sys p,
     sy_workers := (sy_workers y)[w := (pls, p)]\<rparr>"

definition start_places :: "nat \<Rightarrow> ('w, 'p) process \<Rightarrow> place list" where
  "start_places n p = replicate (length (pr_srvs p)) (Idle, replicate n None)"

definition add_worker :: "place list \<Rightarrow> ('w, 'p) process \<Rightarrow> ('w, 'p) system \<Rightarrow> ('w, 'p) system" where
  "add_worker pls p y = y\<lparr>sy_sys := pr_sys p, sy_workers := sy_workers y @ [(pls, p)]\<rparr>"

text \<open>The events of a run come with the zone of the server that they happened at.\<close>

inductive system_run ::
  "('w, 'p, 'l) deps \<Rightarrow> (('w, 'p) process \<Rightarrow> bool) \<Rightarrow> ('w, 'p) system \<Rightarrow> (zone_id \<times> event_of_entry) list \<Rightarrow>
   ('w, 'p) system \<Rightarrow> bool"
  for D new where
  Start: "system_run D new y [] y"
| Worker: "system_run D new y evs y1 \<Longrightarrow> new p0 \<Longrightarrow> pr_zones p0 = sy_zones y1 \<Longrightarrow> pr_sys p0 = sy_sys y1 \<Longrightarrow>
    init_worker D p0 = (rc, p) \<Longrightarrow> system_run D new y evs (add_worker (start_places n p) p y1)"
| Step: "system_run D new y evs y1 \<Longrightarrow> w < length (sy_workers y1) \<Longrightarrow>
    process_act D (places y1 w) (in_worker y1 w) k evs1 pls p \<Longrightarrow>
    system_run D new y (evs @ map (Pair k) evs1) (from_worker w pls p y1)"

definition events_at :: "zone_id \<Rightarrow> (zone_id \<times> event_of_entry) list \<Rightarrow> event_of_entry list" where
  "events_at k evs = map snd (filter (\<lambda>(z, _). z = k) evs)"

lemma events_at_simps [simp]:
  "events_at k [] = []" "events_at k (xs @ ys) = events_at k xs @ events_at k ys"
  "events_at k (map (Pair z) es) = (if z = k then es else [])"
  by (simp_all add: events_at_def filter_map o_def)

section \<open>What the servers hold\<close>

definition slot_hands :: "zone_id \<Rightarrow> place list \<Rightarrow> ('w, 'p) process \<Rightarrow> nat \<Rightarrow> ngx_str list multiset" where
  "slot_hands k pls p i =
     (case pr_srvs p ! i of
        None \<Rightarrow> {#}
      | Some s \<Rightarrow> if sl_zone s = k then worker_hands (pls ! i) (srv_view s p) else {#})"

definition process_hands :: "zone_id \<Rightarrow> place list \<Rightarrow> ('w, 'p) process \<Rightarrow> ngx_str list multiset" where
  "process_hands k pls p = (\<Sum>i<length (pr_srvs p). slot_hands k pls p i)"

definition system_hands :: "zone_id \<Rightarrow> ('w, 'p) system \<Rightarrow> ngx_str list multiset" where
  "system_hands k y = (\<Sum>(pls, p)\<leftarrow>sy_workers y. process_hands k pls p)"

lemma sum_one_changed:
  fixes f g :: "nat \<Rightarrow> 'b multiset"
  assumes "i < n" and "\<And>j. j < n \<Longrightarrow> j \<noteq> i \<Longrightarrow> g j = f j"
  shows "(\<Sum>j<n. g j) + f i = (\<Sum>j<n. f j) + g i"
proof -
  have "(\<Sum>j<n. h j) = h i + (\<Sum>j\<in>{..<n} - {i}. h j)" for h :: "nat \<Rightarrow> 'b multiset"
    using assms(1) by (intro sum.remove) auto
  moreover have "(\<Sum>j\<in>{..<n} - {i}. g j) = (\<Sum>j\<in>{..<n} - {i}. f j)" using assms(2) by (intro sum.cong) auto
  ultimately show ?thesis by (simp add: ac_simps)
qed

text \<open>What a server holds and whether it fits are its own, whatever the others do.\<close>

lemma hands_of_view: "wd_tasks wd = sl_tasks s \<Longrightarrow> worker_hands pl (srv_view s p) = worker_hands pl wd"
  by (cases pl) (simp add: task_hands_def)

lemma fits_of_view:
  "wd_tasks wd = sl_tasks s \<Longrightarrow> db_fmt (wd_db wd) = db_fmt (sv_db (sl_srv s)) \<Longrightarrow>
     worker_fits f pl (srv_view s p) = worker_fits f pl wd"
  by (cases pl) (simp add: tasks_use_def)

section \<open>The invariant\<close>

definition idle_place :: "place \<Rightarrow> bool" where
  "idle_place pl \<longleftrightarrow> fst pl = Idle \<and> (\<forall>job\<in>set (snd pl). job = None)"

text \<open>
  A server that ever does anything fits its zone; and a server whose buffer may be flushed, but
  without a flush context, never does anything.
\<close>

definition server_ok ::
  "(zone_id \<Rightarrow> ('p, 'l) zone) \<Rightarrow> ('w, 'p, 'l) deps \<Rightarrow> place list \<Rightarrow> ('w, 'p) process \<Rightarrow> nat \<Rightarrow> slot \<Rightarrow> bool" where
  "server_ok zs D pls p i s \<longleftrightarrow>
     (slot_ok zs D s \<and> worker_fits (db_fmt (sv_db (sl_srv s))) (pls ! i) (srv_view s p) \<or>
      dormant i s p \<and> idle_place (pls ! i)) \<and>
     (\<forall>k. sl_buf s = Some k \<and> sb_db (pr_bufs p ! k) = None \<and> can_flush (sb_buf (pr_bufs p ! k)) \<longrightarrow>
        idle_place (pls ! i))"

definition places_ok ::
  "(zone_id \<Rightarrow> ('p, 'l) zone) \<Rightarrow> ('w, 'p, 'l) deps \<Rightarrow> place list \<Rightarrow> ('w, 'p) process \<Rightarrow> bool" where
  "places_ok zs D pls p \<longleftrightarrow> process_ok zs D p \<and> linked p \<and> length pls = length (pr_srvs p) \<and>
     (\<forall>i<length (pr_srvs p). \<forall>s. pr_srvs p ! i = Some s \<longrightarrow> server_ok zs D pls p i s)"

definition system_ok ::
  "(zone_id \<Rightarrow> ('p, 'l) zone) \<Rightarrow> ('w, 'p, 'l) deps \<Rightarrow> ('w, 'p) system \<Rightarrow> bool" where
  "system_ok zs D y \<longleftrightarrow> (\<forall>k. zone_ready (zs k) (sy_zones y k)) \<and>
     (\<forall>w<length (sy_workers y). places_ok zs D (places y w) (in_worker y w))"

lemma places_okD:
  assumes "places_ok zs D pls p"
  shows "process_ok zs D p" "linked p" "length pls = length (pr_srvs p)"
    "i < length (pr_srvs p) \<Longrightarrow> pr_srvs p ! i = Some s \<Longrightarrow> server_ok zs D pls p i s"
  using assms by (simp_all add: places_ok_def)

text \<open>What happens to the zones and to SQLite between two actions does not matter.\<close>

lemma places_ok_outside:
  assumes ok: "places_ok zs D pls p" and zones: "\<And>k. zone_ready (zs k) (zones k)"
  shows "places_ok zs D pls (p\<lparr>pr_zones := zones, pr_sys := sys\<rparr>)"
proof -
  let ?q = "p\<lparr>pr_zones := zones, pr_sys := sys\<rparr>"
  have "process_ok zs D ?q" using places_okD(1) [OF ok] zones by (simp add: process_ok_def dormant_def)
  moreover have "linked ?q" using places_okD(2) [OF ok] by (subst linked_cong [where p = p]) simp_all
  moreover have "server_ok zs D pls ?q i s" if "server_ok zs D pls p i s" for i s
    using that fits_of_view [of "srv_view s p" s _ "pls ! i" ?q] by (simp add: server_ok_def dormant_def)
  ultimately show ?thesis using ok by (simp add: places_ok_def)
qed

section \<open>One action of a process\<close>

text \<open>A disabled server with nothing to do can only be woken by its flush event.\<close>

lemma idle_act:
  assumes "worker_act D pl wd evs pl' wd'" and "idle_place pl" and "sv_enabled (wd_srv wd) = 0" and "wd_tasks wd = []"
  shows "fst pl' = Expired"
  using assms(1)
proof cases
  case (Loop pc pc' js)
  then have "loop_act D Idle wd evs pc' wd'" using assms(2) by (simp add: idle_place_def)
  then show ?thesis using Loop(2) assms(3) by cases (auto dest: disabled_only_flushes)
next
  case (Thread j js job pc)
  then have "js ! j = None" using assms(2) by (simp add: idle_place_def)
  with Thread(4) assms(4) show ?thesis by (auto elim: thread_act.cases)
next
  case (Completed j js)
  then have "Some Job_done \<in> set js" by (metis nth_mem)
  then show ?thesis using assms(2) Completed(1) by (auto simp: idle_place_def)
qed

text \<open>An action of a process is one of a server that is awake.\<close>

lemma process_act_server:
  assumes act: "process_act D pls p k evs pls' p'" and ok: "places_ok zs D pls p"
  obtains i s pl wd where "i < length (pr_srvs p)" and "pr_srvs p ! i = Some s" and "k = sl_zone s"
    and "worker_act D (pls ! i) (srv_view s p) evs pl wd" and "pls' = pls[i := pl]" and "p' = put_back i s wd p"
    and "slot_ok zs D s" and "worker_fits (db_fmt (sv_db (sl_srv s))) (pls ! i) (srv_view s p)"
    and "\<And>k. sl_buf s = Some k \<Longrightarrow> sb_db (pr_bufs p ! k) = None \<Longrightarrow> \<not> can_flush (sb_buf (pr_bufs p ! k))"
proof -
  obtain i s pl wd where i: "i < length (pr_srvs p)" "pr_srvs p ! i = Some s" and k: "k = sl_zone s"
    and a: "worker_act D (pls ! i) (srv_view s p) evs pl wd" and r: "pls' = pls[i := pl]" "p' = put_back i s wd p"
    and expired: "fst (pls ! i) = Idle \<and> fst pl = Expired \<longrightarrow> (\<exists>k. sl_buf s = Some k \<and> sb_db (pr_bufs p ! k) = Some i)"
    using act
  proof cases
    case (Loop i s pl wd)
    then show thesis by (intro that) auto
  next
    case (Thread i s pc js j job wd)
    then show thesis by (intro that) (auto intro: worker_act.Thread)
  next
    case (Exit i s pc js pc' wd)
    then show thesis by (intro that) (auto simp: exiting_def intro: worker_act.Loop loop_act.Plain)
  qed
  note so = places_okD(4) [OF ok i]
  have woken: "\<exists>k. sl_buf s = Some k \<and> sb_db (pr_bufs p ! k) = Some i"
    if "idle_place (pls ! i)" "sv_enabled (sl_srv s) = 0" "sl_tasks s = []"
    using idle_act [OF a that(1)] that expired by (simp add: idle_place_def)
  have "\<not> (dormant i s p \<and> idle_place (pls ! i))"
  proof
    assume d: "dormant i s p \<and> idle_place (pls ! i)"
    then obtain k where k: "sl_buf s = Some k" "sb_db (pr_bufs p ! k) = Some i"
      using woken by (auto simp: dormant_def)
    have "k < length (pr_bufs p)" by (rule linkedD(1) [OF places_okD(2) [OF ok] i k(1)])
    then have "Some i \<in> set (map sb_db (pr_bufs p))" using k(2) by (metis length_map nth_map nth_mem)
    with d show False by (simp add: dormant_def)
  qed
  then have s: "slot_ok zs D s" "worker_fits (db_fmt (sv_db (sl_srv s))) (pls ! i) (srv_view s p)"
    using so by (auto simp: server_ok_def)
  have "\<not> can_flush (sb_buf (pr_bufs p ! k))" if "sl_buf s = Some k" "sb_db (pr_bufs p ! k) = None" for k
  proof
    assume f: "can_flush (sb_buf (pr_bufs p ! k))"
    then have "idle_place (pls ! i)" using so that by (auto simp: server_ok_def)
    moreover have "sv_enabled (sl_srv s) = 0 \<and> sl_tasks s = []"
      by (rule linkedD(2) [OF places_okD(2) [OF ok] i that f])
    ultimately show False using woken that by auto
  qed
  from that [OF i k a r s this] show thesis .
qed

lemma put_back_can_flush:
  assumes "moves (srv_view s p) wd" and "k < length (pr_bufs p)"
  shows "can_flush (sb_buf (pr_bufs (put_back i s wd p) ! k)) = can_flush (sb_buf (pr_bufs p ! k))"
proof (cases "sl_buf s = Some k \<and> sv_buf (wd_srv wd) \<noteq> None")
  case True
  then obtain b' where "sv_buf (wd_srv wd) = Some b'" by blast
  moreover have "buf_moves (sb_buf (pr_bufs p ! k)) b'" using assms(1) True calculation by (simp add: moves_def)
  ultimately show ?thesis using True assms(2) by (simp add: put_buf_def buf_moves_def)
next
  case False
  then show ?thesis using assms(2) by (auto simp: put_buf_def nth_list_update split: option.splits)
qed

text \<open>What an action of a process keeps and how it accounts for entries, in every zone.\<close>

definition process_balanced ::
  "zone_id \<Rightarrow> place list \<Rightarrow> ('w, 'p) process \<Rightarrow> event_of_entry list \<Rightarrow> place list \<Rightarrow> ('w, 'p) process \<Rightarrow> bool" where
  "process_balanced k pls p evs pls' p' \<longleftrightarrow>
     mset (received evs) + mset (entries (pr_zones p k)) + process_hands k pls p =
     mset (stored evs) + mset (lost evs) + mset (entries (pr_zones p' k)) + process_hands k pls' p'"

lemma server_changed:
  assumes ok: "places_ok zs D pls p" and i: "i < length (pr_srvs p)" "pr_srvs p ! i = Some s"
    and wd: "world_ok (zs (sl_zone s)) D wd" and fits: "worker_fits f pl wd" and m: "moves (srv_view s p) wd"
    and cf: "\<And>k. sl_buf s = Some k \<Longrightarrow> sb_db (pr_bufs p ! k) = None \<Longrightarrow> \<not> can_flush (sb_buf (pr_bufs p ! k))"
  shows "places_ok zs D (pls[i := pl]) (put_back i s wd p)"
proof -
  let ?q = "put_back i s wd p"
  note len = places_okD(3) [OF ok]
  have link: "linked ?q" by (rule put_back_linked [OF places_okD(2) [OF ok] i]) (simp add: m cf)
  have "server_ok zs D (pls[i := pl]) ?q j t" if j: "j < length (pr_srvs ?q)" "pr_srvs ?q ! j = Some t" for j t
  proof (cases "j = i")
    case True
    then have t: "sl_zone t = sl_zone s" "sl_buf t = sl_buf s" "sl_tasks t = wd_tasks wd" "sv_db (sl_srv t) = wd_db wd"
      using j i by (auto simp: put_back_slot)
    have f: "db_fmt (sv_db (sl_srv t)) = f" using fits t(4) by (cases pl) (simp add: tasks_use_def)
    have "slot_ok zs D t" using wd t by (simp add: slot_ok_def world_ok_def)
    moreover have "worker_fits f pl (srv_view t ?q)"
      using fits fits_of_view [of wd t f pl ?q] t(3,4) by simp
    moreover have "\<not> can_flush (sb_buf (pr_bufs ?q ! k))"
      if k: "sl_buf t = Some k" "sb_db (pr_bufs ?q ! k) = None" for k
    proof -
      have "k < length (pr_bufs p)" using linkedD(1) [OF places_okD(2) [OF ok] i] k(1) t(2) by simp
      with put_back_can_flush [OF m this] cf [of k] k t(2) show ?thesis by simp
    qed
    ultimately show ?thesis using True i len f by (auto simp: server_ok_def)
  next
    case False
    then have t: "pr_srvs p ! j = Some t" "j < length (pr_srvs p)" using j i by (simp_all add: put_back_slot)
    note so = places_okD(4) [OF ok t(2,1)]
    have "worker_fits f' (pls ! j) (srv_view t ?q) = worker_fits f' (pls ! j) (srv_view t p)" for f'
      using fits_of_view [of "srv_view t p" t] by simp
    moreover have "can_flush (sb_buf (pr_bufs ?q ! k)) = can_flush (sb_buf (pr_bufs p ! k)) \<and>
        sb_db (pr_bufs ?q ! k) = sb_db (pr_bufs p ! k)" if "sl_buf t = Some k" for k
      using put_back_can_flush [OF m] linkedD(1) [OF places_okD(2) [OF ok] t(2,1) that] by simp
    ultimately show ?thesis using so False by (simp add: server_ok_def dormant_def) metis
  qed
  with put_back_ok [of zs D p i s wd, OF places_okD(1) [OF ok] i(1) wd] link len show ?thesis
    by (simp add: places_ok_def)
qed

lemma server_hands:
  assumes i: "i < length (pr_srvs p)" "pr_srvs p ! i = Some s" and len: "length pls = length (pr_srvs p)"
  shows "process_hands k (pls[i := pl]) (put_back i s wd p) +
      (if sl_zone s = k then worker_hands (pls ! i) (srv_view s p) else {#}) =
    process_hands k pls p + (if sl_zone s = k then worker_hands pl wd else {#})"
proof -
  let ?q = "put_back i s wd p"
  have new: "slot_hands k (pls[i := pl]) ?q i = (if sl_zone s = k then worker_hands pl wd else {#})"
  proof -
    obtain t where q: "pr_srvs ?q ! i = Some t" using i by (simp add: put_back_slot)
    then have t: "pr_srvs ?q ! i = Some t" "sl_zone t = sl_zone s" "wd_tasks wd = sl_tasks t"
      using i by (auto simp: put_back_slot)
    with hands_of_view [OF t(3), of pl ?q] i len show ?thesis by (simp add: slot_hands_def)
  qed
  have old: "slot_hands k pls p i = (if sl_zone s = k then worker_hands (pls ! i) (srv_view s p) else {#})"
    using i by (simp add: slot_hands_def)
  have "slot_hands k (pls[i := pl]) ?q j = slot_hands k pls p j" if "j < length (pr_srvs p)" "j \<noteq> i" for j
  proof (cases "pr_srvs p ! j")
    case None
    with that i show ?thesis by (simp add: slot_hands_def put_back_slot)
  next
    case (Some t)
    with that i hands_of_view [of "srv_view t p" t "pls ! j" ?q] show ?thesis
      by (simp add: slot_hands_def put_back_slot)
  qed
  from sum_one_changed [OF i(1) this, of "\<lambda>j. j"] show ?thesis using new old by (simp add: process_hands_def)
qed

lemma process_act_ok:
  assumes act: "process_act D pls p k evs pls' p'" and ok: "places_ok zs D pls p"
  shows "places_ok zs D pls' p'" and "process_balanced k' pls p (if k' = k then evs else []) pls' p'"
proof -
  obtain i s pl wd where i: "i < length (pr_srvs p)" "pr_srvs p ! i = Some s" and k: "k = sl_zone s"
    and a: "worker_act D (pls ! i) (srv_view s p) evs pl wd" and r: "pls' = pls[i := pl]" "p' = put_back i s wd p"
    and s: "slot_ok zs D s" and fits: "worker_fits (db_fmt (sv_db (sl_srv s))) (pls ! i) (srv_view s p)"
    and cf: "\<And>k. sl_buf s = Some k \<Longrightarrow> sb_db (pr_bufs p ! k) = None \<Longrightarrow> \<not> can_flush (sb_buf (pr_bufs p ! k))"
    using process_act_server [OF act ok] by metis
  note w = view_ok [OF places_okD(1) [OF ok] s]
  have wd: "world_ok (zs (sl_zone s)) D wd" "worker_fits (db_fmt (sv_db (sl_srv s))) pl wd"
    using pooled.action_ok [OF a w fits] by simp_all
  show "places_ok zs D pls' p'" unfolding r by (rule server_changed [OF ok i wd worker_act_moves [OF a] cf])
  have b: "mset (received evs) + mset (entries (pr_zones p (sl_zone s))) + worker_hands (pls ! i) (srv_view s p) =
      mset (stored evs) + mset (lost evs) + mset (entries (wd_sh wd)) + worker_hands pl wd"
    using pooled.action_balance [OF a w fits] by simp
  note h = server_hands [OF i places_okD(3) [OF ok], of k' pl wd]
  show "process_balanced k' pls p (if k' = k then evs else []) pls' p'"
  proof (cases "k' = sl_zone s")
    case True
    have "process_hands k' pls' p' + worker_hands (pls ! i) (srv_view s p) = process_hands k' pls p + worker_hands pl wd"
      using h True r by simp
    from balance_part [where p = "{#}" and t = "{#}" and t' = "{#}", OF _ this] b
    show ?thesis using True k r by (simp add: process_balanced_def)
  next
    case False
    with h k r show ?thesis by (simp add: process_balanced_def)
  qed
qed

section \<open>Whole handlers\<close>

text \<open>What a server has become after an action left \<open>wd\<close>.\<close>

definition after :: "slot \<Rightarrow> ('w, 'p) world \<Rightarrow> slot" where
  "after s wd = s\<lparr>sl_srv := (wd_srv wd)\<lparr>sv_buf := sv_buf (sl_srv s)\<rparr>, sl_pools := wd_pools wd,
     sl_blocked := wd_blocked wd, sl_tasks := wd_tasks wd\<rparr>"

lemma after_slot: "i < length (pr_srvs p) \<Longrightarrow> pr_srvs (put_back i s wd p) ! i = Some (after s wd)"
  by (simp add: put_back_slot after_def)

lemma after_simps [simp]: "sl_buf (after s wd) = sl_buf s" "sl_zone (after s wd) = sl_zone s"
  by (simp_all add: after_def)

text \<open>The server sees what it left behind, and only the last of its actions counts.\<close>

lemma view_after:
  assumes "moves (srv_view s p) wd" and "wd_tp wd = pr_tp p" and "\<And>k. sl_buf s = Some k \<Longrightarrow> k < length (pr_bufs p)"
  shows "srv_view (after s wd) (put_back i s wd p) = wd"
proof -
  have "map_option (\<lambda>k. sb_buf (pr_bufs (put_back i s wd p) ! k)) (sl_buf s) = sv_buf (wd_srv wd)"
  proof (cases "sl_buf s")
    case None
    then show ?thesis using moves_None [OF assms(1)] by simp
  next
    case (Some k)
    then obtain b where "sv_buf (wd_srv wd) = Some b" using moves_None [OF assms(1)] by auto
    with Some assms(3) show ?thesis by (simp add: put_buf_def)
  qed
  with assms(2) show ?thesis by (simp add: srv_view_def after_def)
qed

lemma put_buf_twice: "(b' = None \<longrightarrow> b = None) \<Longrightarrow> put_buf k b' (put_buf k b bs) = put_buf k b' bs"
proof (cases k)
  case (Some j)
  assume b: "b' = None \<longrightarrow> b = None"
  have "bs[j := x, j := (bs[j := x] ! j)\<lparr>sb_buf := c\<rparr>] = bs[j := (bs ! j)\<lparr>sb_buf := c\<rparr>]"
    if "x = (bs ! j)\<lparr>sb_buf := y\<rparr>" for x y c
    using that by (cases "j < length bs") (simp_all add: list_update_beyond)
  with b Some show ?thesis by (simp add: put_buf_def split: option.split)
qed (simp add: put_buf_def)

lemma put_back_twice:
  assumes "sv_buf (wd_srv wd') = None \<longrightarrow> sv_buf (wd_srv wd) = None"
  shows "put_back i (after s wd) wd' (put_back i s wd p) = put_back i s wd' p"
  using put_buf_twice [OF assms, of "sl_buf s" "pr_bufs p"] by (simp add: put_back_def after_def)

abbreviation process_acts ::
  "('w, 'p, 'l) deps \<Rightarrow> zone_id \<Rightarrow> place list \<Rightarrow> ('w, 'p) process \<Rightarrow> event_of_entry list \<Rightarrow>
   place list \<Rightarrow> ('w, 'p) process \<Rightarrow> bool" where
  "process_acts D k \<equiv> acts (\<lambda>pls p evs pls' p'. process_act D pls p k evs pls' p')"

text \<open>
  A sequence of actions of one server is one of its process, if each action is: when the places of
  the other servers are among \<open>S\<close>, and, for a flush event, when the flush context points to it.
\<close>

lemma lift_acts:
  assumes "acts A pl wd evs pl' wd'" and "wd = srv_view s p" and "pls ! i = pl"
    and "i < length (pr_srvs p)" and "pr_srvs p ! i = Some s" and "length pls = length (pr_srvs p)"
    and "\<forall>j<length pls. j \<noteq> i \<longrightarrow> fst (pls ! j) \<in> S" and "\<And>k. sl_buf s = Some k \<Longrightarrow> k < length (pr_bufs p)"
    and "flush \<longrightarrow> (\<exists>k. sl_buf s = Some k \<and> sb_db (pr_bufs p ! k) = Some i)"
    and worker: "\<And>pl wd evs pl' wd'. A pl wd evs pl' wd' \<Longrightarrow> worker_act D pl wd evs pl' wd'"
    and step: "\<And>s p pls evs pl' wd'. A (pls ! i) (srv_view s p) evs pl' wd' \<Longrightarrow> i < length (pr_srvs p) \<Longrightarrow>
      pr_srvs p ! i = Some s \<Longrightarrow> \<forall>j<length pls. j \<noteq> i \<longrightarrow> fst (pls ! j) \<in> S \<Longrightarrow>
      flush \<longrightarrow> (\<exists>k. sl_buf s = Some k \<and> sb_db (pr_bufs p ! k) = Some i) \<Longrightarrow>
      process_act D pls p (sl_zone s) evs (pls[i := pl']) (put_back i s wd' p)"
  shows "process_acts D (sl_zone s) pls p evs (pls[i := pl']) (put_back i s wd' p)"
  using assms(1-9)
proof (induction arbitrary: s p pls rule: acts.induct)
  case (Stop pl wd)
  have "pls[i := pl] = pls" using Stop(2) by (metis list_update_id)
  with Stop(1) put_view [OF Stop(4)] show ?case by (simp add: acts.Stop)
next
  case (Act pl wd evs1 pl1 wd1 evs2 pl2 wd2)
  let ?p = "put_back i s wd1 p" and ?s = "after s wd1" and ?pls = "pls[i := pl1]"
  note a = worker [OF Act.hyps(1)]
  have m: "moves (srv_view s p) wd1" using worker_act_moves [OF a] Act.prems(1) by simp
  have "process_act D pls p (sl_zone s) evs1 ?pls ?p"
    using Act.hyps(1) Act.prems by (intro step) simp_all
  moreover have "process_acts D (sl_zone ?s) ?pls ?p evs2 (?pls[i := pl2]) (put_back i ?s wd2 ?p)"
  proof (rule Act.IH)
    show "wd1 = srv_view ?s ?p"
      using view_after [OF m] worker_act_tp [OF a] Act.prems(1,7) by simp
    show "pr_srvs ?p ! i = Some ?s" using Act.prems(3) by (rule after_slot)
    show "flush \<longrightarrow> (\<exists>k. sl_buf ?s = Some k \<and> sb_db (pr_bufs ?p ! k) = Some i)"
      using Act.prems(7,8) by auto
  qed (use Act.prems in auto)
  moreover have "put_back i ?s wd2 ?p = put_back i s wd2 p"
  proof -
    have "acts (worker_act D) pl1 wd1 evs2 pl2 wd2" using Act.hyps(2) by (rule acts_mono) (rule worker)
    then have "moves wd1 wd2" by (induction rule: acts.induct) (auto intro: moves_trans worker_act_moves)
    from moves_None [OF this] show ?thesis by (intro put_back_twice) simp
  qed
  ultimately show ?case
    using acts.Act [of "\<lambda>pls p evs pls' p'. process_act D pls p (sl_zone s) evs pls' p'"] by simp
qed

lemma acts_in_process:
  assumes "acts (guarded flush D) pl (srv_view s p) evs pl' wd'" and "pls ! i = pl"
    and "i < length (pr_srvs p)" and "pr_srvs p ! i = Some s" and "length pls = length (pr_srvs p)"
    and "\<forall>j<length pls. j \<noteq> i \<longrightarrow> fst (pls ! j) = Idle" and "\<And>k. sl_buf s = Some k \<Longrightarrow> k < length (pr_bufs p)"
    and "flush \<longrightarrow> (\<exists>k. sl_buf s = Some k \<and> sb_db (pr_bufs p ! k) = Some i)"
  shows "process_acts D (sl_zone s) pls p evs (pls[i := pl']) (put_back i s wd' p)"
proof (rule lift_acts [where S = "{Idle}" and flush = flush, OF assms(1) refl assms(2-5)])
  show "process_act D pls p (sl_zone s) evs (pls[i := pl']) (put_back i s wd' p)"
    if "guarded flush D (pls ! i) (srv_view s p) evs pl' wd'" "i < length (pr_srvs p)" "pr_srvs p ! i = Some s"
      "\<forall>j<length pls. j \<noteq> i \<longrightarrow> fst (pls ! j) \<in> {Idle}"
      "flush \<longrightarrow> (\<exists>k. sl_buf s = Some k \<and> sb_db (pr_bufs p ! k) = Some i)" for s p pls evs pl' wd'
    using that by (intro process_act.Loop) (auto simp: guarded_def)
qed (use assms(6-8) in \<open>auto simp: guarded_def\<close>)

abbreviation worker_acts ::
  "('w, 'p, 'l) deps \<Rightarrow> place list \<Rightarrow> ('w, 'p) process \<Rightarrow> event_of_entry list \<Rightarrow>
   place list \<Rightarrow> ('w, 'p) process \<Rightarrow> bool" where
  "worker_acts D \<equiv> acts (\<lambda>pls p evs pls' p'. \<exists>k. process_act D pls p k evs pls' p')"

lemma process_worker_acts: "process_acts D k pls p evs pls' p' \<Longrightarrow> worker_acts D pls p evs pls' p'"
  by (erule acts_mono) (rule exI)

text \<open>The exit of one server, when the event loop does nothing else.\<close>

lemma slot_exit_acts:
  assumes i: "i < length (pr_srvs p)" "pr_srvs p ! i = Some s" and en: "sv_enabled (sl_srv s) \<noteq> 0"
    and len: "length pls = length (pr_srvs p)" and idle: "fst (pls ! i) = Idle"
    and others: "\<forall>j<length pls. fst (pls ! j) \<in> {Idle, Exited}"
    and bufs: "\<And>k. sl_buf s = Some k \<Longrightarrow> k < length (pr_bufs p)"
  shows "\<exists>evs. worker_acts D pls p evs (pls[i := (Exited, snd (pls ! i))]) (put_back i s (exit_srv D (srv_view s p)) p) \<and>
    received evs = []"
proof -
  let ?js = "snd (pls ! i)"
  let ?A = "\<lambda>pl wd evs pl' wd'. snd pl' = snd pl \<and> act D (fst pl) wd evs (fst pl') wd' \<and> exiting (fst pl')"
  have en': "sv_enabled (wd_srv (srv_view s p)) \<noteq> 0" using en by simp
  obtain evs where evs: "acts (\<lambda>pc wd evs pc' wd'. act D pc wd evs pc' wd' \<and> exiting pc') Idle (srv_view s p) evs Exited
      (exit_srv D (srv_view s p))" "received evs = []"
    using exit_srv_acts [OF en', of D] by blast
  have "acts ?A (Idle, ?js) (srv_view s p) evs (Exited, ?js) (exit_srv D (srv_view s p))"
    using evs(1)
  proof (induction rule: acts.induct)
    case (Stop pc wd)
    show ?case by (rule acts.Stop)
  next
    case (Act pc wd evs1 pc1 wd1 evs2 pc2 wd2)
    then show ?case by (intro acts.Act [of ?A, OF _ Act.IH]) simp
  qed
  then have "process_acts D (sl_zone s) pls p evs (pls[i := (Exited, ?js)]) (put_back i s (exit_srv D (srv_view s p)) p)"
  proof (rule lift_acts [where S = "{Idle, Exited}" and flush = False])
    show "process_act D pls p (sl_zone s) evs (pls[i := pl']) (put_back i s wd' p)"
      if "?A (pls ! i) (srv_view s p) evs pl' wd'" "i < length (pr_srvs p)" "pr_srvs p ! i = Some s"
        "\<forall>j<length pls. j \<noteq> i \<longrightarrow> fst (pls ! j) \<in> {Idle, Exited}" for s p pls evs pl' wd'
      using that process_act.Exit [of i p s pls "fst (pls ! i)" "snd (pls ! i)" D evs "fst pl'" wd']
      by (metis prod.collapse)
    show "worker_act D pl wd evs pl' wd'" if "?A pl wd evs pl' wd'" for pl wd evs pl' wd'
    proof -
      have "worker_act D (fst pl, snd pl) wd evs (fst pl', snd pl) wd'"
        using that by (intro worker_act.Loop loop_act.Plain) (auto simp: exiting_def)
      then show ?thesis using that by (metis prod.collapse)
    qed
  qed (use i len idle others bufs in \<open>auto simp: prod_eq_iff\<close>)
  with evs(2) show ?thesis using process_worker_acts by blast
qed

lemma exit_acts:
  assumes link: "linked p" and len: "length pls = length (pr_srvs p)"
    and idle: "\<And>i. i < length (pr_srvs p) \<Longrightarrow> fst (pls ! i) = Idle"
  shows "n \<le> length (pr_srvs p) \<Longrightarrow> \<exists>evs pls'. worker_acts D pls p evs pls' (exit_slots D n p) \<and> received evs = [] \<and>
    length pls' = length pls \<and> (\<forall>j<length pls. fst (pls' ! j) \<in> {Idle, Exited}) \<and> (\<forall>j. n \<le> j \<longrightarrow> pls' ! j = pls ! j) \<and>
    length (pr_srvs (exit_slots D n p)) = length (pr_srvs p) \<and>
    length (pr_bufs (exit_slots D n p)) = length (pr_bufs p) \<and>
    (\<forall>j. n \<le> j \<longrightarrow> pr_srvs (exit_slots D n p) ! j = pr_srvs p ! j)"
proof (induction n)
  case 0
  have "worker_acts D pls p [] pls p" by (rule acts.Stop)
  then show ?case using len idle by (intro exI [of _ "[]"] exI [of _ pls]) simp
next
  case (Suc n)
  define q where "q = exit_slots D n p"
  obtain evs pls1 where ih: "worker_acts D pls p evs pls1 q" "received evs = []" "length pls1 = length pls"
    "\<forall>j<length pls. fst (pls1 ! j) \<in> {Idle, Exited}" "\<forall>j. n \<le> j \<longrightarrow> pls1 ! j = pls ! j"
    "length (pr_srvs q) = length (pr_srvs p)" "length (pr_bufs q) = length (pr_bufs p)"
    "\<forall>j. n \<le> j \<longrightarrow> pr_srvs q ! j = pr_srvs p ! j"
    using Suc by (auto simp: q_def)
  show ?case
  proof (cases "pr_srvs q ! n = None \<or> (\<exists>s. pr_srvs q ! n = Some s \<and> sv_enabled (sl_srv s) = 0)")
    case True
    then have "exit_slots D (Suc n) p = q" using put_view [of q n] by (auto simp: q_def Let_def exit_srv_def)
    with ih show ?thesis by (intro exI [of _ evs] exI [of _ pls1]) simp
  next
    case False
    then obtain s where s: "pr_srvs q ! n = Some s" "sv_enabled (sl_srv s) \<noteq> 0" by auto
    let ?q = "put_back n s (exit_srv D (srv_view s q)) q" and ?pls = "pls1[n := (Exited, snd (pls1 ! n))]"
    have r: "exit_slots D (Suc n) p = ?q" using s(1) by (simp add: q_def Let_def)
    have n: "n < length (pr_srvs q)" "pr_srvs p ! n = Some s" using Suc.prems ih(6,8) s(1) by simp_all
    have "k < length (pr_bufs q)" if "sl_buf s = Some k" for k
      using linkedD(1) [OF link _ n(2) that] n(1) ih(6,7) by simp
    from slot_exit_acts [OF n(1) s _ _ _ this, of pls1 D] ih(3-6) n(1) len idle
    obtain evs2 where "worker_acts D pls1 q evs2 ?pls ?q" "received evs2 = []" by auto
    then have "worker_acts D pls p (evs @ evs2) ?pls ?q" "received (evs @ evs2) = []"
      using acts_append [OF ih(1)] ih(2) by auto
    moreover have "\<forall>j<length pls. fst (?pls ! j) \<in> {Idle, Exited}" 
    proof (intro allI impI)
      fix j assume "j < length pls"
      with ih(3,4) show "fst (?pls ! j) \<in> {Idle, Exited}" by (cases "j = n") simp_all
    qed
    moreover have "\<forall>j. Suc n \<le> j \<longrightarrow> pr_srvs ?q ! j = pr_srvs p ! j" using ih(8) n(1) by (simp add: put_back_slot)
    ultimately show ?thesis using ih(3,5-7) unfolding r
      by (intro exI [of _ "evs @ evs2"] exI [of _ ?pls]) simp
  qed
qed

text \<open>Every event loop place idle, and a thread free for every server.\<close>

definition free_place :: "place \<Rightarrow> bool" where
  "free_place pl \<longleftrightarrow> fst pl = Idle \<and> None \<in> set (snd pl)"

definition process_runnable :: "('w, 'p) process \<Rightarrow> bool" where
  "process_runnable p \<longleftrightarrow>
     (\<forall>i<length (pr_srvs p). \<forall>s. pr_srvs p ! i = Some s \<longrightarrow> tasks_runnable (srv_view s p))"

lemma acts_in_free_process:
  assumes "acts (guarded flush D) (Idle, js) (srv_view s p) evs (Idle, js) wd'" and "pls ! i = (Idle, js)"
    and "i < length (pr_srvs p)" and "pr_srvs p ! i = Some s" and "length pls = length (pr_srvs p)"
    and "\<forall>pl\<in>set pls. free_place pl" and "linked p"
    and "flush \<longrightarrow> (\<exists>k. sl_buf s = Some k \<and> sb_db (pr_bufs p ! k) = Some i)"
  shows "process_acts D (sl_zone s) pls p evs pls (put_back i s wd' p)"
proof -
  have "process_acts D (sl_zone s) pls p evs (pls[i := (Idle, js)]) (put_back i s wd' p)"
    using assms(6) linkedD(1) [OF assms(7,3,4)]
    by (intro acts_in_process [OF assms(1-5) _ _ assms(8)]) (auto simp: free_place_def)
  moreover have "pls[i := (Idle, js)] = pls" using assms(2) by (metis list_update_id)
  ultimately show ?thesis by simp
qed

text \<open>
  C12. What a worker process does for a request, a flush event or a task is a sequence of its
  actions, on the zone of one server, when its event loop is idle and each server has a free
  thread; it ends with the same places. And \<open>exit_worker\<close> is a sequence of its actions, in which no
  entry is received. So theory Process describes runs of the system in which nothing comes between
  the actions of a handler.
\<close>

theorem events_are_actions:
  assumes "process_ok zs D p" and "linked p" and "process_runnable p"
    and "length pls = length (pr_srvs p)" and "\<forall>pl\<in>set pls. free_place pl"
  shows "(\<forall>p'. event_step D p p' \<longrightarrow> (\<exists>k evs. process_acts D k pls p evs pls p')) \<and>
    (\<exists>evs pls'. worker_acts D pls p evs pls' (exit_worker D p) \<and> received evs = [])"
proof -
  have place: "\<exists>js j. pls ! i = (Idle, js) \<and> j < length js \<and> js ! j = None" if "i < length (pr_srvs p)" for i
  proof -
    have "free_place (pls ! i)" using assms(4,5) that by simp
    then show ?thesis by (cases "pls ! i") (auto simp: free_place_def in_set_conv_nth)
  qed
  note lift = acts_in_free_process [OF _ _ _ _ assms(4,5,2)]
  have "\<exists>k evs. process_acts D k pls p evs pls p'" if "event_step D p p'" for p'
    using that
  proof cases
    case (Request i s r rc wd)
    show ?thesis
    proof (cases "sv_enabled (sl_srv s) = 0")
      case True
      then have "wd = srv_view s p" using Request(4) handler_disabled [of "srv_view s p" D r] by simp
      then have "p' = p" using Request(1,3) put_view by simp
      then have "process_acts D (sl_zone s) pls p [] pls p'" by (simp add: acts.Stop)
      then show ?thesis by blast
    next
      case False
      obtain js where js: "pls ! i = (Idle, js)" using place [OF Request(2)] by blast
      have "slot_ok zs D s" using awake [OF assms(1) Request(2,3)] False by simp
      from guarded_handler [OF view_ok [OF assms(1) this] Request(4)]
      obtain evs where "acts (guarded False D) (Idle, js) (srv_view s p) evs (Idle, js) wd" by blast
      from lift [OF this js Request(2,3)] Request(1) show ?thesis by blast
    qed
  next
    case (Timer k sb ev i s)
    let ?b = "sb_buf sb"
    obtain js where js: "pls ! i = (Idle, js)" using place [OF Timer(7)] by blast
    have k: "sl_buf s = Some k" using linkedD(4) [OF assms(2) Timer(2), of i] Timer(3,6,8) by simp
    then have "sv_buf (wd_srv (srv_view s p)) = Some ?b" using Timer(3) by simp
    from guarded_flush [OF this Timer(4,5), of D js]
    obtain evs where "acts (guarded True D) (Idle, js) (srv_view s p) evs (Idle, js)
        (buf_flush_handler D (fired ?b) (set_buf (fired ?b) (srv_view s p)))" by blast
    from lift [OF this js Timer(7,8)] k Timer(1,3,6) show ?thesis by blast
  next
    case (Task i s)
    obtain js j where js: "pls ! i = (Idle, js)" "j < length js" "js ! j = None" using place [OF Task(2)] by blast
    have "tasks_runnable (srv_view s p)" using assms(3) Task(2,3) by (simp add: process_runnable_def)
    with Task(4) guarded_task [OF _ this js(2,3), of D]
    obtain evs where "acts (guarded False D) (Idle, js) (srv_view s p) evs (Idle, js) (run_task D (srv_view s p))"
      by auto
    from lift [OF this js(1) Task(2,3)] Task(1) show ?thesis by blast
  qed
  moreover have "fst (pls ! i) = Idle" if "i < length (pr_srvs p)" for i
    using place [OF that] by auto
  from exit_acts [OF assms(2,4) this order_refl, of D]
  have "\<exists>evs pls'. worker_acts D pls p evs pls' (exit_worker D p) \<and> received evs = []"
    unfolding exit_worker_def by blast
  ultimately show ?thesis by blast
qed

text \<open>The flush event of the two servers that share a buffer (\<open>sharing\<close> in theory Process).\<close>

lemma sharing_linked: "linked sharing"
  by (auto simp: linked_def sharing_def example_slot_def less_Suc_eq)

definition flushed_sharing :: "(nat \<times> int, slab_state) process" where
  "flushed_sharing =
     (let s = example_slot 0 (mem_db\<lparr>db_conn := None\<rparr>); b = fired (example_flush_buf True)
      in put_back 1 s (buf_flush_handler (example_deps null_api) b (set_buf b (srv_view s sharing))) sharing)"

lemma flushed_sharing_step: "event_step (example_deps null_api) sharing flushed_sharing"
  using event_step.Timer [of 0 sharing "\<lparr>sb_buf = example_flush_buf True, sb_db = Some 1\<rparr>"
      "\<lparr>timer_set = True, timer_delay = 1000\<rparr>" 1 "example_slot 0 (mem_db\<lparr>db_conn := None\<rparr>)" "example_deps null_api"]
  by (simp add: flushed_sharing_def Let_def) (simp add: sharing_def example_flush_buf_def)

theorem events_are_actions_witness:
  "(\<exists>k evs. process_acts (example_deps null_api) k (start_places 1 sharing) sharing evs
     (start_places 1 sharing) flushed_sharing) \<and>
   (\<exists>evs pls. worker_acts (example_deps null_api) (start_places 1 sharing) sharing evs pls
     (exit_worker (example_deps null_api) sharing) \<and> received evs = [])"
proof -
  have "process_runnable sharing"
    by (auto simp: process_runnable_def tasks_runnable_def sharing_def example_slot_def less_Suc_eq)
  from events_are_actions [OF sharing_ok [of null_api] sharing_linked this, of "start_places 1 sharing"]
  show ?thesis using flushed_sharing_step by (simp add: start_places_def free_place_def)
qed

section \<open>Every run of the system\<close>

lemma process_hands_view: "process_hands k pls (p\<lparr>pr_zones := zones, pr_sys := sys\<rparr>) = process_hands k pls p"
proof -
  have eq: "worker_hands pl (srv_view s (p\<lparr>pr_zones := zones, pr_sys := sys\<rparr>)) = worker_hands pl (srv_view s p)" for pl s
    by (rule hands_of_view) simp
  show ?thesis by (simp add: process_hands_def slot_hands_def eq cong: option.case_cong if_cong)
qed

text \<open>The places of a worker that starts.\<close>

lemma start_places_ok:
  assumes "process_ok zs D p" and "linked p" and "no_tasks p"
  shows "places_ok zs D (start_places n p) p" and "process_hands k (start_places n p) p = {#}"
proof -
  have idle: "start_places n p ! i = (Idle, replicate n None)" if "i < length (pr_srvs p)" for i
    using that by (simp add: start_places_def)
  have "server_ok zs D (start_places n p) p i s" if i: "i < length (pr_srvs p)" "pr_srvs p ! i = Some s" for i s
  proof -
    have "worker_fits (db_fmt (sv_db (sl_srv s))) (Idle, replicate n None) (srv_view s p)"
      using assms(3) i by (simp add: tasks_use_def no_tasks_def)
    moreover have "slot_ok zs D s \<or> dormant i s p" using assms(1) i by (simp add: process_ok_def)
    ultimately show ?thesis using idle [OF i(1)] by (auto simp: server_ok_def idle_place_def)
  qed
  with assms show "places_ok zs D (start_places n p) p" by (simp add: places_ok_def start_places_def)
  have none: "sum_list (replicate n ({#} :: ngx_str list multiset)) = {#}" by (induction n) simp_all
  have "slot_hands k (start_places n p) p i = {#}" if "i < length (pr_srvs p)" for i
    using assms(3) that idle [OF that]
    by (simp add: slot_hands_def no_tasks_def task_hands_def none split: option.split)
  then show "process_hands k (start_places n p) p = {#}" by (simp add: process_hands_def)
qed

text \<open>New processes that start well on ready zones.\<close>

definition starts_well ::
  "(zone_id \<Rightarrow> ('p, 'l) zone) \<Rightarrow> ('w, 'p, 'l) deps \<Rightarrow> (('w, 'p) process \<Rightarrow> bool) \<Rightarrow> bool" where
  "starts_well zs D new \<longleftrightarrow>
     (\<forall>p0 rc p. new p0 \<and> (\<forall>k. zone_ready (zs k) (pr_zones p0 k)) \<and> init_worker D p0 = (rc, p) \<longrightarrow>
        process_ok zs D p \<and> linked p \<and> no_tasks p)"

lemma add_worker_simps [simp]:
  "sy_zones (add_worker pls p y) = sy_zones y" "sy_sys (add_worker pls p y) = pr_sys p"
  "length (sy_workers (add_worker pls p y)) = Suc (length (sy_workers y))"
  "places (add_worker pls p y) (length (sy_workers y)) = pls"
  "in_worker (add_worker pls p y) (length (sy_workers y)) = p\<lparr>pr_zones := sy_zones y, pr_sys := pr_sys p\<rparr>"
  by (simp_all add: add_worker_def places_def in_worker_def)

lemma add_worker_old:
  assumes "w < length (sy_workers y)"
  shows "places (add_worker pls p y) w = places y w"
    and "in_worker (add_worker pls p y) w = (in_worker y w)\<lparr>pr_zones := sy_zones y, pr_sys := pr_sys p\<rparr>"
  using assms by (simp_all add: add_worker_def places_def in_worker_def nth_append)

lemma worker_starts_ok:
  assumes ok: "system_ok zs D y" and start: "process_ok zs D p" "linked p" "no_tasks p"
  shows "system_ok zs D (add_worker (start_places n p) p y)" (is "system_ok _ _ ?y")
    and "system_hands k (add_worker (start_places n p) p y) = system_hands k y"
proof -
  have ready: "zone_ready (zs j) (sy_zones y j)" for j using ok by (simp add: system_ok_def)
  have "places_ok zs D (places ?y w) (in_worker ?y w)" if "w < Suc (length (sy_workers y))" for w
  proof (cases "w = length (sy_workers y)")
    case True
    with places_ok_outside [OF start_places_ok(1) [OF start] ready, of n "pr_sys p"] show ?thesis by simp
  next
    case False
    with that have w: "w < length (sy_workers y)" by simp
    then have "places_ok zs D (places y w) (in_worker y w)" using ok by (simp add: system_ok_def)
    from places_ok_outside [OF this ready] show ?thesis unfolding add_worker_old [OF w] .
  qed
  then show "system_ok zs D ?y" using ready by (simp add: system_ok_def)
  show "system_hands k ?y = system_hands k y"
    using start_places_ok(2) [OF start] by (simp add: system_hands_def add_worker_def)
qed

lemma worker_acts_ok:
  assumes ok: "system_ok zs D y1" and w: "w < length (sy_workers y1)"
    and act: "process_act D (places y1 w) (in_worker y1 w) z evs pls p"
  shows "system_ok zs D (from_worker w pls p y1)" (is "system_ok _ _ ?y2")
    and "mset (received (if k = z then evs else [])) + mset (entries (sy_zones y1 k)) + system_hands k y1 =
      mset (stored (if k = z then evs else [])) + mset (lost (if k = z then evs else [])) +
      mset (entries (sy_zones (from_worker w pls p y1) k)) + system_hands k (from_worker w pls p y1)"
proof -
  have "places_ok zs D (places y1 w) (in_worker y1 w)" using ok w by (simp add: system_ok_def)
  note a = process_act_ok [OF act this]
  have zone: "sy_zones ?y2 = pr_zones p" by (simp add: from_worker_def)
  have workers: "in_worker ?y2 v = (if v = w then p else (in_worker y1 v)\<lparr>pr_zones := pr_zones p, pr_sys := pr_sys p\<rparr>)"
    "places ?y2 v = (if v = w then pls else places y1 v)" if "v < length (sy_workers y1)" for v
    using that by (simp_all add: in_worker_def places_def from_worker_def)
  have ready: "zone_ready (zs j) (pr_zones p j)" for j
    using places_okD(1) [OF a(1)] by (simp add: process_ok_def)
  have "places_ok zs D (places ?y2 v) (in_worker ?y2 v)" if "v < length (sy_workers y1)" for v
  proof (cases "v = w")
    case True
    with a(1) workers [OF that] show ?thesis by simp
  next
    case False
    have "places_ok zs D (places y1 v) (in_worker y1 v)" using ok that by (simp add: system_ok_def)
    from places_ok_outside [OF this ready] workers [OF that] False show ?thesis by simp
  qed
  then show "system_ok zs D ?y2" using ready zone by (simp add: system_ok_def) (simp add: from_worker_def)
  have "process_hands k (places y1 w) (in_worker y1 w) = (\<lambda>(pls, p). process_hands k pls p) (sy_workers y1 ! w)"
    by (simp add: places_def in_worker_def process_hands_view split_def)
  then have hands: "system_hands k ?y2 + process_hands k (places y1 w) (in_worker y1 w) =
      system_hands k y1 + process_hands k pls p"
    using sum_list_update_mset [OF w, where f = "\<lambda>(pls, p). process_hands k pls p" and y = "(pls, p)"]
    by (simp add: system_hands_def from_worker_def)
  have part: "mset (received (if k = z then evs else [])) + mset (entries (sy_zones y1 k)) +
      process_hands k (places y1 w) (in_worker y1 w) =
    mset (stored (if k = z then evs else [])) + mset (lost (if k = z then evs else [])) +
      mset (entries (pr_zones p k)) + process_hands k pls p"
    using a(2) [of k] by (simp add: process_balanced_def in_worker_def)
  from balance_part [where p = "{#}" and t = "{#}" and t' = "{#}", OF _ hands] part
  show "mset (received (if k = z then evs else [])) + mset (entries (sy_zones y1 k)) + system_hands k y1 =
      mset (stored (if k = z then evs else [])) + mset (lost (if k = z then evs else [])) +
      mset (entries (sy_zones ?y2 k)) + system_hands k ?y2"
    using zone by simp
qed

lemma system_run_ok:
  assumes "system_run D new y evs y'" and "system_ok zs D y" and new: "starts_well zs D new"
  shows "system_ok zs D y' \<and>
    mset (received (events_at k evs)) + mset (entries (sy_zones y k)) + system_hands k y =
      mset (stored (events_at k evs)) + mset (lost (events_at k evs)) + mset (entries (sy_zones y' k)) +
      system_hands k y'"
  using assms(1,2)
proof (induction rule: system_run.induct)
  case (Start y)
  then show ?case by simp
next
  case (Worker y evs y1 p0 rc p n)
  have ok: "system_ok zs D y1" using Worker.IH Worker.prems by blast
  then have "process_ok zs D p \<and> linked p \<and> no_tasks p"
    using new Worker.hyps(2-5) unfolding starts_well_def system_ok_def by metis
  with worker_starts_ok [OF ok] Worker.IH Worker.prems show ?case by simp
next
  case (Step y evs y1 w z evs1 pls p)
  have ok: "system_ok zs D y1" using Step.IH Step.prems by blast
  note a = worker_acts_ok [OF ok Step.hyps(2,3)]
  have "mset (received (events_at k (evs @ map (Pair z) evs1))) + mset (entries (sy_zones y k)) + system_hands k y =
      mset (stored (events_at k (evs @ map (Pair z) evs1))) + mset (lost (events_at k (evs @ map (Pair z) evs1))) +
      mset (entries (sy_zones (from_worker w pls p y1) k)) + system_hands k (from_worker w pls p y1)"
    using balance_trans [OF conjunct2 [OF Step.IH [OF Step.prems]] a(2) add.commute] by (cases "k = z") simp_all
  with a(1) show ?case by blast
qed

text \<open>The start: no worker yet, and zones that are ready.\<close>

definition no_workers :: "(zone_id \<Rightarrow> 'p shctx) \<Rightarrow> 'w sys \<Rightarrow> ('w, 'p) system" where
  "no_workers zones s = \<lparr>sy_zones = zones, sy_sys = s, sy_workers = []\<rparr>"

lemma no_workers_ok:
  assumes "\<And>k. zone_ready (zs k) (zones k)"
  shows "system_ok zs D (no_workers zones s)" and "system_hands k (no_workers zones s) = {#}"
  using assms by (simp_all add: system_ok_def no_workers_def system_hands_def)

section \<open>Whose database a copy is\<close>

text \<open>
  At an earlier moment of the run, or now, \<open>d\<close> was the database of server number \<open>i\<close> of worker
  number \<open>w\<close>.
\<close>

definition was_db ::
  "('w, 'p, 'l) deps \<Rightarrow> (('w, 'p) process \<Rightarrow> bool) \<Rightarrow> ('w, 'p) system \<Rightarrow> ('w, 'p) system \<Rightarrow> nat \<Rightarrow> nat \<Rightarrow> db \<Rightarrow> bool" where
  "was_db D new y0 y w i d \<longleftrightarrow>
     (\<exists>evs1 y1 evs2 s. system_run D new y0 evs1 y1 \<and> system_run D new y1 evs2 y \<and> w < length (sy_workers y1) \<and>
        i < length (pr_srvs (in_worker y1 w)) \<and> pr_srvs (in_worker y1 w) ! i = Some s \<and> sv_db (sl_srv s) = d)"

definition slot_copies :: "('w, 'p) system \<Rightarrow> nat \<Rightarrow> nat \<Rightarrow> slot \<Rightarrow> db set" where
  "slot_copies y w i s = copies (places y w ! i) (srv_view s (in_worker y w))"

text \<open>Every copy that a task or thread holds satisfies \<open>P\<close>.\<close>

definition all_copies :: "(nat \<Rightarrow> nat \<Rightarrow> slot \<Rightarrow> db \<Rightarrow> bool) \<Rightarrow> ('w, 'p) system \<Rightarrow> bool" where
  "all_copies P y \<longleftrightarrow>
     (\<forall>w<length (sy_workers y). \<forall>i<length (pr_srvs (in_worker y w)). \<forall>s. pr_srvs (in_worker y w) ! i = Some s \<longrightarrow>
        (\<forall>d\<in>slot_copies y w i s. P w i s d))"

definition own_copies :: "('w, 'p) system \<Rightarrow> bool" where
  "own_copies y \<longleftrightarrow> all_copies (\<lambda>w i s d. d = sv_db (sl_srv s)) y"

lemma copies_view: "wd_tasks wd = sl_tasks s \<Longrightarrow> copies pl (srv_view s p) = copies pl wd"
  by (simp add: copies_def)

lemma system_run_trans:
  "system_run D new y1 evs2 y2 \<Longrightarrow> system_run D new y0 evs1 y1 \<Longrightarrow> system_run D new y0 (evs1 @ evs2) y2"
proof (induction rule: system_run.induct)
  case (Start y)
  then show ?case by simp
next
  case (Worker y evs y1 p0 rc p n)
  from system_run.Worker [OF Worker.IH [OF Worker.prems] Worker.hyps(2-5)] show ?case .
next
  case (Step y evs y1 w k evs1 pls p)
  from system_run.Step [OF Step.IH [OF Step.prems] Step.hyps(2,3)] show ?case by simp
qed

lemma was_db_later: "was_db D new y0 y w i d \<Longrightarrow> system_run D new y evs y' \<Longrightarrow> was_db D new y0 y' w i d"
  unfolding was_db_def using system_run_trans by blast

lemma was_db_now:
  assumes "system_run D new y0 evs y" and "w < length (sy_workers y)" and "i < length (pr_srvs (in_worker y w))"
    and "pr_srvs (in_worker y w) ! i = Some s"
  shows "was_db D new y0 y w i (sv_db (sl_srv s))"
  unfolding was_db_def using assms system_run.Start by blast

text \<open>A worker that starts has no copies; the others keep theirs.\<close>

lemma start_copies:
  assumes old: "all_copies (\<lambda>w i s. was_db D new y0 y w i) y" and p: "no_tasks p"
    and run: "system_run D new y evs (add_worker (start_places n p) p y)"
  shows "all_copies (\<lambda>w i s. was_db D new y0 (add_worker (start_places n p) p y) w i)
    (add_worker (start_places n p) p y)"
  unfolding all_copies_def
proof (intro allI impI ballI)
  let ?y = "add_worker (start_places n p) p y"
  fix w i s d
  assume w: "w < length (sy_workers ?y)" and i: "i < length (pr_srvs (in_worker ?y w))" "pr_srvs (in_worker ?y w) ! i = Some s"
    and d: "d \<in> slot_copies ?y w i s"
  show "was_db D new y0 ?y w i d"
  proof (cases "w = length (sy_workers y)")
    case True
    then have "i < length (pr_srvs p)" "pr_srvs p ! i = Some s" using i by simp_all
    with p have "start_places n p ! i = (Idle, replicate n None)" "sl_tasks s = []"
      by (simp_all add: start_places_def no_tasks_def)
    with d True show ?thesis by (auto simp: slot_copies_def copies_def)
  next
    case False
    with w have w: "w < length (sy_workers y)" by simp
    have "d \<in> slot_copies y w i s"
      using d copies_view [of "srv_view s (in_worker y w)" s "places y w ! i" "in_worker ?y w"]
      unfolding slot_copies_def add_worker_old(1) [OF w] by simp
    moreover have "i < length (pr_srvs (in_worker y w))" "pr_srvs (in_worker y w) ! i = Some s"
      using i by (simp_all add: add_worker_old(2) [OF w])
    ultimately have "was_db D new y0 y w i d" using old w unfolding all_copies_def by blast
    then show ?thesis using was_db_later run by blast
  qed
qed

text \<open>An action makes copies of the database of its server only.\<close>

lemma act_copies:
  assumes run: "system_run D new y0 evs y" and old: "all_copies (\<lambda>w i s. was_db D new y0 y w i) y"
    and w: "w < length (sy_workers y)" and act: "process_act D (places y w) (in_worker y w) k evs1 pls p"
    and ok: "places_ok zs D (places y w) (in_worker y w)"
  shows "all_copies (\<lambda>v j t. was_db D new y0 (from_worker w pls p y) v j) (from_worker w pls p y)"
  unfolding all_copies_def
proof (intro allI impI ballI)
  let ?y = "from_worker w pls p y"
  fix v j t d
  assume v: "v < length (sy_workers ?y)" and j: "j < length (pr_srvs (in_worker ?y v))" "pr_srvs (in_worker ?y v) ! j = Some t"
    and d: "d \<in> slot_copies ?y v j t"
  have later: "was_db D new y0 y v j d \<Longrightarrow> was_db D new y0 ?y v j d"
    using was_db_later system_run.Step [OF system_run.Start w act] by blast
  obtain i s pl wd where i: "i < length (pr_srvs (in_worker y w))" "pr_srvs (in_worker y w) ! i = Some s"
    and a: "worker_act D (places y w ! i) (srv_view s (in_worker y w)) evs1 pl wd"
    and r: "pls = (places y w)[i := pl]" "p = put_back i s wd (in_worker y w)"
    using process_act_server [OF act ok] by metis
  have len: "length (places y w) = length (pr_srvs (in_worker y w))" by (rule places_okD(3) [OF ok])
  show "was_db D new y0 ?y v j d"
  proof (cases "v = w \<and> j = i")
    case True
    then have t: "sl_tasks t = wd_tasks wd" using j i r w by (auto simp: in_worker_def from_worker_def put_back_slot)
    have "d \<in> copies pl wd"
      using d True r i len w copies_view [of wd t pl "in_worker ?y w"] t
      by (simp add: slot_copies_def places_def) (simp add: from_worker_def)
    then have "d = sv_db (sl_srv s) \<or> d \<in> slot_copies y w i s"
      using worker_act_copies [OF a] by (auto simp: slot_copies_def)
    with was_db_now [OF run w i] old w i have "was_db D new y0 y w i d" unfolding all_copies_def by blast
    with later True show ?thesis by blast
  next
    case False
    have same: "places ?y v ! j = places y v ! j" "pr_srvs (in_worker ?y v) = (if v = w then pr_srvs p else pr_srvs (in_worker y v))"
      using False r v by (cases "v = w"; auto simp: places_def from_worker_def in_worker_def)+
    then have t: "j < length (pr_srvs (in_worker y v))" "pr_srvs (in_worker y v) ! j = Some t"
      using j False r(2) i(1) by (auto simp: put_back_slot split: if_splits)
    have "d \<in> slot_copies y v j t"
      using d same(1) copies_view [of "srv_view t (in_worker y v)" t "places y v ! j" "in_worker ?y v"]
      by (simp add: slot_copies_def)
    moreover have "v < length (sy_workers y)" using v by (simp add: from_worker_def)
    ultimately show ?thesis using old t later unfolding all_copies_def by blast
  qed
qed

lemma run_copies:
  assumes "system_run D new y evs y'" and "system_ok zs D y" and "own_copies y" and new: "starts_well zs D new"
  shows "all_copies (\<lambda>w i s. was_db D new y y' w i) y'"
  using assms(1-3)
proof (induction rule: system_run.induct)
  case (Start y)
  show ?case
    unfolding all_copies_def
  proof (intro allI impI ballI)
    fix w i s d
    assume w: "w < length (sy_workers y)" and i: "i < length (pr_srvs (in_worker y w))" "pr_srvs (in_worker y w) ! i = Some s"
      and "d \<in> slot_copies y w i s"
    with Start(2) have "d = sv_db (sl_srv s)" unfolding own_copies_def all_copies_def by blast
    with was_db_now [OF system_run.Start w i] show "was_db D new y y w i d" by simp
  qed
next
  case (Worker y evs y1 p0 rc p n)
  have "system_ok zs D y1" using system_run_ok [OF Worker.hyps(1) Worker.prems(1) new] by blast
  then have "no_tasks p" using new Worker.hyps(2-5) unfolding starts_well_def system_ok_def by metis
  moreover have "system_run D new y1 [] (add_worker (start_places n p) p y1)"
    using system_run.Worker [OF system_run.Start [of D new y1]] Worker.hyps(2-5) by blast
  ultimately show ?case by (rule start_copies [OF Worker.IH [OF Worker.prems]])
next
  case (Step y evs y1 w k evs1 pls p)
  have "system_ok zs D y1" using system_run_ok [OF Step.hyps(1) Step.prems(1) new] by blast
  then have "places_ok zs D (places y1 w) (in_worker y1 w)" using Step.hyps(2) by (simp add: system_ok_def)
  from act_copies [OF Step.hyps(1) Step.IH [OF Step.prems] Step.hyps(2,3) this] show ?case .
qed

text \<open>What an action of the system reports as stored is in the database of its server.\<close>

lemma process_act_stores:
  assumes act: "process_act D pls p k evs pls' p'" and ok: "places_ok zs D pls p"
    and law: "\<And>i s. i < length (pr_srvs p) \<Longrightarrow> pr_srvs p ! i = Some s \<Longrightarrow>
      storage_law (dp_sqlite D) V conns (db_fmt (sv_db (sl_srv s)))" and "Stored es \<in> set evs" and "es \<noteq> []"
  shows "\<exists>i s d d'. i < length (pr_srvs p) \<and> pr_srvs p ! i = Some s \<and> sl_zone s = k \<and>
    (d = sv_db (sl_srv s) \<or> d \<in> copies (pls ! i) (srv_view s p)) \<and> db_fmt d = db_fmt (sv_db (sl_srv s)) \<and>
    stores (dp_sqlite D) V d es (pr_sys p) d' (pr_sys p')"
proof -
  obtain i s pl wd where i: "i < length (pr_srvs p)" "pr_srvs p ! i = Some s" and k: "k = sl_zone s"
    and a: "worker_act D (pls ! i) (srv_view s p) evs pl wd" and r: "p' = put_back i s wd p"
    and s: "slot_ok zs D s" and fits: "worker_fits (db_fmt (sv_db (sl_srv s))) (pls ! i) (srv_view s p)"
    using process_act_server [OF act ok] by metis
  have "stores_in (dp_sqlite D) V (insert (sv_db (sl_srv s)) (copies (pls ! i) (srv_view s p))) es (srv_view s p) wd"
    using worker_act_stores [OF a view_ok [OF places_okD(1) [OF ok] s] fits law [OF i] assms(4,5)] by simp
  then obtain d d' where d: "d = sv_db (sl_srv s) \<or> d \<in> copies (pls ! i) (srv_view s p)"
      "stores (dp_sqlite D) V d es (pr_sys p) d' (pr_sys p')"
    using r by (auto simp: stores_in_def)
  then have "db_fmt d = db_fmt (sv_db (sl_srv s))" using copies_fit [OF fits] by blast
  with i k d show ?thesis by blast
qed

section \<open>What is stored\<close>

text \<open>
  C2. What an action reports as stored is in the database: in a system of workers with many servers
  each that any interleaving has reached, if SQLite keeps its laws, entries that an event loop or a
  thread counts as stored were stored through a server of this worker that uses this zone: on its
  database, or on the copy of it that one of its tasks or threads holds, which was the database of
  this very server at an earlier moment of the run. A list was appended to the rows of its connection,
  or of the one that replaced it after a first attempt that had stored nothing, all entries, in their
  order, by one attempt in one transaction, none being open before and after it. A single entry in a
  worker without a buffer was added as one row (to the transaction that is open, if a failed COMMIT
  has left one).
\<close>

theorem stored_entries_committed:
  assumes "system_ok zs D y0" and "own_copies y0" and "starts_well zs D new" and "system_run D new y0 evs0 y"
    and "w < length (sy_workers y)"
    and "process_act D (places y w) (in_worker y w) k evs pls p" and "Stored es \<in> set evs" and "es \<noteq> []"
    and "\<And>i s. i < length (pr_srvs (in_worker y w)) \<Longrightarrow> pr_srvs (in_worker y w) ! i = Some s \<Longrightarrow>
      storage_law (dp_sqlite D) V conns (db_fmt (sv_db (sl_srv s)))"
  shows "\<exists>i s d d'. i < length (pr_srvs (in_worker y w)) \<and> pr_srvs (in_worker y w) ! i = Some s \<and> sl_zone s = k \<and>
    (d = sv_db (sl_srv s) \<or> d \<in> slot_copies y w i s \<and> was_db D new y0 y w i d) \<and>
    db_fmt d = db_fmt (sv_db (sl_srv s)) \<and> stores (dp_sqlite D) V d es (sy_sys y) d' (pr_sys p)"
proof -
  have ok: "places_ok zs D (places y w) (in_worker y w)"
    using system_run_ok [OF assms(4,1,3)] assms(5) by (simp add: system_ok_def)
  have sys: "pr_sys (in_worker y w) = sy_sys y" by (simp add: in_worker_def)
  have "\<exists>i s d d'. i < length (pr_srvs (in_worker y w)) \<and> pr_srvs (in_worker y w) ! i = Some s \<and> sl_zone s = k \<and>
    (d = sv_db (sl_srv s) \<or> d \<in> slot_copies y w i s) \<and> db_fmt d = db_fmt (sv_db (sl_srv s)) \<and>
    stores (dp_sqlite D) V d es (sy_sys y) d' (pr_sys p)"
    unfolding slot_copies_def
    by (rule process_act_stores [OF assms(6) ok _ assms(7,8), unfolded sys]) (rule assms(9))
  then obtain i s d d' where
    i: "i < length (pr_srvs (in_worker y w))" "pr_srvs (in_worker y w) ! i = Some s" "sl_zone s = k"
    and d: "d = sv_db (sl_srv s) \<or> d \<in> slot_copies y w i s"
    and st: "db_fmt d = db_fmt (sv_db (sl_srv s))" "stores (dp_sqlite D) V d es (sy_sys y) d' (pr_sys p)"
    by blast
  have "d \<in> slot_copies y w i s \<Longrightarrow> was_db D new y0 y w i d"
    using run_copies [OF assms(4,1,2,3)] assms(5) i unfolding all_copies_def by blast
  with i d st show ?thesis by blast
qed

text \<open>A worker with one server without a buffer, one thread, and a posted task with one entry.\<close>

definition task_process :: "(mem_sqlite, slab_state) process" where
  "task_process = \<lparr>pr_sys = mem_start, pr_mem = [], pr_tp = True, pr_zones = \<lambda>_. example_shctx 8, pr_bufs = [],
     pr_srvs = [Some \<lparr>sl_srv = example_srv None, sl_buf = None, sl_zone = No_zone 0 0, sl_pools = 0, sl_blocked = 0,
       sl_tasks = [example_task]\<rparr>]\<rparr>"

definition task_system :: "(mem_sqlite, slab_state) system" where
  "task_system = add_worker (start_places 1 task_process) task_process (no_workers (\<lambda>_. example_shctx 8) mem_start)"

lemma task_system_simps:
  "places task_system 0 = [(Idle, [None])]" "in_worker task_system 0 = task_process"
  "length (sy_workers task_system) = 1" "sy_zones task_system = (\<lambda>_. example_shctx 8)" "sy_sys task_system = mem_start"
  by (simp_all add: task_system_def add_worker_def no_workers_def places_def in_worker_def start_places_def)
    (simp_all add: task_process_def)

lemma task_view: "pr_srvs task_process ! 0 = Some s \<Longrightarrow> srv_view s task_process = example_task_world"
  by (auto simp: task_process_def srv_view_def example_task_world_def example_world_def example_srv_def)

lemma task_system_ok: "system_ok (\<lambda>_. example_zone 2 0) (example_deps mem_api) task_system"
proof -
  have "slot_ok (\<lambda>_. example_zone 2 0) (example_deps mem_api) s \<and> sv_db (sl_srv s) = mem_db"
    if "pr_srvs task_process ! 0 = Some s" for s
    using that by (auto simp: task_process_def slot_ok_def task_fits_def example_task_def example_srv_def)
  moreover have "worker_fits mem_fmt (Idle, [None]) example_task_world"
    by (simp add: tasks_use_def) (simp add: example_task_world_def example_task_def)
  moreover have "linked task_process" by (simp add: linked_def) (simp add: task_process_def)
  moreover have "length (pr_srvs task_process) = 1" "pr_bufs task_process = []" "\<And>k. pr_zones task_process k = example_shctx 8"
    "\<And>s. pr_srvs task_process ! 0 = Some s \<Longrightarrow> sl_buf s = None"
    by (auto simp: task_process_def)
  ultimately show ?thesis
    using task_view by (auto simp: system_ok_def task_system_simps places_ok_def process_ok_def server_ok_def)
qed

theorem stored_entries_committed_witness:
  "\<exists>d' s'. stores mem_api mem_view mem_db [example_entry] mem_start d' s'"
proof -
  let ?D = "example_deps mem_api"
  obtain s where s: "pr_srvs task_process ! 0 = Some s" "sv_db (sl_srv s) = mem_db" "length (pr_srvs task_process) = 1"
    by (simp add: task_process_def example_srv_def)
  have "fst (db_insert mem_api mem_db example_entry mem_start) = SQLITE_OK" by (rule mem_row_eval(1))
  then have "fst (db_insert (dp_sqlite ?D) mem_db example_entry (wd_sys example_task_world)) = SQLITE_OK"
    by (simp add: example_task_world_def)
  from thread_act.Insert_1 [OF _ _ _ _ this, of example_task "[]"]
  have t: "thread_act ?D ([None] ! 0) (srv_view s task_process) [Stored [example_entry]] (Some Job_done)
      (thread_insert_1 ?D mem_db example_entry (example_task_world\<lparr>wd_tasks := []\<rparr>))"
    using task_view [OF s(1)] by (simp add: example_task_world_def example_task_def)
  have a: "process_act ?D (places task_system 0) (in_worker task_system 0) (sl_zone s) [Stored [example_entry]]
      ([(Idle, [None])][0 := (Idle, [None][0 := Some Job_done])])
      (put_back 0 s (thread_insert_1 ?D mem_db example_entry (example_task_world\<lparr>wd_tasks := []\<rparr>)) task_process)"
    unfolding task_system_simps using s by (intro process_act.Thread [OF _ s(1) _ _ t]) simp_all
  have own: "own_copies task_system"
    using s by (auto simp: own_copies_def all_copies_def slot_copies_def task_system_simps task_view copies_def
        example_task_world_def example_task_def)
  have st: "\<exists>i t d d'. i < length (pr_srvs (in_worker task_system 0)) \<and> pr_srvs (in_worker task_system 0) ! i = Some t \<and>
      sl_zone t = sl_zone s \<and>
      (d = sv_db (sl_srv t) \<or> d \<in> slot_copies task_system 0 i t \<and> was_db ?D (\<lambda>_. False) task_system task_system 0 i d) \<and>
      db_fmt d = db_fmt (sv_db (sl_srv t)) \<and>
      stores (dp_sqlite ?D) mem_view d [example_entry] (sy_sys task_system) d'
        (pr_sys (put_back 0 s (thread_insert_1 ?D mem_db example_entry (example_task_world\<lparr>wd_tasks := []\<rparr>)) task_process))"
    by (rule stored_entries_committed [OF task_system_ok own _ system_run.Start _ a])
      (use mem_storage_law in \<open>auto simp: starts_well_def task_system_simps task_process_def example_srv_def\<close>)
  obtain i t d d' where t: "i < length (pr_srvs (in_worker task_system 0))" "pr_srvs (in_worker task_system 0) ! i = Some t"
      "d = sv_db (sl_srv t) \<or> d \<in> slot_copies task_system 0 i t"
    and d': "stores (dp_sqlite ?D) mem_view d [example_entry] (sy_sys task_system) d'
        (pr_sys (put_back 0 s (thread_insert_1 ?D mem_db example_entry (example_task_world\<lparr>wd_tasks := []\<rparr>)) task_process))"
    using st by blast
  have "d = sv_db (sl_srv t)"
    using t own unfolding own_copies_def all_copies_def by (auto simp: task_system_simps)
  then have "d = mem_db" using t(1,2) s by (auto simp: task_system_simps)
  with d' show ?thesis by (auto simp: task_system_simps)
qed

end
