(* ===== verification/File.thy ===== *)
theory File
  imports Sqlite_Laws
begin

text \<open>
  Reading a file into a string: \<open>ngx_http_sqlitelog_file.c\<close>. The system calls behind nginx's file
  macros are a parameter; \<open>fds\<close> are the descriptors that are open.
\<close>

section \<open>The interface\<close>

text \<open>
  \<open>fa_open\<close> gives a descriptor or -1, \<open>fa_info\<close> the size in the result of \<open>fstat\<close> or None, \<open>fa_read\<close>
  the return value of \<open>ngx_read_file\<close> at offset 0 and the bytes it put into the buffer.
\<close>

record 'w file_api =
  fa_open :: "string \<Rightarrow> 'w \<Rightarrow> int \<times> 'w"
  fa_info :: "int \<Rightarrow> 'w \<Rightarrow> nat option \<times> 'w"
  fa_read :: "int \<Rightarrow> nat \<Rightarrow> 'w \<Rightarrow> (int \<times> string) \<times> 'w"
  fa_close :: "int \<Rightarrow> 'w \<Rightarrow> int \<times> 'w"

abbreviation NGX_FILE_ERROR :: int where "NGX_FILE_ERROR \<equiv> -1"

section \<open>The functions\<close>

definition file_size :: "'w file_api \<Rightarrow> string \<Rightarrow> 'w sys \<Rightarrow> int \<times> 'w sys" where
  "file_size F filename s =
     (let (fd, w) = fa_open F filename (sq s); s = s\<lparr>sq := w\<rparr>
      in if fd = NGX_FILE_ERROR
         then (NGX_FILE_ERROR, log_error ''sqlitelog: failed to open file \"%V\"'' [Arg_V filename] s)
         else
           let (statted, w) = fa_info F fd (sq s); s = s\<lparr>sq := w\<rparr>;
               (filesize, s) =
                 (case statted of
                    None \<Rightarrow> (NGX_FILE_ERROR,
                      log_error ''sqlitelog: failed to stat file \"%V\"'' [Arg_V filename] s)
                  | Some n \<Rightarrow> (int n, s));
               (closed, w) = fa_close F fd (sq s); s = s\<lparr>sq := w\<rparr>
           in (filesize,
               if closed \<noteq> NGX_OK
               then log_error ''sqlitelog: failed to close file \"%V\"'' [Arg_V filename] s else s))"

text \<open>
  \<open>None\<close> is the NULL string. A read of more bytes than the buffer has sets \<open>ub\<close>. So does the line
  about a failed allocation: nginx's \<open>%v\<close> takes a pointer to a variable value, and the code passes
  the size of the buffer, which is dereferenced.
\<close>

definition file_read ::
  "'w file_api \<Rightarrow> string \<Rightarrow> mem \<Rightarrow> 'w sys \<Rightarrow> string option \<times> mem \<times> 'w sys" where
  "file_read F filename m s =
     (let (fd, w) = fa_open F filename (sq s); s = s\<lparr>sq := w\<rparr>
      in if fd = NGX_FILE_ERROR
         then (None, m, log_error ''sqlitelog: failed to open file \"%V\"'' [Arg_V filename] s)
         else
           let (filesize, s) = file_size F filename s
           in if filesize = NGX_FILE_ERROR
              then (None, m, log_error ''sqlitelog: failed to get size of file \"%V\"'' [Arg_V filename] s)
              else
                let (ok_buf, m) = palloc m
                in if \<not> ok_buf
                   then (None, m, log_error
                     ''sqlitelog: failed to allocate %v bytes to read contents of file \"%V\"''
                     [Arg_d (filesize + 1), Arg_V filename] (s\<lparr>ub := True\<rparr>))
                   else
                     let ((bytes_read, bytes), w) = fa_read F fd (nat filesize) (sq s); s = s\<lparr>sq := w\<rparr>
                     in case put (replicate (nat filesize + 1) nul) 0 bytes of
                          None \<Rightarrow> (None, m, s\<lparr>ub := True\<rparr>)
                        | Some buf \<Rightarrow>
                            if bytes_read = NGX_ERROR
                            then (None, m, log_error ''sqlitelog: failed to read file \"%V\"''
                                             [Arg_V filename] s)
                            else if bytes_read \<noteq> filesize
                            then (None, m, log_error
                              ''sqlitelog: failed to read file \"%V\"; only read %z of %z total bytes''
                              [Arg_V filename, Arg_d bytes_read, Arg_d filesize] s)
                            else
                              let (closed, w) = fa_close F fd (sq s); s = s\<lparr>sq := w\<rparr>
                              in if closed \<noteq> NGX_OK
                                 then (None, m, log_error ''sqlitelog: failed to close file \"%V\"''
                                                  [Arg_V filename] s)
                                 else (Some (take (nat filesize) buf), m, s))"

section \<open>What the system promises\<close>

text \<open>
  \<open>content fd w\<close> are the bytes of the file that the open descriptor \<open>fd\<close> refers to. Opening yields
  a new descriptor or fails; closing releases it, even if it reports an error; nothing else opens
  or closes. A read puts at most the wanted bytes into the buffer, and if it reports a count,
  these are the first bytes of the file.
\<close>

record 'w file_view =
  vw_fds :: "'w \<Rightarrow> int set"
  vw_content :: "int \<Rightarrow> 'w \<Rightarrow> string"

definition open_law :: "'w file_api \<Rightarrow> 'w file_view \<Rightarrow> bool" where
  "open_law F V \<longleftrightarrow>
     (\<forall>f w fd w'. fa_open F f w = (fd, w') \<longrightarrow>
        (if fd = NGX_FILE_ERROR then vw_fds V w' = vw_fds V w
         else fd \<notin> vw_fds V w \<and> vw_fds V w' = insert fd (vw_fds V w)) \<and>
        (\<forall>g\<in>vw_fds V w. vw_content V g w' = vw_content V g w))"

definition info_law :: "'w file_api \<Rightarrow> 'w file_view \<Rightarrow> bool" where
  "info_law F V \<longleftrightarrow>
     (\<forall>fd w r w'. fa_info F fd w = (r, w') \<longrightarrow>
        vw_fds V w' = vw_fds V w \<and> (\<forall>g\<in>vw_fds V w. vw_content V g w' = vw_content V g w))"

definition read_law :: "'w file_api \<Rightarrow> 'w file_view \<Rightarrow> bool" where
  "read_law F V \<longleftrightarrow>
     (\<forall>fd n w k bs w'. fa_read F fd n w = ((k, bs), w') \<longrightarrow>
        vw_fds V w' = vw_fds V w \<and> length bs \<le> n \<and>
        (0 \<le> k \<longrightarrow> length bs = nat k \<and> bs = take (nat k) (vw_content V fd w)))"

definition close_law :: "'w file_api \<Rightarrow> 'w file_view \<Rightarrow> bool" where
  "close_law F V \<longleftrightarrow>
     (\<forall>fd w r w'. fa_close F fd w = (r, w') \<longrightarrow>
        vw_fds V w' = vw_fds V w - {fd} \<and>
        (\<forall>g\<in>vw_fds V w - {fd}. vw_content V g w' = vw_content V g w))"

definition file_law :: "'w file_api \<Rightarrow> 'w file_view \<Rightarrow> bool" where
  "file_law F V \<longleftrightarrow> open_law F V \<and> info_law F V \<and> read_law F V \<and> close_law F V"

lemma file_lawD:
  assumes "file_law F V"
  shows "fa_open F f w = (fd, w') \<Longrightarrow>
      (if fd = NGX_FILE_ERROR then vw_fds V w' = vw_fds V w
       else fd \<notin> vw_fds V w \<and> vw_fds V w' = insert fd (vw_fds V w)) \<and>
      (\<forall>g\<in>vw_fds V w. vw_content V g w' = vw_content V g w)"
    and "fa_info F fd w = (st, w') \<Longrightarrow>
      vw_fds V w' = vw_fds V w \<and> (\<forall>g\<in>vw_fds V w. vw_content V g w' = vw_content V g w)"
    and "fa_read F fd n w = ((k, bs), w') \<Longrightarrow>
      vw_fds V w' = vw_fds V w \<and> length bs \<le> n \<and>
      (0 \<le> k \<longrightarrow> length bs = nat k \<and> bs = take (nat k) (vw_content V fd w))"
    and "fa_close F fd w = (r, w') \<Longrightarrow>
      vw_fds V w' = vw_fds V w - {fd} \<and>
      (\<forall>g\<in>vw_fds V w - {fd}. vw_content V g w' = vw_content V g w)"
proof -
  have "open_law F V" "info_law F V" "read_law F V" "close_law F V"
    using assms by (simp_all add: file_law_def)
  note laws = this [unfolded open_law_def info_law_def read_law_def close_law_def]
  show "fa_open F f w = (fd, w') \<Longrightarrow>
      (if fd = NGX_FILE_ERROR then vw_fds V w' = vw_fds V w
       else fd \<notin> vw_fds V w \<and> vw_fds V w' = insert fd (vw_fds V w)) \<and>
      (\<forall>g\<in>vw_fds V w. vw_content V g w' = vw_content V g w)"
    using laws(1) by blast
  show "fa_info F fd w = (st, w') \<Longrightarrow>
      vw_fds V w' = vw_fds V w \<and> (\<forall>g\<in>vw_fds V w. vw_content V g w' = vw_content V g w)"
    using laws(2) by blast
  show "fa_read F fd n w = ((k, bs), w') \<Longrightarrow>
      vw_fds V w' = vw_fds V w \<and> length bs \<le> n \<and>
      (0 \<le> k \<longrightarrow> length bs = nat k \<and> bs = take (nat k) (vw_content V fd w))"
    using laws(3) by blast
  show "fa_close F fd w = (r, w') \<Longrightarrow>
      vw_fds V w' = vw_fds V w - {fd} \<and>
      (\<forall>g\<in>vw_fds V w - {fd}. vw_content V g w' = vw_content V g w)"
    using laws(4) by blast
qed

section \<open>Proofs\<close>

text \<open>The size function opens and closes a descriptor of its own.\<close>

lemma file_size_spec:
  assumes law: "file_law F V" and run: "file_size F filename s = (n, s')"
  shows "vw_fds V (sq s') = vw_fds V (sq s) \<and> ub s' = ub s \<and>
    (\<forall>g\<in>vw_fds V (sq s). vw_content V g (sq s') = vw_content V g (sq s)) \<and> (n = NGX_FILE_ERROR \<or> 0 \<le> n)"
proof -
  obtain fd w1 where o: "fa_open F filename (sq s) = (fd, w1)" by (cases "fa_open F filename (sq s)")
  note ol = file_lawD(1) [OF law o]
  show ?thesis
  proof (cases "fd = NGX_FILE_ERROR")
    case True
    with run o ol show ?thesis by (auto simp: file_size_def log_error_def)
  next
    case False
    obtain st w2 where i: "fa_info F fd w1 = (st, w2)" by (cases "fa_info F fd w1")
    obtain c w3 where cl: "fa_close F fd w2 = (c, w3)" by (cases "fa_close F fd w2")
    have "sq s' = w3" "ub s' = ub s" "n = (case st of None \<Rightarrow> NGX_FILE_ERROR | Some k \<Rightarrow> int k)"
      using run o i cl False by (auto simp: file_size_def Let_def split: option.splits if_splits)
    with ol file_lawD(2) [OF law i] file_lawD(4) [OF law cl] False show ?thesis
      by (auto split: option.splits)
  qed
qed

text \<open>
  C40. Reading a file: a string that is returned is the start of the file's contents, as long as the
  size that was reported, and no descriptor stays open. When the result is NULL, either opening
  failed and none stays open; or the last close failed, and that one took the descriptor; or else
  the size or the buffer could not be had or the read failed, and the descriptor stays open. The
  buffer is never overrun; undefined behaviour is exactly a failed allocation, whose error line
  dereferences the size of the buffer.
\<close>

theorem file_read_result:
  assumes "file_law F V" and "fa_open F filename (sq s) = (fd, w)"
    and "file_read F filename m s = (r, m', s')"
  shows "ub s' = (ub s \<or> fd \<noteq> NGX_FILE_ERROR \<and>
      fst (file_size F filename (s\<lparr>sq := w\<rparr>)) \<noteq> NGX_FILE_ERROR \<and> \<not> fst (palloc m)) \<and>
    (case r of
       Some bs \<Rightarrow> vw_fds V (sq s') = vw_fds V (sq s) \<and>
         int (length bs) = fst (file_size F filename (s\<lparr>sq := w\<rparr>)) \<and>
         bs = take (length bs) (vw_content V fd w)
     | None \<Rightarrow>
         vw_fds V (sq s') = vw_fds V (sq s) \<and>
           (fd = NGX_FILE_ERROR \<or> (\<exists>w1 c. fa_close F fd w1 = (c, sq s') \<and> c \<noteq> NGX_OK)) \<or>
         fd \<notin> vw_fds V (sq s) \<and> vw_fds V (sq s') = insert fd (vw_fds V (sq s)))"
proof -
  note o = assms(2) and ol = file_lawD(1) [OF assms(1,2)]
  show ?thesis
  proof (cases "fd = NGX_FILE_ERROR")
    case True
    with assms(3) o ol show ?thesis by (auto simp: file_read_def log_error_def)
  next
    case fd: False
    define s1 where "s1 = s\<lparr>sq := w\<rparr>"
    obtain n s2 where z: "file_size F filename s1 = (n, s2)" by (cases "file_size F filename s1")
    note zs = file_size_spec [OF assms(1) z]
    have sz: "fst (file_size F filename (s\<lparr>sq := w\<rparr>)) = n" using z by (simp add: s1_def)
    have open2: "vw_fds V (sq s2) = insert fd (vw_fds V (sq s))" "fd \<notin> vw_fds V (sq s)"
      "vw_content V fd (sq s2) = vw_content V fd w" "ub s2 = ub s"
      using zs ol fd by (auto simp: s1_def)
    show ?thesis
    proof (cases "n = NGX_FILE_ERROR")
      case True
      have "r = None \<and> sq s' = sq s2 \<and> ub s' = ub s2"
        using assms(3) o fd z True by (auto simp: file_read_def s1_def)
      with open2 sz True show ?thesis by simp
    next
      case n: False
      with zs have n0: "0 \<le> n" by simp
      obtain ok m1 where a: "palloc m = (ok, m1)" by (cases "palloc m")
      show ?thesis
      proof (cases ok)
        case False
        have "r = None \<and> sq s' = sq s2 \<and> ub s'"
          using assms(3) o fd z n a False by (auto simp: file_read_def s1_def)
        with open2 sz fd n a False show ?thesis by simp
      next
        case ok: True
        obtain k bs w3 where rd: "fa_read F fd (nat n) (sq s2) = ((k, bs), w3)"
          by (cases "fa_read F fd (nat n) (sq s2)") auto
        note rl = file_lawD(3) [OF assms(1) rd]
        obtain buf where buf: "put (replicate (nat n + 1) nul) 0 bs = Some buf"
          and take: "length bs = nat n \<Longrightarrow> take (nat n) buf = bs"
          using rl by (auto simp: put_def)
        obtain c w4 where cl: "fa_close F fd w3 = (c, w4)" by (cases "fa_close F fd w3")
        note cll = file_lawD(4) [OF assms(1) cl]
        have res: "file_read F filename m s =
            (if k = NGX_ERROR then (None, m1, log_error ''sqlitelog: failed to read file \"%V\"'' [Arg_V filename] (s2\<lparr>sq := w3\<rparr>))
             else if k \<noteq> n then (None, m1, log_error
               ''sqlitelog: failed to read file \"%V\"; only read %z of %z total bytes''
               [Arg_V filename, Arg_d k, Arg_d n] (s2\<lparr>sq := w3\<rparr>))
             else if c \<noteq> NGX_OK then (None, m1, log_error ''sqlitelog: failed to close file \"%V\"'' [Arg_V filename] (s2\<lparr>sq := w4\<rparr>))
             else (Some (take (nat n) buf), m1, s2\<lparr>sq := w4\<rparr>))"
          using o fd z n a ok rd buf cl by (simp add: file_read_def s1_def)
        have fds: "vw_fds V w3 = insert fd (vw_fds V (sq s))" "vw_fds V w4 = vw_fds V (sq s)"
          using rl cll open2 by auto
        have got: "take (nat n) buf = bs" "bs = take (length bs) (vw_content V fd w)" "int (length bs) = n"
          if "k = n"
          using take rl n0 that open2(3) by auto
        show ?thesis
        proof (cases "k = n")
          case False
          with assms(3) res have "r = None \<and> sq s' = w3 \<and> ub s' = ub s2" by (auto split: if_splits)
          with fds(1) open2(2,4) a ok show ?thesis by simp
        next
          case True
          note got = got [OF True]
          show ?thesis
          proof (cases "c = NGX_OK")
            case True
            with assms(3) res n \<open>k = n\<close> got(1) have "r = Some bs \<and> sq s' = w4 \<and> ub s' = ub s2" by auto
            with fds(2) open2(4) sz got(2,3) a ok show ?thesis by simp
          next
            case False
            with assms(3) res n \<open>k = n\<close> have "r = None \<and> sq s' = w4 \<and> ub s' = ub s2" by auto
            with False cl fds(2) open2(4) a ok show ?thesis by auto
          qed
        qed
      qed
    qed
  qed
qed

section \<open>A file system for the examples\<close>

text \<open>Files with their contents, the next descriptor, and the table of open ones.\<close>

type_synonym files = "nat \<times> (int \<times> string) list"

definition example_files :: "(string \<times> string) list \<Rightarrow> files file_api" where
  "example_files fs = \<lparr>
     fa_open = \<lambda>f (n, ds). (case map_of fs f of
         None \<Rightarrow> (-1, (n, ds))
       | Some c \<Rightarrow> let d = Suc (fold max (map (nat \<circ> fst) ds) n) in (int d, (d, (int d, c) # ds))),
     fa_info = \<lambda>d (n, ds). (map_option length (map_of ds d), (n, ds)),
     fa_read = \<lambda>d k (n, ds). (case map_of ds d of
         None \<Rightarrow> (-1, [])
       | Some c \<Rightarrow> (int (length (take k c)), take k c), (n, ds)),
     fa_close = \<lambda>d (n, ds). (0, (n, filter (\<lambda>p. fst p \<noteq> d) ds))\<rparr>"

definition example_file_view :: "files file_view" where
  "example_file_view = \<lparr>vw_fds = \<lambda>w. fst ` set (snd w),
     vw_content = \<lambda>d w. (case map_of (snd w) d of None \<Rightarrow> [] | Some c \<Rightarrow> c)\<rparr>"

lemma map_of_filter_other: "g \<noteq> d \<Longrightarrow> map_of (filter (\<lambda>p. fst p \<noteq> d) ds) g = map_of ds g"
  by (induction ds) auto

lemma new_fd: "(int (Suc (fold max (map (nat \<circ> fst) ds) n))) \<notin> fst ` set ds"
proof
  assume "int (Suc (fold max (map (nat \<circ> fst) ds) n)) \<in> fst ` set ds"
  then have "Suc (fold max (map (nat \<circ> fst) ds) n) \<in> set (map (nat \<circ> fst) ds)"
    by (force simp: image_iff)
  then have "Suc (fold max (map (nat \<circ> fst) ds) n) \<le> fold max (map (nat \<circ> fst) ds) n"
    by (intro fold_max_ge disjI1)
  then show False by simp
qed

lemma new_fd_pair: "(1 + int (fold max (map (nat \<circ> fst) ds) n), c) \<notin> set ds"
  using new_fd [of ds n] by (force simp: image_iff)

lemma example_file_law: "file_law (example_files fs) example_file_view"
proof -
  have "open_law (example_files fs) example_file_view"
    unfolding open_law_def
    by (auto simp: example_files_def example_file_view_def Let_def new_fd_pair split: option.splits)
  moreover have "info_law (example_files fs) example_file_view"
    unfolding info_law_def by (auto simp: example_files_def example_file_view_def)
  moreover have "read_law (example_files fs) example_file_view"
    unfolding read_law_def
    by (auto simp: example_files_def example_file_view_def min_def split: option.splits)
  moreover have "close_law (example_files fs) example_file_view"
    unfolding close_law_def
    by (auto simp: example_files_def example_file_view_def map_of_filter_other)
  ultimately show ?thesis by (simp add: file_law_def)
qed

definition file_start :: "files sys" where
  "file_start = \<lparr>sq = (2, []), elog = [], ub = False\<rparr>"

text \<open>The same system, but a read returns one byte less.\<close>

definition short_files :: "(string \<times> string) list \<Rightarrow> files file_api" where
  "short_files fs = (example_files fs)\<lparr>fa_read := \<lambda>d k. fa_read (example_files fs) d (k - 1)\<rparr>"

lemma short_file_law: "file_law (short_files fs) example_file_view"
proof -
  note e = file_lawD [OF example_file_law [of fs]]
  have "read_law (short_files fs) example_file_view"
    unfolding read_law_def short_files_def using e(3) by (auto intro: order_trans) (metis diff_le_self le_trans)+
  then show ?thesis
    using example_file_law [of fs] unfolding file_law_def open_law_def info_law_def close_law_def
    by (simp add: short_files_def)
qed

lemma file_read_eval:
  "fst (file_read (example_files [(''a'', ''SELECT 1'')]) ''a'' [] file_start) = Some ''SELECT 1''"
  "fst (file_read (short_files [(''a'', ''SELECT 1'')]) ''a'' [] file_start) = None"
  "fst (fa_open (short_files [(''a'', ''SELECT 1'')]) ''a'' (sq file_start)) = 3"
  "snd (sq (snd (snd (file_read (short_files [(''a'', ''SELECT 1'')]) ''a'' [] file_start)))) =
     [(3, ''SELECT 1'')]"
  "fst (file_size (example_files [(''a'', ''SELECT 1'')]) ''a'' (file_start\<lparr>sq := (3, [(3, ''SELECT 1'')])\<rparr>)) = 8"
  "fa_open (example_files [(''a'', ''SELECT 1'')]) ''a'' (sq file_start) = (3, (3, [(3, ''SELECT 1'')]))"
  by code_simp+

text \<open>
  The script is read and nothing stays open; after a short read descriptor 3 does; without memory
  the error line is undefined.
\<close>

theorem file_read_result_witness:
  "\<exists>m' s'. file_read (example_files [(''a'', ''SELECT 1'')]) ''a'' [] file_start = (Some ''SELECT 1'', m', s') \<and>
     vw_fds example_file_view (sq s') = {} \<and> \<not> ub s' \<and>
   vw_fds example_file_view (sq (snd (snd (file_read (short_files [(''a'', ''SELECT 1'')]) ''a'' []
     file_start)))) = {3} \<and>
   ub (snd (snd (file_read (example_files [(''a'', ''SELECT 1'')]) ''a'' [False] file_start)))"
proof -
  obtain r m' s' where run: "file_read (example_files [(''a'', ''SELECT 1'')]) ''a'' [] file_start = (r, m', s')"
    by (cases "file_read (example_files [(''a'', ''SELECT 1'')]) ''a'' [] file_start") auto
  with file_read_eval(1) have r: "r = Some ''SELECT 1''" by simp
  have 1: "vw_fds example_file_view (sq s') = {}" "\<not> ub s'"
    using file_read_result [OF example_file_law file_read_eval(6) run] r
    by (simp_all add: example_file_view_def) (simp_all add: file_start_def)
  obtain r2 m2 s2 where run2: "file_read (short_files [(''a'', ''SELECT 1'')]) ''a'' [] file_start = (r2, m2, s2)"
    by (cases "file_read (short_files [(''a'', ''SELECT 1'')]) ''a'' [] file_start") auto
  have 2: "vw_fds example_file_view (sq s2) = {3}"
    using run2 file_read_eval(4) by (simp add: example_file_view_def)
  obtain r3 m3 s3 where run3: "file_read (example_files [(''a'', ''SELECT 1'')]) ''a'' [False] file_start = (r3, m3, s3)"
    by (cases "file_read (example_files [(''a'', ''SELECT 1'')]) ''a'' [False] file_start") auto
  have 3: "ub s3"
    using file_read_result [OF example_file_law file_read_eval(6) run3] file_read_eval(5) by simp
  from run r 1 2 3 run2 run3 show ?thesis by simp
qed

end
