(* ===== verification/Conf.thy ===== *)
theory Conf
  imports Handler File
begin

text \<open>
  The configuration stage of \<open>ngx_http_sqlitelog_module.c\<close>: the directives \<open>sqlitelog\<close> (with its
  options), \<open>sqlitelog_format\<close> and \<open>sqlitelog_async\<close>, the creation and merging of configurations,
  and the initialisation of the shared zone.
\<close>

section \<open>State and interfaces\<close>

text \<open>
  nginx's own functions. \<open>da_full_name\<close> makes a path absolute, \<open>da_compile\<close> compiles a complex
  value and \<open>da_shm_add\<close> adds a shared zone of a name and a size, given those that were added
  before; each may fail. \<open>da_event_timer_set\<close> is what the bit \<open>timer_set\<close> of an event happens to
  be in memory from \<open>ngx_palloc\<close>, which is not cleared.
\<close>

record 'w directive_api =
  da_conf :: conf_api
  da_off :: "string \<Rightarrow> bool"
  da_full_name :: "string \<Rightarrow> string option"
  da_parse_size :: "string \<Rightarrow> int"
  da_atoi :: "string \<Rightarrow> int"
  da_parse_time :: "string \<Rightarrow> int"
  da_pagesize :: int
  da_compile :: "string \<Rightarrow> string option"
  da_shm_add :: "string \<Rightarrow> int \<Rightarrow> (string \<times> int) list \<Rightarrow> bool"
  da_pool_add :: "string \<Rightarrow> bool"
  da_pool_get :: "string \<Rightarrow> bool"
  da_event_timer_set :: bool
  da_files :: "'w file_api"
  da_sqlite :: "'w sqlite"

text \<open>\<open>mc_tp\<close> is the name of the thread pool, or None for NULL.\<close>

record main_conf =
  mc_formats :: "fmt list"
  mc_combined_init :: bool
  mc_tp :: "string option"

text \<open>
  The configuration of a server. A pointer to a format is its index in the array of formats (index 0
  is \<open>combined\<close>), \<open>sc_filename\<close> is None while the data pointer is NULL, and the buffer comes with
  the name of its zone.
\<close>

record srv_conf =
  sc_enabled :: int
  sc_filename :: "string option"
  sc_fmt :: "nat option"
  sc_init_sql :: "string option"
  sc_buf :: "(string \<times> buf) option"
  sc_filter :: "string option"

text \<open>
  What a directive works on: the two configurations, memory, the rest of the world, and the zones.
\<close>

record 'w conf_state =
  cs_main :: main_conf
  cs_srv :: srv_conf
  cs_mem :: mem
  cs_sys :: "'w sys"
  cs_zones :: "(string \<times> int) list"

definition set_srv :: "(srv_conf \<Rightarrow> srv_conf) \<Rightarrow> 'w conf_state \<Rightarrow> 'w conf_state" where
  "set_srv f cs = cs\<lparr>cs_srv := f (cs_srv cs)\<rparr>"

definition set_main :: "(main_conf \<Rightarrow> main_conf) \<Rightarrow> 'w conf_state \<Rightarrow> 'w conf_state" where
  "set_main f cs = cs\<lparr>cs_main := f (cs_main cs)\<rparr>"

definition conf_log :: "string \<Rightarrow> log_arg list \<Rightarrow> 'w conf_state \<Rightarrow> 'w conf_state" where
  "conf_log line args cs = cs\<lparr>cs_sys := log_error line args (cs_sys cs)\<rparr>"

definition cs_palloc :: "'w conf_state \<Rightarrow> bool \<times> 'w conf_state" where
  "cs_palloc cs = (let (ok, m) = palloc (cs_mem cs) in (ok, cs\<lparr>cs_mem := m\<rparr>))"

text \<open>The rest of an option after its prefix.\<close>

definition after_prefix :: "string \<Rightarrow> string \<Rightarrow> string" where
  "after_prefix p arg = drop (length p) arg"

section \<open>The options of \<open>sqlitelog\<close>\<close>

fun find_format :: "string \<Rightarrow> nat \<Rightarrow> fmt list \<Rightarrow> nat option" where
  "find_format arg i [] = None"
| "find_format arg i (f # fs) =
     (if ngx_str_eq (fmt_name f) arg then Some i else find_format arg (i + 1) fs)"

text \<open>An unknown name is only noticed when no format was set before.\<close>

definition opt_format :: "string \<Rightarrow> 'w conf_state \<Rightarrow> conf_rc \<times> 'w conf_state" where
  "opt_format arg cs =
     (if length arg = 0 then (Conf_error, conf_log ''empty format name'' [] cs)
      else if ngx_str_eq_cs arg ''combined'' then (Conf_ok, set_srv (sc_fmt_update (\<lambda>_. Some 0)) cs)
      else
        let cs = (case find_format arg 0 (mc_formats (cs_main cs)) of
                    None \<Rightarrow> cs
                  | Some i \<Rightarrow> set_srv (sc_fmt_update (\<lambda>_. Some i)) cs)
        in if sc_fmt (cs_srv cs) = None
           then (Conf_error, conf_log ''unknown format \"%V\"'' [Arg_V arg] cs)
           else (Conf_ok, cs))"

definition opt_buffer ::
  "'w directive_api \<Rightarrow> string \<Rightarrow> int \<Rightarrow> 'w conf_state \<Rightarrow> conf_rc \<times> int \<times> 'w conf_state" where
  "opt_buffer A arg sizep cs =
     (let min_size = 8 * da_pagesize A;
          s = after_prefix ''buffer='' arg;
          zsize = da_parse_size A s
      in if zsize = NGX_ERROR
         then (Conf_error, sizep, conf_log ''invalid buffer size \"%V\"'' [Arg_V s] cs)
         else if zsize < min_size
         then (Conf_error, sizep, conf_log
           ''buffer size \"%V\" is too small; must be at least 8 pages (%z bytes)'' [Arg_V s, Arg_d min_size] cs)
         else (Conf_ok, zsize, cs))"

definition opt_max ::
  "'w directive_api \<Rightarrow> string \<Rightarrow> int \<Rightarrow> 'w conf_state \<Rightarrow> conf_rc \<times> int \<times> 'w conf_state" where
  "opt_max A arg maxp cs =
     (let s = after_prefix ''max='' arg; n = da_atoi A s
      in if n = NGX_ERROR \<or> n \<le> 0
         then (Conf_error, maxp, conf_log ''invalid max capacity \"%V\"'' [Arg_V s] cs)
         else (Conf_ok, n, cs))"

definition opt_flush ::
  "'w directive_api \<Rightarrow> string \<Rightarrow> int \<Rightarrow> 'w conf_state \<Rightarrow> conf_rc \<times> int \<times> 'w conf_state" where
  "opt_flush A arg flush cs =
     (let s = after_prefix ''flush='' arg; t = da_parse_time A s
      in if t = NGX_ERROR
         then (Conf_error, flush, conf_log ''invalid flush timer duration \"%V\"'' [Arg_V s] cs)
         else if t < 1000
         then (Conf_error, flush, conf_log
           ''flush timer duration \"%V\" is too short; must be at least 1s'' [Arg_V s] cs)
         else (Conf_ok, t, cs))"

definition opt_init ::
  "'w directive_api \<Rightarrow> string \<Rightarrow> 'w conf_state \<Rightarrow> conf_rc \<times> 'w conf_state" where
  "opt_init A arg cs =
     (case da_full_name A (after_prefix ''init='' arg) of
        None \<Rightarrow> (Conf_error, cs)
      | Some s \<Rightarrow>
          let (sql, m, sys) = file_read (da_files A) s (cs_mem cs) (cs_sys cs);
              cs = cs\<lparr>cs_mem := m, cs_sys := sys\<rparr>
          in case sql of
               None \<Rightarrow> (Conf_error, conf_log ''failed to read contents of \"%V\"'' [Arg_V s] cs)
             | Some sql \<Rightarrow> (Conf_ok, set_srv (sc_init_sql_update (\<lambda>_. Some sql)) cs))"

definition opt_if :: "'w directive_api \<Rightarrow> string \<Rightarrow> 'w conf_state \<Rightarrow> conf_rc \<times> 'w conf_state" where
  "opt_if A arg cs =
     (let s = after_prefix ''if='' arg; (ok_value, cs) = cs_palloc cs
      in if \<not> ok_value then (Conf_error, cs)
         else
           case da_compile A s of
             None \<Rightarrow> (Conf_error, conf_log ''failed to compile condition \"%V\"'' [Arg_V s] cs)
           | Some v \<Rightarrow> (Conf_ok, set_srv (sc_filter_update (\<lambda>_. Some v)) cs))"

text \<open>The loop over the options, which stops at the first one that fails.\<close>

record opts =
  op_size :: int
  op_max :: int
  op_flush :: int

definition one_option ::
  "'w directive_api \<Rightarrow> string \<Rightarrow> opts \<Rightarrow> 'w conf_state \<Rightarrow> conf_rc \<times> opts \<times> 'w conf_state" where
  "one_option A v o1 cs =
     (if ngx_has_prefix v ''buffer=''
      then let (rc, n, cs) = opt_buffer A v (op_size o1) cs in (rc, o1\<lparr>op_size := n\<rparr>, cs)
      else if ngx_has_prefix v ''max=''
      then let (rc, n, cs) = opt_max A v (op_max o1) cs in (rc, o1\<lparr>op_max := n\<rparr>, cs)
      else if ngx_has_prefix v ''flush=''
      then let (rc, n, cs) = opt_flush A v (op_flush o1) cs in (rc, o1\<lparr>op_flush := n\<rparr>, cs)
      else if ngx_has_prefix v ''init='' then let (rc, cs) = opt_init A v cs in (rc, o1, cs)
      else if ngx_has_prefix v ''if='' then let (rc, cs) = opt_if A v cs in (rc, o1, cs)
      else let (rc, cs) = opt_format v cs in (rc, o1, cs))"

fun options ::
  "'w directive_api \<Rightarrow> string list \<Rightarrow> opts \<Rightarrow> 'w conf_state \<Rightarrow> conf_rc \<times> opts \<times> 'w conf_state" where
  "options A [] o1 cs = (Conf_ok, o1, cs)"
| "options A (v # vs) o1 cs =
     (let (rc, o1, cs) = one_option A v o1 cs
      in if rc \<noteq> Conf_ok then (Conf_error, o1, cs) else options A vs o1 cs)"

section \<open>The directive \<open>sqlitelog\<close>\<close>

text \<open>A format that could not be compiled: the lines go to the log, an overrun sets \<open>ub\<close>.\<close>

definition conf_fault :: "fault \<times> log_line list \<Rightarrow> 'w conf_state \<Rightarrow> 'w conf_state" where
  "conf_fault e cs =
     cs\<lparr>cs_sys := (cs_sys cs)\<lparr>elog := elog (cs_sys cs) @ snd e, ub := (ub (cs_sys cs) \<or> fst e = Overrun)\<rparr>\<rparr>"

text \<open>No format, or \<open>combined\<close>: compile \<open>combined\<close> once.\<close>

definition default_format :: "'w directive_api \<Rightarrow> 'w conf_state \<Rightarrow> conf_rc \<times> 'w conf_state" where
  "default_format A cs =
     (if sc_fmt (cs_srv cs) = None \<or> sc_fmt (cs_srv cs) = Some 0
      then
        let cs = set_srv (sc_fmt_update (\<lambda>_. Some 0)) cs
        in if mc_combined_init (cs_main cs) then (Conf_ok, cs)
           else
             (case fmt_init_combined (da_conf A) (cs_mem cs) of
                (Inl e, m) \<Rightarrow> (Conf_error, conf_fault e (cs\<lparr>cs_mem := m\<rparr>))
              | (Inr f, m) \<Rightarrow>
                  (Conf_ok, set_main (\<lambda>mc. mc\<lparr>mc_formats := (mc_formats mc)[0 := f], mc_combined_init := True\<rparr>)
                     (cs\<lparr>cs_mem := m\<rparr>)))
      else (Conf_ok, cs))"

text \<open>The name is written to a buffer of exactly its length.\<close>

definition shm_zone ::
  "'w directive_api \<Rightarrow> int \<Rightarrow> string \<Rightarrow> string \<Rightarrow> 'w conf_state \<Rightarrow> string option \<times> 'w conf_state" where
  "shm_zone A zsize format filename cs =
     (let name_len = length ''sqlitelog_'' + length format + length ''_'' + length filename;
          (ok_buf, cs) = cs_palloc cs
      in if \<not> ok_buf then (None, cs)
         else
           case put (replicate name_len nul) 0
                  (ca_sprintf (da_conf A) ''sqlitelog_%V_%V'' [format, filename]) of
             None \<Rightarrow> (None, cs\<lparr>cs_sys := (cs_sys cs)\<lparr>ub := True\<rparr>\<rparr>)
           | Some name \<Rightarrow>
               if da_shm_add A name zsize (cs_zones cs)
               then (Some name, cs\<lparr>cs_zones := cs_zones cs @ [(name, zsize)]\<rparr>)
               else (None, conf_log ''failed to add shared memory zone \"%V\"'' [Arg_V name] cs))"

definition make_buffer ::
  "'w directive_api \<Rightarrow> opts \<Rightarrow> string \<Rightarrow> 'w conf_state \<Rightarrow> conf_rc \<times> 'w conf_state" where
  "make_buffer A o1 path cs =
     (let fmt = mc_formats (cs_main cs) ! the (sc_fmt (cs_srv cs));
          (zone, cs) = shm_zone A (op_size o1) (fmt_name fmt) path cs
      in case zone of
           None \<Rightarrow> (Conf_error, conf_log
             ''failed to create shared memory zone for database \"%V\"'' [Arg_V path] cs)
         | Some name \<Rightarrow>
             let (ok_buf, cs) = cs_palloc cs
             in if \<not> ok_buf then (Conf_error, cs)
                else if op_flush o1 \<noteq> 0
                then let (ok_ctx, cs) = cs_palloc cs
                     in if \<not> ok_ctx then (Conf_error, cs)
                        else
                          let (ok_event, cs) = cs_palloc cs
                          in if \<not> ok_event then (Conf_error, cs)
                             else (Conf_ok, set_srv (sc_buf_update (\<lambda>_. Some (name,
                               \<lparr>buf_max = op_max o1, buf_flush = nat (op_flush o1),
                                buf_event = Some \<lparr>timer_set = da_event_timer_set A, timer_delay = 0\<rparr>\<rparr>))) cs)
                else (Conf_ok, set_srv (sc_buf_update (\<lambda>_. Some (name,
                  \<lparr>buf_max = op_max o1, buf_flush = 0, buf_event = None\<rparr>))) cs))"

definition srv_db :: "main_conf \<Rightarrow> srv_conf \<Rightarrow> db" where
  "srv_db mc sc = \<lparr>db_conn = None, db_filename = the (sc_filename sc),
     db_fmt = mc_formats mc ! the (sc_fmt sc), db_init_sql = sc_init_sql sc\<rparr>"

text \<open>From the path on; \<open>args\<close> are the options.\<close>

definition sqlitelog_on ::
  "'w directive_api \<Rightarrow> string \<Rightarrow> string list \<Rightarrow> 'w conf_state \<Rightarrow> conf_rc \<times> 'w conf_state" where
  "sqlitelog_on A path args cs =
     (if length path = 0 then (Conf_message ''path is empty string'', cs)
      else
        case da_full_name A path of
          None \<Rightarrow> (Conf_error, cs)
        | Some path \<Rightarrow>
            let cs = set_srv (sc_filename_update (\<lambda>_. Some path)) cs;
                (rc, o1, cs) = options A args \<lparr>op_size = 0, op_max = 0, op_flush = 0\<rparr> cs
            in if rc \<noteq> Conf_ok then (Conf_error, cs)
               else
                 let (rc, cs) = default_format A cs
                 in if rc \<noteq> Conf_ok then (Conf_error, cs)
                    else
                      let (rc_test, sys) = db_test (da_sqlite A) (srv_db (cs_main cs) (cs_srv cs)) (cs_sys cs);
                          cs = cs\<lparr>cs_sys := sys\<rparr>
                      in if rc_test \<noteq> SQLITE_OK then (Conf_error, cs)
                         else if op_size o1 \<noteq> 0 then make_buffer A o1 path cs
                         else (Conf_ok, cs))"

text \<open>\<open>args\<close> are the name of the directive and its one or more arguments.\<close>

definition sqlitelog ::
  "'w directive_api \<Rightarrow> string list \<Rightarrow> 'w conf_state \<Rightarrow> conf_rc \<times> 'w conf_state" where
  "sqlitelog A args cs =
     (if sc_filename (cs_srv cs) \<noteq> None then (Conf_message ''is duplicate'', cs)
      else if da_off A (args ! 1) then (Conf_ok, set_srv (sc_enabled_update (\<lambda>_. 0)) cs)
      else sqlitelog_on A (args ! 1) (drop 2 args) (set_srv (sc_enabled_update (\<lambda>_. 1)) cs))"

section \<open>The directive \<open>sqlitelog_format\<close>\<close>

text \<open>The first empty argument.\<close>

fun empty_arg :: "nat \<Rightarrow> string list \<Rightarrow> nat option" where
  "empty_arg i [] = None"
| "empty_arg i (v # vs) = (if length v = 0 then Some i else empty_arg (i + 1) vs)"

fun name_taken :: "string \<Rightarrow> fmt list \<Rightarrow> bool" where
  "name_taken name [] = False"
| "name_taken name (f # fs) = (ngx_str_eq name (fmt_name f) \<or> name_taken name fs)"

text \<open>The first argument from position 2 on that is no variable and does not follow one.\<close>

fun dangling :: "nat \<Rightarrow> string \<Rightarrow> string list \<Rightarrow> string option" where
  "dangling i prev [] = None"
| "dangling i prev (v # vs) =
     (if i \<ge> 2 \<and> \<not> is_var v \<and> \<not> is_var prev then Some v else dangling (i + 1) v vs)"

definition sqlitelog_format ::
  "'w directive_api \<Rightarrow> string list \<Rightarrow> 'w conf_state \<Rightarrow> conf_rc \<times> 'w conf_state" where
  "sqlitelog_format A args cs =
     (let name = args ! 1
      in if mc_combined_init (cs_main cs)
         then (Conf_message ''must come before \"sqlitelog\" directive'', cs)
         else
           case empty_arg 0 args of
             Some i \<Rightarrow> (Conf_error, conf_log ''empty argument at position %d'' [Arg_d (int i)] cs)
           | None \<Rightarrow>
               if ngx_str_eq_cs name ''combined'' then (Conf_message ''format name is reserved'', cs)
               else if name_taken name (mc_formats (cs_main cs))
               then (Conf_error, conf_log ''format \"%V\" is duplicate'' [Arg_V name] cs)
               else if n_variables_from 0 args = 0
               then (Conf_message ''doesn't contain any variables'', cs)
               else
                 case dangling 0 '''' args of
                   Some v \<Rightarrow> (Conf_error, conf_log ''column type \"%V\" doesn't follow a variable'' [Arg_V v] cs)
                 | None \<Rightarrow>
                     let (ok_push, cs) = cs_palloc cs
                     in if \<not> ok_push then (Conf_error, cs)
                        else
                          (case fmt_init (da_conf A) args (cs_mem cs) of
                             (Inl e, m) \<Rightarrow> (Conf_error, conf_fault e (cs\<lparr>cs_mem := m\<rparr>))
                           | (Inr f, m) \<Rightarrow>
                               (Conf_ok, set_main (\<lambda>mc. mc\<lparr>mc_formats := mc_formats mc @ [f]\<rparr>)
                                  (cs\<lparr>cs_mem := m\<rparr>))))"

section \<open>The directive \<open>sqlitelog_async\<close>\<close>

definition sqlitelog_async ::
  "'w directive_api \<Rightarrow> string list \<Rightarrow> 'w conf_state \<Rightarrow> conf_rc \<times> 'w conf_state" where
  "sqlitelog_async A args cs =
     (let arg = args ! 1; set_tp = (\<lambda>p. set_main (mc_tp_update (\<lambda>_. Some p)) cs)
      in if mc_tp (cs_main cs) \<noteq> None then (Conf_message ''is duplicate'', cs)
         else if ngx_str_eq_cs arg ''on''
         then (if da_pool_add A ''default'' then (Conf_ok, set_tp ''default'') else (Conf_error, cs))
         else if ngx_str_eq_cs arg ''off'' then (Conf_ok, cs)
         else if da_pool_get A arg then (Conf_ok, set_tp arg)
         else (Conf_error, conf_log ''unknown thread pool \"%V\"'' [Arg_V arg] cs))"

section \<open>Creating and merging configurations\<close>

definition create_srv_conf :: "mem \<Rightarrow> srv_conf option \<times> mem" where
  "create_srv_conf m =
     (let (ok, m) = palloc m
      in (if ok then Some \<lparr>sc_enabled = NGX_CONF_UNSET, sc_filename = None, sc_fmt = None,
            sc_init_sql = None, sc_buf = None, sc_filter = None\<rparr> else None, m))"

definition create_main_conf :: "mem \<Rightarrow> main_conf option \<times> mem" where
  "create_main_conf m =
     (let (ok_conf, m) = palloc m
      in if \<not> ok_conf then (None, m)
         else
           let (ok_formats, m) = palloc m
           in if \<not> ok_formats then (None, m)
              else
                let (ok_push, m) = palloc m
                in if \<not> ok_push then (None, m)
                   else (Some \<lparr>mc_formats = [\<lparr>fmt_name = ''combined'', fmt_columns = [],
                           fmt_sql_create = '''', fmt_sql_insert = ''''\<rparr>],
                         mc_combined_init = False, mc_tp = None\<rparr>, m))"

definition merge_srv_conf :: "srv_conf \<Rightarrow> srv_conf \<Rightarrow> srv_conf" where
  "merge_srv_conf prev conf =
     (if sc_enabled prev = 0 then conf\<lparr>sc_enabled := 0\<rparr>
      else if sc_enabled conf = 0 then conf
      else if sc_enabled prev = 1 \<and> sc_enabled conf = NGX_CONF_UNSET
      then conf\<lparr>sc_enabled := sc_enabled prev, sc_filename := sc_filename prev, sc_fmt := sc_fmt prev,
             sc_init_sql := sc_init_sql prev, sc_buf := sc_buf prev, sc_filter := sc_filter prev\<rparr>
      else if sc_enabled prev = NGX_CONF_UNSET \<and> sc_enabled conf = NGX_CONF_UNSET
      then conf\<lparr>sc_enabled := 0\<rparr>
      else conf)"

text \<open>The zone of a new cycle takes over the queue of the old one, or starts with an empty one.\<close>

definition sizeof_shctx :: nat where "sizeof_shctx = 24"

definition init_shm_zone :: "'p slab \<Rightarrow> 'p shctx option \<Rightarrow> 'p \<Rightarrow> int \<times> 'p shctx option" where
  "init_shm_zone S old_data p =
     (case old_data of
        Some sh \<Rightarrow> (NGX_OK, Some sh)
      | None \<Rightarrow>
          (case slab_calloc S sizeof_shctx p of
             (None, p) \<Rightarrow> (NGX_ERROR, None)
           | (Some a, p) \<Rightarrow>
               (NGX_OK, Some \<lparr>sh_queue = [], sh_len = 0, sh_pool = p, sh_held = False, sh_fault = False\<rparr>)))"

section \<open>From the configuration to a worker\<close>

text \<open>What a worker starts with, from the merged configuration of a server.\<close>

definition worker_srv :: "main_conf \<Rightarrow> srv_conf \<Rightarrow> srv" where
  "worker_srv mc sc = \<lparr>sv_enabled = sc_enabled sc, sv_filter = sc_filter sc, sv_db = srv_db mc sc,
     sv_buf = map_option snd (sc_buf sc)\<rparr>"

section \<open>Proofs\<close>

text \<open>Every format has a column, except \<open>combined\<close> before its first use.\<close>

definition formats_ok :: "main_conf \<Rightarrow> bool" where
  "formats_ok mc \<longleftrightarrow> mc_formats mc \<noteq> [] \<and>
     (\<forall>i<length (mc_formats mc). fmt_columns (mc_formats mc ! i) \<noteq> [] \<or> i = 0 \<and> \<not> mc_combined_init mc)"

text \<open>Later directives add formats and compile \<open>combined\<close>; they change no other format.\<close>

definition formats_grow :: "main_conf \<Rightarrow> main_conf \<Rightarrow> bool" where
  "formats_grow mc mc' \<longleftrightarrow> length (mc_formats mc) \<le> length (mc_formats mc') \<and>
     (mc_combined_init mc \<longrightarrow> mc_combined_init mc') \<and>
     (\<forall>i<length (mc_formats mc). mc_formats mc' ! i = mc_formats mc ! i \<or> i = 0 \<and> \<not> mc_combined_init mc)"

text \<open>
  The configuration of a context without a \<open>sqlitelog\<close> (or with \<open>off\<close> only), and of one with a
  \<open>sqlitelog\<close> that was accepted: enabled, with a path, a format that exists and has a column,
  tested in memory against SQLite; a buffer has a zone of at least 8 pages, a maximum that is not
  negative, and a flush time and event only together, the time being at least one second.
\<close>

definition srv_idle :: "srv_conf \<Rightarrow> bool" where
  "srv_idle sc \<longleftrightarrow> sc_enabled sc \<in> {NGX_CONF_UNSET, 0} \<and> sc_filename sc = None \<and> sc_fmt sc = None \<and>
     sc_buf sc = None"

definition buffer_ok :: "'w directive_api \<Rightarrow> (string \<times> int) list \<Rightarrow> string \<times> buf \<Rightarrow> bool" where
  "buffer_ok A zs nb \<longleftrightarrow> (\<exists>n. (fst nb, n) \<in> set zs \<and> 8 * da_pagesize A \<le> n) \<and> 0 \<le> buf_max (snd nb) \<and>
     (buf_flush (snd nb) = 0 \<and> buf_event (snd nb) = None \<or>
      1000 \<le> buf_flush (snd nb) \<and>
      (\<exists>ev. buf_event (snd nb) = Some ev \<and> timer_set ev = da_event_timer_set A))"

definition fmt_usable :: "main_conf \<Rightarrow> nat option \<Rightarrow> bool" where
  "fmt_usable mc fi \<longleftrightarrow> (\<exists>i. fi = Some i \<and> i < length (mc_formats mc) \<and>
     (i = 0 \<longrightarrow> mc_combined_init mc) \<and> fmt_columns (mc_formats mc ! i) \<noteq> [])"

definition srv_usable :: "'w directive_api \<Rightarrow> main_conf \<Rightarrow> (string \<times> int) list \<Rightarrow> srv_conf \<Rightarrow> bool" where
  "srv_usable A mc zs sc \<longleftrightarrow> sc_enabled sc = 1 \<and> sc_filename sc \<noteq> None \<and> fmt_usable mc (sc_fmt sc) \<and>
     (\<exists>s s'. db_test (da_sqlite A) (srv_db mc sc) s = (SQLITE_OK, s')) \<and>
     (\<forall>nb. sc_buf sc = Some nb \<longrightarrow> buffer_ok A zs nb)"

lemma formats_grow_refl [simp]: "formats_grow mc mc"
  by (simp add: formats_grow_def)

lemma fmt_usable_grow:
  assumes "fmt_usable mc fi" and "formats_grow mc mc'"
  shows "fmt_usable mc' fi \<and> mc_formats mc' ! the fi = mc_formats mc ! the fi"
  using assms by (auto simp: fmt_usable_def formats_grow_def)

lemma buffer_ok_grow: "buffer_ok A zs nb \<Longrightarrow> set zs \<subseteq> set zs' \<Longrightarrow> buffer_ok A zs' nb"
  unfolding buffer_ok_def by blast

lemma srv_usable_grow:
  assumes "srv_usable A mc zs sc" and "formats_grow mc mc'" and "set zs \<subseteq> set zs'"
  shows "srv_usable A mc' zs' sc"
proof -
  note f = fmt_usable_grow [OF _ assms(2), of "sc_fmt sc"]
  have "srv_db mc' sc = srv_db mc sc" using assms(1) f by (simp add: srv_usable_def srv_db_def)
  with assms f show ?thesis by (auto simp: srv_usable_def intro: buffer_ok_grow)
qed

lemma set_simps [simp]:
  "cs_main (set_srv f cs) = cs_main cs" "cs_srv (set_srv f cs) = f (cs_srv cs)"
  "cs_sys (set_srv f cs) = cs_sys cs" "cs_zones (set_srv f cs) = cs_zones cs" "cs_mem (set_srv f cs) = cs_mem cs"
  "cs_main (set_main g cs) = g (cs_main cs)" "cs_srv (set_main g cs) = cs_srv cs"
  "cs_sys (set_main g cs) = cs_sys cs" "cs_zones (set_main g cs) = cs_zones cs" "cs_mem (set_main g cs) = cs_mem cs"
  "cs_main (conf_log l as cs) = cs_main cs" "cs_srv (conf_log l as cs) = cs_srv cs"
  "cs_zones (conf_log l as cs) = cs_zones cs" "cs_mem (conf_log l as cs) = cs_mem cs"
  by (simp_all add: set_srv_def set_main_def conf_log_def)

lemma cs_palloc_simps:
  assumes "cs_palloc cs = (ok, cs')"
  shows "cs_main cs' = cs_main cs" "cs_srv cs' = cs_srv cs" "cs_sys cs' = cs_sys cs" "cs_zones cs' = cs_zones cs"
  using assms by (auto simp: cs_palloc_def split: prod.splits)

lemma find_format_Some: "find_format arg i fs = Some j \<Longrightarrow> i \<le> j \<and> j < i + length fs"
  by (induction arg i fs rule: find_format.induct) (fastforce split: if_splits)+

lemma fmt_init_columns:
  assumes "toupper_law (ca_toupper A)" and "fmt_init A args m = (Inr f, m')" and "n_variables_from 0 args \<noteq> 0"
  shows "fmt_columns f \<noteq> []"
proof -
  obtain d table rest where args: "args = d # table # rest"
    using assms(3) by (cases args; cases "tl args") auto
  obtain m1 table' cols m2 where l: "fmt_loop A 0 args [] [] m1 = (Inr (table', cols), m2)"
    and f: "fmt_columns f = cols"
    using assms(2) by (auto simp: fmt_init_def Let_def split: prod.splits if_splits sum.splits)
  then have "fmt_loop A 2 rest table [] m1 = (Inr (table', cols), m2)" by (simp add: args numeral_2_eq_2)
  then have "map name_type cols = spec_columns A rest"
    using fmt_loop_columns [OF assms(1)] by fastforce
  moreover have "length (spec_columns A rest) \<noteq> 0"
    using assms(3) fmt_n_variables_spec [of d table rest A] by (simp add: args fmt_n_variables_def)
  ultimately show ?thesis using f by auto
qed

lemma fmt_init_combined_columns:
  assumes "toupper_law (ca_toupper A)" and "fmt_init_combined A m = (Inr f, m')"
  shows "fmt_columns f \<noteq> []"
proof -
  obtain m1 where "fmt_init A combined_format_elts m1 = (Inr f, m')"
    using assms(2) by (auto simp: fmt_init_combined_def Let_def split: prod.splits if_splits)
  moreover have "n_variables_from 0 combined_format_elts \<noteq> 0" by (simp add: combined_format_elts_def is_var_def)
  ultimately show ?thesis by (rule fmt_init_columns [OF assms(1)])
qed

text \<open>What the loop over the options keeps, and what it may have set.\<close>

definition opts_ok :: "'w directive_api \<Rightarrow> opts \<Rightarrow> bool" where
  "opts_ok A o1 \<longleftrightarrow> (op_size o1 = 0 \<or> 8 * da_pagesize A \<le> op_size o1) \<and> 0 \<le> op_max o1 \<and>
     (op_flush o1 = 0 \<or> 1000 \<le> op_flush o1)"

definition options_keep :: "'w conf_state \<Rightarrow> 'w conf_state \<Rightarrow> bool" where
  "options_keep cs cs' \<longleftrightarrow> cs_main cs' = cs_main cs \<and> cs_zones cs' = cs_zones cs \<and>
     sc_enabled (cs_srv cs') = sc_enabled (cs_srv cs) \<and> sc_filename (cs_srv cs') = sc_filename (cs_srv cs) \<and>
     sc_buf (cs_srv cs') = sc_buf (cs_srv cs)"

definition fmt_in_range :: "'w conf_state \<Rightarrow> bool" where
  "fmt_in_range cs \<longleftrightarrow> (\<forall>i. sc_fmt (cs_srv cs) = Some i \<longrightarrow> i < length (mc_formats (cs_main cs)))"

lemma opt_format_keeps:
  assumes "opt_format v cs = (rc, cs')" and "mc_formats (cs_main cs) \<noteq> []" and "fmt_in_range cs"
  shows "options_keep cs cs' \<and> fmt_in_range cs'"
proof -
  have "j < length (mc_formats (cs_main cs))" if "find_format v 0 (mc_formats (cs_main cs)) = Some j" for j
    using find_format_Some [OF that] by simp
  with assms show ?thesis
    by (auto simp: opt_format_def options_keep_def fmt_in_range_def Let_def split: if_splits option.splits)
qed

lemma one_option_keeps:
  assumes "one_option A v o1 cs = (rc, o2, cs')" and "opts_ok A o1" and "mc_formats (cs_main cs) \<noteq> []"
    and "fmt_in_range cs"
  shows "opts_ok A o2 \<and> options_keep cs cs' \<and> fmt_in_range cs'"
proof -
  have size: "(zs = n \<or> 8 * da_pagesize A \<le> zs) \<and> (\<exists>l as. c' = cs \<or> c' = conf_log l as cs)"
    if "opt_buffer A v n cs = (r, zs, c')" for n r zs c'
    using that by (auto simp: opt_buffer_def Let_def split: if_splits)
  have mx: "(k = n \<or> 0 < k) \<and> (\<exists>l as. c' = cs \<or> c' = conf_log l as cs)" if "opt_max A v n cs = (r, k, c')" for n r k c'
    using that by (auto simp: opt_max_def Let_def split: if_splits)
  have fl: "(k = n \<or> 1000 \<le> k) \<and> (\<exists>l as. c' = cs \<or> c' = conf_log l as cs)" if "opt_flush A v n cs = (r, k, c')" for n r k c'
    using that by (auto simp: opt_flush_def Let_def split: if_splits)
  have ini: "options_keep cs c' \<and> fmt_in_range c'" if "opt_init A v cs = (r, c')" for r c'
    using that assms(4) by (auto simp: opt_init_def Let_def options_keep_def fmt_in_range_def
        split: option.splits prod.splits)
  have cond: "options_keep cs c' \<and> fmt_in_range c'" if "opt_if A v cs = (r, c')" for r c'
  proof -
    obtain ok c1 where p: "cs_palloc cs = (ok, c1)" by (cases "cs_palloc cs")
    note k = cs_palloc_simps [OF p]
    show ?thesis
      using that p k assms(4)
      by (auto simp: opt_if_def options_keep_def fmt_in_range_def Let_def split: option.splits if_splits)
  qed
  have log: "options_keep cs (conf_log l as cs) \<and> fmt_in_range (conf_log l as cs)" for l as
    using assms(4) by (simp add: options_keep_def fmt_in_range_def)
  have same: "options_keep cs cs" by (simp add: options_keep_def)
  consider (b) n where "opt_buffer A v (op_size o1) cs = (rc, n, cs')" "o2 = o1\<lparr>op_size := n\<rparr>"
    | (m) n where "opt_max A v (op_max o1) cs = (rc, n, cs')" "o2 = o1\<lparr>op_max := n\<rparr>"
    | (f) n where "opt_flush A v (op_flush o1) cs = (rc, n, cs')" "o2 = o1\<lparr>op_flush := n\<rparr>"
    | (i) "opt_init A v cs = (rc, cs')" "o2 = o1" | (c) "opt_if A v cs = (rc, cs')" "o2 = o1"
    | (n) "opt_format v cs = (rc, cs')" "o2 = o1"
  proof -
    obtain rb nb cb where b: "opt_buffer A v (op_size o1) cs = (rb, nb, cb)" by (cases "opt_buffer A v (op_size o1) cs") auto
    obtain rm nm cm where m: "opt_max A v (op_max o1) cs = (rm, nm, cm)" by (cases "opt_max A v (op_max o1) cs") auto
    obtain rf nf cf where f: "opt_flush A v (op_flush o1) cs = (rf, nf, cf)" by (cases "opt_flush A v (op_flush o1) cs") auto
    obtain ri ci where i: "opt_init A v cs = (ri, ci)" by (cases "opt_init A v cs")
    obtain rc1 cc where c: "opt_if A v cs = (rc1, cc)" by (cases "opt_if A v cs")
    obtain rn cn where n: "opt_format v cs = (rn, cn)" by (cases "opt_format v cs")
    have "(rc, o2, cs') \<in> {(rb, o1\<lparr>op_size := nb\<rparr>, cb), (rm, o1\<lparr>op_max := nm\<rparr>, cm), (rf, o1\<lparr>op_flush := nf\<rparr>, cf),
        (ri, o1, ci), (rc1, o1, cc), (rn, o1, cn)}"
      using assms(1) b m f i c n by (simp add: one_option_def split: if_splits)
    with that b m f i c n show thesis by blast
  qed
  then show ?thesis
  proof cases
    case b
    with size [OF b(1)] log same assms(2,4) show ?thesis by (auto simp: opts_ok_def)
  next
    case m
    with mx [OF m(1)] log same assms(2,4) show ?thesis by (auto simp: opts_ok_def)
  next
    case f
    with fl [OF f(1)] log same assms(2,4) show ?thesis by (auto simp: opts_ok_def)
  next
    case i
    with ini [OF i(1)] assms(2) show ?thesis by simp
  next
    case c
    with cond [OF c(1)] assms(2) show ?thesis by simp
  next
    case n
    with opt_format_keeps [OF n(1) assms(3,4)] assms(2) show ?thesis by simp
  qed
qed

lemma options_keeps:
  "options A vs o1 cs = (rc, o2, cs') \<Longrightarrow> opts_ok A o1 \<Longrightarrow> mc_formats (cs_main cs) \<noteq> [] \<Longrightarrow> fmt_in_range cs \<Longrightarrow>
   opts_ok A o2 \<and> options_keep cs cs' \<and> fmt_in_range cs'"
proof (induction A vs o1 cs rule: options.induct)
  case (1 A o1 cs)
  then show ?case by (simp add: options_keep_def)
next
  case (2 A v vs o1 cs)
  obtain r o3 c where one: "one_option A v o1 cs = (r, o3, c)" by (cases "one_option A v o1 cs") auto
  note k = one_option_keeps [OF one 2(3-5)]
  show ?case
  proof (cases "r = Conf_ok")
    case False
    with 2(2) one k show ?thesis by simp
  next
    case True
    have rest: "options A vs o3 c = (rc, o2, cs')" using 2(2) one True by simp
    have ne: "mc_formats (cs_main c) \<noteq> []" using k 2(4) by (simp add: options_keep_def)
    have "opts_ok A o2 \<and> options_keep c cs' \<and> fmt_in_range cs'"
      using 2(1) [OF one [symmetric] refl refl _ rest] k ne True by simp
    with k show ?thesis by (simp add: options_keep_def)
  qed
qed

lemma default_format_spec:
  assumes "default_format A cs = (Conf_ok, cs')" and "toupper_law (ca_toupper (da_conf A))"
    and "formats_ok (cs_main cs)" and "fmt_in_range cs"
  shows "formats_ok (cs_main cs') \<and> cs_zones cs' = cs_zones cs \<and>
    sc_enabled (cs_srv cs') = sc_enabled (cs_srv cs) \<and> sc_filename (cs_srv cs') = sc_filename (cs_srv cs) \<and>
    sc_buf (cs_srv cs') = sc_buf (cs_srv cs) \<and> fmt_usable (cs_main cs') (sc_fmt (cs_srv cs')) \<and>
    formats_grow (cs_main cs) (cs_main cs')"
proof (cases "sc_fmt (cs_srv cs) = None \<or> sc_fmt (cs_srv cs) = Some 0")
  case False
  then obtain i where "sc_fmt (cs_srv cs) = Some i" "i \<noteq> 0" by auto
  with assms show ?thesis
    by (auto simp: default_format_def fmt_in_range_def formats_ok_def fmt_usable_def formats_grow_def)
next
  case True
  show ?thesis
  proof (cases "mc_combined_init (cs_main cs)")
    case init: True
    have "cs' = set_srv (sc_fmt_update (\<lambda>_. Some 0)) cs"
      using assms(1) True init by (auto simp: default_format_def Let_def)
    with assms(3) init show ?thesis by (auto simp: formats_ok_def fmt_usable_def formats_grow_def)
  next
    case False
    obtain f m where f: "fmt_init_combined (da_conf A) (cs_mem cs) = (Inr f, m)"
      and cs': "cs' = set_main (\<lambda>mc. mc\<lparr>mc_formats := (mc_formats mc)[0 := f], mc_combined_init := True\<rparr>)
        ((set_srv (sc_fmt_update (\<lambda>_. Some 0)) cs)\<lparr>cs_mem := m\<rparr>)"
      using assms(1) True False by (auto simp: default_format_def Let_def split: prod.splits sum.splits)
    have "fmt_columns f \<noteq> []" by (rule fmt_init_combined_columns [OF assms(2) f])
    with assms(3) False show ?thesis
      by (auto simp: cs' formats_ok_def fmt_usable_def formats_grow_def nth_list_update)
  qed
qed

lemma shm_zone_spec:
  assumes "shm_zone A zs f path cs = (r, cs')"
  shows "cs_main cs' = cs_main cs \<and> cs_srv cs' = cs_srv cs \<and> set (cs_zones cs) \<subseteq> set (cs_zones cs') \<and>
    (\<forall>name. r = Some name \<longrightarrow> (name, zs) \<in> set (cs_zones cs'))"
proof -
  obtain ok c1 where p: "cs_palloc cs = (ok, c1)" by (cases "cs_palloc cs")
  note k = cs_palloc_simps [OF p]
  from assms p k show ?thesis by (auto simp: shm_zone_def Let_def split: if_splits option.splits)
qed

lemma make_buffer_spec:
  assumes "make_buffer A o1 path cs = (Conf_ok, cs')" and "opts_ok A o1"
  shows "cs_main cs' = cs_main cs \<and> sc_enabled (cs_srv cs') = sc_enabled (cs_srv cs) \<and>
    sc_filename (cs_srv cs') = sc_filename (cs_srv cs) \<and> sc_fmt (cs_srv cs') = sc_fmt (cs_srv cs) \<and>
    sc_init_sql (cs_srv cs') = sc_init_sql (cs_srv cs) \<and>
    set (cs_zones cs) \<subseteq> set (cs_zones cs') \<and>
    (\<exists>name b. sc_buf (cs_srv cs') = Some (name, b) \<and> (name, op_size o1) \<in> set (cs_zones cs') \<and> 0 \<le> buf_max b \<and>
       (buf_flush b = 0 \<and> buf_event b = None \<or>
        1000 \<le> buf_flush b \<and> (\<exists>ev. buf_event b = Some ev \<and> timer_set ev = da_event_timer_set A)))"
proof -
  let ?f = "fmt_name (mc_formats (cs_main cs) ! the (sc_fmt (cs_srv cs)))"
  obtain zn c1 where z: "shm_zone A (op_size o1) ?f path cs = (zn, c1)"
    by (cases "shm_zone A (op_size o1) ?f path cs")
  note zs = shm_zone_spec [OF z]
  obtain ok2 c2 where p2: "cs_palloc c1 = (ok2, c2)" by (cases "cs_palloc c1")
  obtain ok3 c3 where p3: "cs_palloc c2 = (ok3, c3)" by (cases "cs_palloc c2")
  obtain ok4 c4 where p4: "cs_palloc c3 = (ok4, c4)" by (cases "cs_palloc c3")
  note k = cs_palloc_simps [OF p2] cs_palloc_simps [OF p3] cs_palloc_simps [OF p4]
  from assms z zs p2 p3 p4 k show ?thesis
    by (auto simp: make_buffer_def Let_def opts_ok_def split: option.splits if_splits)
qed

text \<open>A \<open>sqlitelog\<close> directive that is accepted and is not \<open>off\<close>.\<close>

lemma sqlitelog_accepted:
  assumes law: "toupper_law (ca_toupper (da_conf A))" and fm: "formats_ok (cs_main cs)"
    and fresh: "sc_fmt (cs_srv cs) = None" "sc_buf (cs_srv cs) = None"
    and run: "sqlitelog A args cs = (Conf_ok, cs')" and on: "\<not> da_off A (args ! 1)"
  shows "formats_ok (cs_main cs') \<and> formats_grow (cs_main cs) (cs_main cs') \<and>
    set (cs_zones cs) \<subseteq> set (cs_zones cs') \<and> sc_filename (cs_srv cs') = da_full_name A (args ! 1) \<and>
    srv_usable A (cs_main cs') (cs_zones cs') (cs_srv cs')"
proof -
  let ?c0 = "set_srv (sc_enabled_update (\<lambda>_. 1)) cs" and ?o0 = "\<lparr>op_size = 0, op_max = 0, op_flush = 0\<rparr>"
  have r1: "sqlitelog_on A (args ! 1) (drop 2 args) ?c0 = (Conf_ok, cs')"
    using run on by (simp add: sqlitelog_def split: if_splits)
  then obtain path where path: "da_full_name A (args ! 1) = Some path"
    by (auto simp: sqlitelog_on_def split: if_splits option.splits)
  let ?c1 = "set_srv (sc_filename_update (\<lambda>_. Some path)) ?c0"
  obtain ro o1 c2 where o: "options A (drop 2 args) ?o0 ?c1 = (ro, o1, c2)"
    by (cases "options A (drop 2 args) ?o0 ?c1") auto
  obtain rd c3 where d: "default_format A c2 = (rd, c3)" by (cases "default_format A c2")
  obtain rt sys where t: "db_test (da_sqlite A) (srv_db (cs_main c3) (cs_srv c3)) (cs_sys c3) = (rt, sys)"
    by (cases "db_test (da_sqlite A) (srv_db (cs_main c3) (cs_srv c3)) (cs_sys c3)")
  have ok: "ro = Conf_ok" "rd = Conf_ok" "rt = SQLITE_OK"
    and last: "if op_size o1 \<noteq> 0 then make_buffer A o1 path (c3\<lparr>cs_sys := sys\<rparr>) = (Conf_ok, cs')
      else cs' = c3\<lparr>cs_sys := sys\<rparr>"
    using r1 path o d t by (auto simp: sqlitelog_on_def Let_def split: if_splits)
  have ne: "mc_formats (cs_main ?c1) \<noteq> []" using fm by (simp add: formats_ok_def)
  have inr: "fmt_in_range ?c1" using fresh by (simp add: fmt_in_range_def)
  have k: "opts_ok A o1" "options_keep ?c1 c2" "fmt_in_range c2"
    using options_keeps [OF o _ ne inr] by (simp_all add: opts_ok_def)
  have fm2: "formats_ok (cs_main c2)" using k(2) fm by (simp add: options_keep_def)
  note ds = default_format_spec [OF d [unfolded ok(2)] law fm2 k(3)]
  have c3: "sc_enabled (cs_srv c3) = 1" "sc_filename (cs_srv c3) = Some path" "sc_buf (cs_srv c3) = None"
    using ds k(2) fresh by (simp_all add: options_keep_def)
  have fm3: "formats_ok (cs_main c3)" and idx: "fmt_usable (cs_main c3) (sc_fmt (cs_srv c3))"
    and grow: "formats_grow (cs_main cs) (cs_main c3)" and zs: "cs_zones c3 = cs_zones cs"
    using ds k(2) by (simp_all add: options_keep_def)
  have test: "\<exists>s s'. db_test (da_sqlite A) (srv_db (cs_main c3) (cs_srv c3)) s = (SQLITE_OK, s')"
    using t ok(3) by blast
  show ?thesis
  proof (cases "op_size o1 = 0")
    case True
    with last fm3 idx grow zs c3 path test show ?thesis by (simp add: srv_usable_def)
  next
    case False
    with last have mk: "make_buffer A o1 path (c3\<lparr>cs_sys := sys\<rparr>) = (Conf_ok, cs')" by simp
    note m = make_buffer_spec [OF mk k(1)]
    have "srv_db (cs_main cs') (cs_srv cs') = srv_db (cs_main c3) (cs_srv c3)"
      using m by (simp add: srv_db_def)
    moreover have "8 * da_pagesize A \<le> op_size o1" using k(1) False by (simp add: opts_ok_def)
    ultimately show ?thesis
      using m fm3 idx grow zs c3 path test by (auto simp: srv_usable_def buffer_ok_def)
  qed
qed

text \<open>An accepted \<open>sqlitelog_format\<close> appends one format, with a new name and at least one column.\<close>

lemma name_taken_iff: "name_taken name fs \<longleftrightarrow> (\<exists>f\<in>set fs. ngx_str_eq name (fmt_name f))"
  by (induction fs) auto

lemma sqlitelog_format_accepted:
  assumes "toupper_law (ca_toupper (da_conf A))" and "formats_ok (cs_main cs)"
    and "sqlitelog_format A args cs = (Conf_ok, cs')"
  shows "formats_ok (cs_main cs') \<and> formats_grow (cs_main cs) (cs_main cs') \<and> cs_srv cs' = cs_srv cs \<and>
    cs_zones cs' = cs_zones cs \<and> (\<exists>f. mc_formats (cs_main cs') = mc_formats (cs_main cs) @ [f] \<and> fmt_columns f \<noteq> [] \<and>
      \<not> ngx_str_eq_cs (args ! 1) ''combined'' \<and>
      (\<forall>g\<in>set (mc_formats (cs_main cs)). \<not> ngx_str_eq (args ! 1) (fmt_name g)))"
proof -
  obtain okp c1 where p: "cs_palloc cs = (okp, c1)" by (cases "cs_palloc cs")
  note k = cs_palloc_simps [OF p]
  obtain f m where f: "fmt_init (da_conf A) args (cs_mem c1) = (Inr f, m)"
    and cs': "cs' = set_main (\<lambda>mc. mc\<lparr>mc_formats := mc_formats mc @ [f]\<rparr>) (c1\<lparr>cs_mem := m\<rparr>)"
    and n: "n_variables_from 0 args \<noteq> 0" "\<not> ngx_str_eq_cs (args ! 1) ''combined''"
      "\<not> name_taken (args ! 1) (mc_formats (cs_main cs))" "\<not> mc_combined_init (cs_main cs)"
    using assms(3) p unfolding sqlitelog_format_def Let_def
    by (auto split: if_splits option.splits prod.splits sum.splits)
  have ne: "fmt_columns f \<noteq> []" by (rule fmt_init_columns [OF assms(1) f n(1)])
  have "formats_ok (cs_main cs') \<and> formats_grow (cs_main cs) (cs_main cs')"
    using assms(2) ne k(1) by (auto simp: cs' formats_ok_def formats_grow_def nth_append less_Suc_eq)
  with ne n(2,3) k show ?thesis by (auto simp: cs' name_taken_iff)
qed

text \<open>A new zone has an empty queue, and its blocks are those of the slab without the queue.\<close>

lemma init_shm_zone_fresh:
  assumes "init_shm_zone S None p = (NGX_OK, Some sh)"
  shows "entries sh = [] \<and> sh_ok live (live (sh_pool sh)) sh \<and> \<not> sh_held sh \<and> \<not> sh_fault sh"
  using assms by (auto simp: init_shm_zone_def entries_def sh_ok_def queue_blocks_def split: prod.splits option.splits)

section \<open>Examples\<close>

definition example_api :: "'w sqlite \<Rightarrow> 'w file_api \<Rightarrow> 'w directive_api" where
  "example_api S F = \<lparr>da_conf = example_conf, da_off = \<lambda>s. s = ''off'', da_full_name = \<lambda>p. Some (''/etc/nginx/'' @ p),
     da_parse_size = \<lambda>s. if s = ''64k'' then 65536 else NGX_ERROR,
     da_atoi = \<lambda>s. if s = ''2'' then 2 else NGX_ERROR,
     da_parse_time = \<lambda>s. if s = ''5s'' then 5000 else NGX_ERROR, da_pagesize = 4096, da_compile = Some,
     da_shm_add = \<lambda>name n zs. name \<notin> fst ` set zs, da_pool_add = \<lambda>p. True, da_pool_get = \<lambda>p. p = ''pool'',
     da_event_timer_set = False, da_files = F, da_sqlite = S\<rparr>"

definition no_files :: "'w file_api" where
  "no_files = \<lparr>fa_open = \<lambda>f w. (-1, w), fa_info = \<lambda>d w. (None, w), fa_read = \<lambda>d n w. ((-1, []), w),
     fa_close = \<lambda>d w. (0, w)\<rparr>"

definition unset_srv :: srv_conf where
  "unset_srv = \<lparr>sc_enabled = NGX_CONF_UNSET, sc_filename = None, sc_fmt = None, sc_init_sql = None,
     sc_buf = None, sc_filter = None\<rparr>"

definition example_directive :: "string list" where
  "example_directive = [''sqlitelog'', ''log.db'', ''f'', ''buffer=64k'', ''max=2'']"

lemma example_toupper: "toupper_law (ca_toupper (da_conf (example_api S F)))"
  using ascii_upper_law by (simp add: example_api_def example_conf_def)

section \<open>Properties\<close>

text \<open>
  C39. After merging, every server is either enabled or disabled. It is enabled when it has a
  \<open>sqlitelog\<close> of its own, or none while the parent has one, and in the second case it has all the
  settings of the parent; but a parent with \<open>sqlitelog off\<close> disables every server, also one with a
  \<open>sqlitelog\<close> of its own.
\<close>

theorem merge_decides:
  assumes "sc_enabled prev \<in> {NGX_CONF_UNSET, 0, 1}" and "sc_enabled conf \<in> {NGX_CONF_UNSET, 0, 1}"
    and "merge_srv_conf prev conf = c"
  shows "sc_enabled c \<in> {0, 1} \<and>
    (sc_enabled c = 1 \<longleftrightarrow> sc_enabled prev \<noteq> 0 \<and>
       (sc_enabled conf = 1 \<or> sc_enabled conf = NGX_CONF_UNSET \<and> sc_enabled prev = 1)) \<and>
    (sc_enabled c = 1 \<longrightarrow> c = (if sc_enabled conf = 1 then conf else prev))"
  using assms by (auto simp: merge_srv_conf_def)

theorem merge_decides_witness:
  "sc_enabled (merge_srv_conf (unset_srv\<lparr>sc_enabled := 0\<rparr>) (unset_srv\<lparr>sc_enabled := 1\<rparr>)) = 0"
  using merge_decides [of "unset_srv\<lparr>sc_enabled := 0\<rparr>" "unset_srv\<lparr>sc_enabled := 1\<rparr>", OF _ _ refl] by auto

end
