(* ===== verification/Module.thy ===== *)
theory Module
  imports Conf
begin

text \<open>
  The tables through which nginx calls \<open>ngx_http_sqlitelog_module.c\<close>, and the reading of a whole
  configuration: the directives that the table of commands allows in each context, in the order
  of the file, then the merging of every server with the \<open>http\<close> block.
\<close>

section \<open>The table of commands\<close>

text \<open>
  \<open>NGX_CONF_TAKE1\<close>, \<open>NGX_CONF_1MORE\<close> and \<open>NGX_CONF_2MORE\<close>; nginx counts the name of the directive
  as an argument. \<open>cm_main\<close> and \<open>cm_srv\<close> are the flags \<open>NGX_HTTP_MAIN_CONF\<close> and
  \<open>NGX_HTTP_SRV_CONF\<close>.
\<close>

datatype arity = Take_1 | More_1 | More_2

fun arity_ok :: "arity \<Rightarrow> nat \<Rightarrow> bool" where
  "arity_ok Take_1 n = (n = 2)"
| "arity_ok More_1 n = (2 \<le> n)"
| "arity_ok More_2 n = (3 \<le> n)"

datatype set_handler = Set_sqlitelog | Set_format | Set_async

record command =
  cm_name :: string
  cm_main :: bool
  cm_srv :: bool
  cm_arity :: arity
  cm_set :: set_handler

text \<open>The table; \<open>threads\<close> is \<open>NGX_THREADS\<close>.\<close>

definition commands :: "bool \<Rightarrow> command list" where
  "commands threads =
     [\<lparr>cm_name = ''sqlitelog'', cm_main = True, cm_srv = True, cm_arity = More_1, cm_set = Set_sqlitelog\<rparr>,
      \<lparr>cm_name = ''sqlitelog_format'', cm_main = True, cm_srv = False, cm_arity = More_2, cm_set = Set_format\<rparr>] @
     (if threads
      then [\<lparr>cm_name = ''sqlitelog_async'', cm_main = True, cm_srv = False, cm_arity = Take_1,
             cm_set = Set_async\<rparr>]
      else [])"

fun call_set ::
  "set_handler \<Rightarrow> 'w directive_api \<Rightarrow> string list \<Rightarrow> 'w conf_state \<Rightarrow> conf_rc \<times> 'w conf_state" where
  "call_set Set_sqlitelog A args cs = sqlitelog A args cs"
| "call_set Set_format A args cs = sqlitelog_format A args cs"
| "call_set Set_async A args cs = sqlitelog_async A args cs"

section \<open>The module context\<close>

text \<open>
  \<open>ngx_http_sqlitelog_init\<close>, after the configuration was read: one more handler in the log phase.
\<close>

definition sqlitelog_init :: "'h \<Rightarrow> mem \<Rightarrow> 'h list \<Rightarrow> int \<times> 'h list \<times> mem" where
  "sqlitelog_init log_handler m hs =
     (let (ok, m) = palloc m
      in if \<not> ok then (NGX_ERROR, hs, m) else (NGX_OK, hs @ [log_handler], m))"

section \<open>Reading a configuration\<close>

text \<open>
  What nginx holds while it reads the configuration: the main configuration of this module, its
  configuration of the \<open>http\<close> block and of each \<open>server\<close> block so far, memory, the rest of the
  world, and the shared zones.
\<close>

record 'w http_state =
  ht_main :: main_conf
  ht_http :: srv_conf
  ht_servers :: "srv_conf list"
  ht_mem :: mem
  ht_sys :: "'w sys"
  ht_zones :: "(string \<times> int) list"

definition http_start :: "mem \<Rightarrow> 'w sys \<Rightarrow> (string \<times> int) list \<Rightarrow> 'w http_state option" where
  "http_start m s zs =
     (case create_main_conf m of
        (None, m) \<Rightarrow> None
      | (Some mc, m) \<Rightarrow>
          (case create_srv_conf m of
             (None, m) \<Rightarrow> None
           | (Some sc, m) \<Rightarrow> Some \<lparr>ht_main = mc, ht_http = sc, ht_servers = [], ht_mem = m,
               ht_sys = s, ht_zones = zs\<rparr>))"

text \<open>What a directive sees in a context whose configuration is \<open>sc\<close>, and what it leaves behind.\<close>

definition directive_view :: "srv_conf \<Rightarrow> 'w http_state \<Rightarrow> 'w conf_state" where
  "directive_view sc h = \<lparr>cs_main = ht_main h, cs_srv = sc, cs_mem = ht_mem h, cs_sys = ht_sys h,
     cs_zones = ht_zones h\<rparr>"

definition after_directive :: "'w conf_state \<Rightarrow> 'w http_state \<Rightarrow> 'w http_state" where
  "after_directive cs h = h\<lparr>ht_main := cs_main cs, ht_mem := cs_mem cs, ht_sys := cs_sys cs,
     ht_zones := cs_zones cs\<rparr>"

text \<open>
  A directive that does not return \<open>NGX_CONF_OK\<close> ends the reading, so every step is a success.
  \<open>Elsewhere\<close> stands for the directives of other modules: they use memory and add zones.
\<close>

inductive conf_step :: "'w directive_api \<Rightarrow> bool \<Rightarrow> 'w http_state \<Rightarrow> 'w http_state \<Rightarrow> bool" for A threads where
  Open_server: "create_srv_conf (ht_mem h) = (Some sc, m) \<Longrightarrow>
    conf_step A threads h (h\<lparr>ht_servers := ht_servers h @ [sc], ht_mem := m\<rparr>)"
| In_http: "c \<in> set (commands threads) \<Longrightarrow> cm_main c \<Longrightarrow> args \<noteq> [] \<Longrightarrow> hd args = cm_name c \<Longrightarrow>
    arity_ok (cm_arity c) (length args) \<Longrightarrow>
    call_set (cm_set c) A args (directive_view (ht_http h) h) = (Conf_ok, cs) \<Longrightarrow>
    conf_step A threads h (after_directive cs (h\<lparr>ht_http := cs_srv cs\<rparr>))"
| In_server: "c \<in> set (commands threads) \<Longrightarrow> cm_srv c \<Longrightarrow> args \<noteq> [] \<Longrightarrow> hd args = cm_name c \<Longrightarrow>
    arity_ok (cm_arity c) (length args) \<Longrightarrow> i < length (ht_servers h) \<Longrightarrow>
    call_set (cm_set c) A args (directive_view (ht_servers h ! i) h) = (Conf_ok, cs) \<Longrightarrow>
    conf_step A threads h (after_directive cs (h\<lparr>ht_servers := (ht_servers h)[i := cs_srv cs]\<rparr>))"
| Elsewhere: "set (ht_zones h) \<subseteq> set zs \<Longrightarrow>
    conf_step A threads h (h\<lparr>ht_mem := m, ht_sys := s, ht_zones := zs\<rparr>)"

text \<open>When the configuration was read, every server block is merged with the \<open>http\<close> block.\<close>

definition merged :: "'w http_state \<Rightarrow> srv_conf list" where
  "merged h = map (merge_srv_conf (ht_http h)) (ht_servers h)"

section \<open>Proofs\<close>

text \<open>What the handlers of all directives keep.\<close>

lemma sqlitelog_step:
  assumes "toupper_law (ca_toupper (da_conf A))" and "formats_ok (cs_main cs)"
    and "srv_idle (cs_srv cs) \<or> srv_usable A (cs_main cs) (cs_zones cs) (cs_srv cs)"
    and "sqlitelog A args cs = (Conf_ok, cs')"
  shows "formats_ok (cs_main cs') \<and> formats_grow (cs_main cs) (cs_main cs') \<and>
    set (cs_zones cs) \<subseteq> set (cs_zones cs') \<and>
    (srv_idle (cs_srv cs') \<or> srv_usable A (cs_main cs') (cs_zones cs') (cs_srv cs'))"
proof -
  have "sc_filename (cs_srv cs) = None" using assms(4) by (auto simp: sqlitelog_def split: if_splits)
  with assms(3) have idle: "srv_idle (cs_srv cs)" by (auto simp: srv_usable_def)
  show ?thesis
  proof (cases "da_off A (args ! 1)")
    case True
    with assms(2,4) idle show ?thesis by (auto simp: sqlitelog_def srv_idle_def split: if_splits)
  next
    case False
    with sqlitelog_accepted [OF assms(1,2) _ _ assms(4)] idle show ?thesis by (simp add: srv_idle_def)
  qed
qed

lemma async_step:
  assumes "sqlitelog_async A args cs = (Conf_ok, cs')"
  shows "mc_formats (cs_main cs') = mc_formats (cs_main cs) \<and>
    mc_combined_init (cs_main cs') = mc_combined_init (cs_main cs) \<and> cs_srv cs' = cs_srv cs \<and>
    cs_zones cs' = cs_zones cs"
  using assms by (auto simp: sqlitelog_async_def Let_def split: if_splits)

lemma call_set_step:
  assumes "toupper_law (ca_toupper (da_conf A))" and "formats_ok (cs_main cs)"
    and "srv_idle (cs_srv cs) \<or> srv_usable A (cs_main cs) (cs_zones cs) (cs_srv cs)"
    and "call_set c A args cs = (Conf_ok, cs')"
  shows "formats_ok (cs_main cs') \<and> formats_grow (cs_main cs) (cs_main cs') \<and>
    set (cs_zones cs) \<subseteq> set (cs_zones cs') \<and>
    (srv_idle (cs_srv cs') \<or> srv_usable A (cs_main cs') (cs_zones cs') (cs_srv cs'))"
proof (cases c)
  case Set_sqlitelog
  with sqlitelog_step [OF assms(1-3)] assms(4) show ?thesis by simp
next
  case Set_format
  with assms(4) have "sqlitelog_format A args cs = (Conf_ok, cs')" by simp
  note f = sqlitelog_format_accepted [OF assms(1,2) this]
  with assms(3) srv_usable_grow [of A "cs_main cs" "cs_zones cs" "cs_srv cs" "cs_main cs'" "cs_zones cs'"]
  show ?thesis by auto
next
  case Set_async
  with assms(4) have "sqlitelog_async A args cs = (Conf_ok, cs')" by simp
  note a = async_step [OF this]
  then have "formats_ok (cs_main cs')" "formats_grow (cs_main cs) (cs_main cs')"
    using assms(2) by (simp_all add: formats_ok_def formats_grow_def)
  with a assms(3) srv_usable_grow [of A "cs_main cs" "cs_zones cs" "cs_srv cs" "cs_main cs'" "cs_zones cs'"]
  show ?thesis by auto
qed

text \<open>The invariant of the reading.\<close>

definition srv_state_ok :: "'w directive_api \<Rightarrow> main_conf \<Rightarrow> (string \<times> int) list \<Rightarrow> srv_conf \<Rightarrow> bool" where
  "srv_state_ok A mc zs sc \<longleftrightarrow> srv_idle sc \<or> srv_usable A mc zs sc"

definition http_ok :: "'w directive_api \<Rightarrow> 'w http_state \<Rightarrow> bool" where
  "http_ok A h \<longleftrightarrow> formats_ok (ht_main h) \<and> srv_state_ok A (ht_main h) (ht_zones h) (ht_http h) \<and>
     (\<forall>sc\<in>set (ht_servers h). srv_state_ok A (ht_main h) (ht_zones h) sc)"

lemma srv_state_ok_grow:
  "srv_state_ok A mc zs sc \<Longrightarrow> formats_grow mc mc' \<Longrightarrow> set zs \<subseteq> set zs' \<Longrightarrow> srv_state_ok A mc' zs' sc"
  by (auto simp: srv_state_ok_def dest: srv_usable_grow)

lemma http_start_ok: "http_start m s zs = Some h \<Longrightarrow> http_ok A h \<and> ht_servers h = []"
  by (auto simp: http_start_def create_main_conf_def create_srv_conf_def http_ok_def formats_ok_def
      srv_state_ok_def srv_idle_def Let_def split: prod.splits option.splits if_splits)

text \<open>A directive in the context of \<open>sc\<close> keeps the invariant of every other context.\<close>

lemma call_set_http_ok:
  assumes "toupper_law (ca_toupper (da_conf A))" and "http_ok A h"
    and "srv_state_ok A (ht_main h) (ht_zones h) sc"
    and "call_set c A args (directive_view sc h) = (Conf_ok, cs)"
  shows "http_ok A (after_directive cs h) \<and> srv_state_ok A (cs_main cs) (cs_zones cs) (cs_srv cs)"
proof -
  have "formats_ok (cs_main cs)" and grow: "formats_grow (ht_main h) (cs_main cs)" "set (ht_zones h) \<subseteq> set (cs_zones cs)"
    and "srv_state_ok A (cs_main cs) (cs_zones cs) (cs_srv cs)"
    using call_set_step [OF assms(1) _ _ assms(4)] assms(2,3)
    by (simp_all add: directive_view_def http_ok_def srv_state_ok_def)
  with assms(2) show ?thesis
    by (auto simp: http_ok_def after_directive_def intro: srv_state_ok_grow [OF _ grow])
qed

lemma conf_step_ok:
  assumes "toupper_law (ca_toupper (da_conf A))" and "conf_step A threads h h'" and "http_ok A h"
  shows "http_ok A h'"
  using assms(2)
proof cases
  case (Open_server sc m)
  then have "srv_idle sc" by (auto simp: create_srv_conf_def srv_idle_def Let_def split: prod.splits if_splits)
  with Open_server(1) assms(3) show ?thesis by (auto simp: http_ok_def srv_state_ok_def)
next
  case (In_http c args cs)
  have "srv_state_ok A (ht_main h) (ht_zones h) (ht_http h)" using assms(3) by (simp add: http_ok_def)
  from call_set_http_ok [OF assms(1,3) this In_http(7)] In_http(1) show ?thesis
    by (simp add: http_ok_def after_directive_def)
next
  case (In_server c args i cs)
  have "srv_state_ok A (ht_main h) (ht_zones h) (ht_servers h ! i)"
    using assms(3) In_server(7) by (simp add: http_ok_def)
  from call_set_http_ok [OF assms(1,3) this In_server(8)] In_server(1) show ?thesis
    by (auto simp: http_ok_def after_directive_def dest!: set_update_subset_insert [THEN subsetD])
next
  case (Elsewhere zs m s)
  with assms(3) show ?thesis by (auto simp: http_ok_def intro: srv_state_ok_grow)
qed

lemma conf_steps_ok:
  assumes "toupper_law (ca_toupper (da_conf A))"
  shows "(conf_step A threads)\<^sup>*\<^sup>* h h' \<Longrightarrow> http_ok A h \<Longrightarrow> http_ok A h'"
  by (induction rule: rtranclp_induct) (auto intro: conf_step_ok [OF assms])

lemma merged_usable:
  assumes "http_ok A h" and "sc \<in> set (merged h)"
  shows "sc_enabled sc \<in> {0, 1} \<and> (sc_enabled sc = 1 \<longrightarrow> srv_usable A (ht_main h) (ht_zones h) sc)"
proof -
  obtain child where c: "child \<in> set (ht_servers h)" "sc = merge_srv_conf (ht_http h) child"
    using assms(2) by (auto simp: merged_def)
  have ok: "srv_state_ok A (ht_main h) (ht_zones h) child" "srv_state_ok A (ht_main h) (ht_zones h) (ht_http h)"
    using assms(1) c(1) by (auto simp: http_ok_def)
  have enabled: "sc_enabled child \<in> {NGX_CONF_UNSET, 0, 1}" "sc_enabled (ht_http h) \<in> {NGX_CONF_UNSET, 0, 1}"
    using ok by (auto simp: srv_state_ok_def srv_idle_def srv_usable_def)
  then have one: "sc_enabled sc = 1 \<longrightarrow> sc = child \<and> sc_enabled child = 1 \<or> sc = ht_http h"
    using c(2) by (auto simp: merge_srv_conf_def)
  have "sc_enabled sc \<in> {0, 1}" using enabled c(2) by (auto simp: merge_srv_conf_def)
  with one ok show ?thesis by (auto simp: srv_state_ok_def srv_idle_def)
qed

section \<open>An example\<close>

text \<open>
  \<open>sqlitelog_format f $request $status;\<close> \<open>sqlitelog log.db f buffer=64k max=2;\<close> and one \<open>server\<close>
  block without directives, on the in-memory SQLite.
\<close>

definition http_directive ::
  "'w directive_api \<Rightarrow> set_handler \<Rightarrow> string list \<Rightarrow> 'w http_state \<Rightarrow> 'w http_state" where
  "http_directive A c args h =
     (let cs = snd (call_set c A args (directive_view (ht_http h) h))
      in after_directive cs (h\<lparr>ht_http := cs_srv cs\<rparr>))"

abbreviation mem_directives :: "mem_sqlite directive_api" where
  "mem_directives \<equiv> example_api mem_api no_files"

definition example_format_args :: "string list" where
  "example_format_args = [''sqlitelog_format'', ''f'', ''$request'', ''$status'']"

definition example_http_0 :: "mem_sqlite http_state" where
  "example_http_0 = the (http_start [] mem_start [])"

definition example_http_1 :: "mem_sqlite http_state" where
  "example_http_1 = http_directive mem_directives Set_format example_format_args example_http_0"

definition example_http_2 :: "mem_sqlite http_state" where
  "example_http_2 = http_directive mem_directives Set_sqlitelog example_directive example_http_1"

definition example_http :: "mem_sqlite http_state" where
  "example_http = example_http_2\<lparr>ht_servers := [unset_srv], ht_mem := []\<rparr>"

definition example_outcome :: "conf_rc \<times> mem \<times> int \<times> string option" where
  "example_outcome =
     (let (rc, cs) = call_set Set_sqlitelog mem_directives example_directive
            (directive_view (ht_http example_http_1) example_http_1)
      in (rc, cs_mem cs, sc_enabled (cs_srv cs), map_option fst (sc_buf (cs_srv cs))))"

lemma example_outcome_eval: "example_outcome = (Conf_ok, [], 1, Some ''sqlitelog_f_/etc/nginx/log.db'')"
  by code_simp

lemma example_http_eval:
  "http_start [] mem_start [] = Some example_http_0"
  "fst (call_set Set_format mem_directives example_format_args (directive_view (ht_http example_http_0) example_http_0)) = Conf_ok"
  "fst (call_set Set_sqlitelog mem_directives example_directive (directive_view (ht_http example_http_1) example_http_1)) = Conf_ok"
proof -
  show "http_start [] mem_start [] = Some example_http_0"
    by (simp add: example_http_0_def http_start_def create_main_conf_def create_srv_conf_def)
  show "fst (call_set Set_format mem_directives example_format_args
      (directive_view (ht_http example_http_0) example_http_0)) = Conf_ok"
    by code_simp
  show "fst (call_set Set_sqlitelog mem_directives example_directive
      (directive_view (ht_http example_http_1) example_http_1)) = Conf_ok"
    using example_outcome_eval by (simp add: example_outcome_def split: prod.splits)
qed

lemma http_directive_simps [simp]:
  "ht_servers (http_directive A c args h) = ht_servers h"
  "ht_mem (http_directive A c args h) = cs_mem (snd (call_set c A args (directive_view (ht_http h) h)))"
  "ht_http (http_directive A c args h) = cs_srv (snd (call_set c A args (directive_view (ht_http h) h)))"
  by (simp_all add: http_directive_def after_directive_def Let_def)

lemma example_http_2_eval:
  "ht_servers example_http_2 = []" "ht_mem example_http_2 = []" "sc_enabled (ht_http example_http_2) = 1"
  "map_option fst (sc_buf (ht_http example_http_2)) = Some ''sqlitelog_f_/etc/nginx/log.db''"
proof -
  have "ht_servers example_http_0 = []"
    by (simp add: example_http_0_def http_start_def create_main_conf_def create_srv_conf_def)
  then show "ht_servers example_http_2 = []"
    unfolding example_http_2_def example_http_1_def by simp
qed (use example_outcome_eval in \<open>simp_all add: example_http_2_def example_outcome_def split: prod.splits\<close>)

lemma example_merged: "merged example_http = [merge_srv_conf (ht_http example_http_2) unset_srv]"
  by (simp add: merged_def example_http_def)

lemma http_directive_step:
  assumes "\<lparr>cm_name = name, cm_main = True, cm_srv = srv, cm_arity = ar, cm_set = c\<rparr> \<in> set (commands threads)"
    and "args \<noteq> []" and "hd args = name" and "arity_ok ar (length args)"
    and "fst (call_set c A args (directive_view (ht_http h) h)) = Conf_ok"
  shows "conf_step A threads h (http_directive A c args h)"
proof -
  obtain cs where "call_set c A args (directive_view (ht_http h) h) = (Conf_ok, cs)"
    using assms(5) by (metis prod.collapse)
  with In_http [OF assms(1), of args A h cs] assms(2-4) show ?thesis by (simp add: http_directive_def)
qed

lemma example_http_reached: "(conf_step mem_directives True)\<^sup>*\<^sup>* example_http_0 example_http"
proof -
  have 1: "conf_step mem_directives True example_http_0 example_http_1"
    unfolding example_http_1_def
    by (rule http_directive_step [OF _ _ _ _ example_http_eval(2)])
      (auto simp: commands_def example_format_args_def)
  have 2: "conf_step mem_directives True example_http_1 example_http_2"
    unfolding example_http_2_def
    by (rule http_directive_step [OF _ _ _ _ example_http_eval(3)])
      (auto simp: commands_def example_directive_def)
  have "create_srv_conf (ht_mem example_http_2) = (Some unset_srv, [])"
    by (simp add: example_http_2_eval create_srv_conf_def unset_srv_def)
  from Open_server [OF this] have "conf_step mem_directives True example_http_2 example_http"
    by (simp add: example_http_2_eval example_http_def)
  with 1 2 show ?thesis
    by (blast intro: converse_rtranclp_into_rtranclp)
qed

section \<open>Properties\<close>

text \<open>
  C14. Whatever directives nginx reads, in whatever order and in whatever contexts, if it accepts
  them all then after merging every server is either disabled or ready to log: it has the path of
  a database, a format that exists and has at least one column, and this table and its INSERT were
  tested in memory against SQLite. A buffer has a shared zone of at least 8 pages, a maximum that
  is not negative, and a flush time and event only together, the time being at least one second.
\<close>

theorem accepted_configuration:
  assumes "toupper_law (ca_toupper (da_conf A))" and "http_start m s zs = Some h0"
    and "(conf_step A threads)\<^sup>*\<^sup>* h0 h" and "sc \<in> set (merged h)"
  shows "sc_enabled sc = 0 \<or>
    sc_enabled sc = 1 \<and> sc_filename sc \<noteq> None \<and>
    (\<exists>i. sc_fmt sc = Some i \<and> i < length (mc_formats (ht_main h)) \<and>
       fmt_columns (mc_formats (ht_main h) ! i) \<noteq> []) \<and>
    (\<exists>s s'. db_test (da_sqlite A) (srv_db (ht_main h) sc) s = (SQLITE_OK, s')) \<and>
    (\<forall>name b. sc_buf sc = Some (name, b) \<longrightarrow>
       (\<exists>n. (name, n) \<in> set (ht_zones h) \<and> 8 * da_pagesize A \<le> n) \<and> 0 \<le> buf_max b \<and>
       (buf_flush b = 0 \<and> buf_event b = None \<or> 1000 \<le> buf_flush b \<and> buf_event b \<noteq> None))"
proof -
  have "http_ok A h" using conf_steps_ok [OF assms(1,3)] http_start_ok [OF assms(2)] by blast
  from merged_usable [OF this assms(4)] show ?thesis
    by (auto simp: srv_usable_def fmt_usable_def buffer_ok_def)
qed

theorem accepted_configuration_witness:
  "\<exists>sc b n. merged example_http = [sc] \<and> sc_filename sc \<noteq> None \<and>
     sc_buf sc = Some (''sqlitelog_f_/etc/nginx/log.db'', b) \<and>
     (''sqlitelog_f_/etc/nginx/log.db'', n) \<in> set (ht_zones example_http) \<and> 32768 \<le> n"
proof -
  obtain sc where m: "merged example_http = [sc]" and sc: "sc = merge_srv_conf (ht_http example_http_2) unset_srv"
    using example_merged by blast
  then have on: "sc_enabled sc = 1" and "map_option fst (sc_buf sc) = Some ''sqlitelog_f_/etc/nginx/log.db''"
    using example_http_2_eval by (simp_all add: merge_srv_conf_def unset_srv_def)
  then obtain b where b: "sc_buf sc = Some (''sqlitelog_f_/etc/nginx/log.db'', b)" by auto
  have "sc \<in> set (merged example_http)" using m by simp
  note d = accepted_configuration [OF example_toupper example_http_eval(1) example_http_reached this]
  then obtain n where "(''sqlitelog_f_/etc/nginx/log.db'', n) \<in> set (ht_zones example_http)" "32768 \<le> n"
    using on b by (auto simp: example_api_def)
  with d m on b show ?thesis by auto
qed

end
