(* ===== verification/Reload.thy ===== *)
theory Reload
  imports Delivery Conf
begin

text \<open>
  What \<open>init_shm_zone\<close> does when nginx reloads: the zone of the new configuration takes over the
  queue of the old one (\<open>ngx_http_sqlitelog_module.c\<close>), whose entries have the columns that the
  format had when they were logged. \<open>buf_list\<close> (\<open>ngx_http_sqlitelog_buf.c\<close>) then cuts the fields of
  the queue into rows of the new width. Theory Spec2Isabelle has the reloads that keep the widths.
\<close>

section \<open>Cutting a list into rows\<close>

function chunks :: "nat \<Rightarrow> 'a list \<Rightarrow> 'a list list" where
  "chunks n xs = (if n = 0 \<or> xs = [] then [] else take n xs # chunks n (drop n xs))"
  by auto
termination by (relation "measure (\<lambda>(n, xs). length xs)") auto

declare chunks.simps [simp del]

lemma chunks_Nil [simp]: "chunks n [] = []"
  by (subst chunks.simps) simp

lemma chunks_step: "0 < n \<Longrightarrow> xs \<noteq> [] \<Longrightarrow> chunks n xs = take n xs # chunks n (drop n xs)"
  by (subst chunks.simps) simp

lemma chunks_within: "0 < n \<Longrightarrow> row \<in> set (chunks n xs) \<Longrightarrow> length row \<le> n"
proof (induction n xs rule: chunks.induct)
  case (1 n xs)
  then show ?case by (cases "xs = []") (auto simp: chunks_step)
qed

text \<open>Elements pushed to a list whose last part is full, or to a new list.\<close>

lemma add_elts_chunks:
  "0 < n \<Longrightarrow> ps \<noteq> [] \<Longrightarrow> length (last ps) = n \<Longrightarrow> foldl (add_elt n) ps xs = ps @ chunks n xs"
proof (induction n xs arbitrary: ps rule: chunks.induct)
  case (1 n xs)
  show ?case
  proof (cases xs)
    case (Cons x ys)
    have "foldl (add_elt n) (add_elt n ps x) (take (n - 1) ys) = ps @ [[x] @ take (n - 1) ys]"
      using add_elts_within [of "[x]" "take (n - 1) ys" n ps] "1.prems" by (simp add: add_elt_def)
    then have row: "foldl (add_elt n) ps (take n xs) = ps @ [take n xs]"
      using Cons "1.prems"(1) by (cases n) simp_all
    have split: "foldl (add_elt n) ps xs = foldl (add_elt n) (ps @ [take n xs]) (drop n xs)"
      using row by (metis append_take_drop_id foldl_append)
    show ?thesis
    proof (cases "n \<le> length xs")
      case True
      with "1.IH" [of "ps @ [take n xs]"] "1.prems"(1) Cons split show ?thesis by (simp add: chunks_step)
    next
      case False
      with "1.prems"(1) Cons split show ?thesis by (simp add: chunks_step)
    qed
  qed simp
qed

lemma new_list_chunks:
  assumes "0 < n"
  shows "foldl (add_elt n) [[]] xs = (if xs = [] then [[]] else chunks n xs)"
proof (cases "n \<le> length xs")
  case True
  have "foldl (add_elt n) [[]] (take n xs) = [take n xs]"
    using add_elts_within [of "[]" "take n xs" n "[]"] by simp
  then have "foldl (add_elt n) [[]] xs = foldl (add_elt n) [take n xs] (drop n xs)"
    by (metis append_take_drop_id foldl_append)
  also have "\<dots> = [take n xs] @ chunks n (drop n xs)" using True assms by (intro add_elts_chunks) simp_all
  finally show ?thesis using True assms by (auto simp: chunks_step)
next
  case False
  then show ?thesis using add_elts_within [of "[]" xs n "[]"] assms by (simp add: chunks_step)
qed

text \<open>Unless there is one short entry only, the first row is not an entry.\<close>

lemma mixed_row:
  assumes "\<forall>e\<in>set q. length e = a" and "0 < a" and "0 < n" and "n < a \<or> a < n \<and> 1 < length q" and "q \<noteq> []"
  shows "\<exists>row\<in>set (chunks n (concat q)). row \<notin> set q"
proof -
  have len: "length (concat q) = a * length q" using assms(1) by (induction q) auto
  then have "length (concat q) \<noteq> 0" using assms(2,5) by simp
  then have "concat q \<noteq> []" by (metis list.size(3))
  then have "take n (concat q) \<in> set (chunks n (concat q))" using assms(3) by (simp add: chunks_step)
  moreover have "length (take n (concat q)) \<noteq> a"
  proof (cases "n < a")
    case True
    then show ?thesis by auto
  next
    case False
    then have "2 \<le> length q" "a < n" using assms(4) by simp_all
    moreover have "a < a * length q" using assms(2) calculation(1) by simp
    ultimately show ?thesis using len by (simp add: min_def)
  qed
  ultimately show ?thesis using assms(1) by blast
qed

text \<open>Row number \<open>i\<close> has the fields from number \<open>i * n\<close> on; field number \<open>k\<close> is of entry \<open>k div a\<close>.\<close>

lemma chunks_nth: "0 < n \<Longrightarrow> i * n < length xs \<Longrightarrow> i < length (chunks n xs) \<and> chunks n xs ! i = take n (drop (i * n) xs)"
proof (induction i arbitrary: xs)
  case 0
  then show ?case by (simp add: chunks_step)
next
  case (Suc i)
  then have "xs \<noteq> []" "i * n < length (drop n xs)" by auto
  with Suc.IH [of "drop n xs"] Suc.prems(1) show ?case by (simp add: chunks_step add.commute)
qed

lemma chunks_length: "0 < n \<Longrightarrow> i < length (chunks n xs) \<Longrightarrow> i * n < length xs"
proof (induction i arbitrary: xs)
  case 0
  then show ?case by (cases "xs = []") simp_all
next
  case (Suc i)
  then have "xs \<noteq> []" by auto
  with Suc.IH [of "drop n xs"] Suc.prems show ?case by (simp add: chunks_step)
qed

lemma concat_nth_same:
  "0 < a \<Longrightarrow> \<forall>e\<in>set q. length e = a \<Longrightarrow> k < length (concat q) \<Longrightarrow> concat q ! k = q ! (k div a) ! (k mod a)"
proof (induction q arbitrary: k)
  case (Cons e q)
  show ?case
  proof (cases "k < a")
    case True
    with Cons.prems show ?thesis by (simp add: nth_append)
  next
    case False
    then have "concat (e # q) ! k = q ! ((k - a) div a) ! ((k - a) mod a)"
      using Cons.prems Cons.IH [of "k - a"] by (simp add: nth_append)
    with False Cons.prems(1) show ?thesis by (simp add: le_div_geq le_mod_geq)
  qed
qed simp

lemma chunk_fields:
  assumes "0 < a" and "0 < n" and "\<forall>e\<in>set q. length e = a"
    and "i < length (chunks n (concat q))" and "j < length (chunks n (concat q) ! i)"
  shows "chunks n (concat q) ! i ! j = q ! ((i * n + j) div a) ! ((i * n + j) mod a)"
proof -
  have i: "i * n < length (concat q)" by (rule chunks_length [OF assms(2,4)])
  note row = conjunct2 [OF chunks_nth [OF assms(2) i]]
  have "j < n \<and> j < length (concat q) - i * n" using assms(5) by (simp add: row)
  then have j: "j < n" "i * n + j < length (concat q)" by linarith+
  then have "chunks n (concat q) ! i ! j = concat q ! (i * n + j)" by (simp add: row)
  then show ?thesis using concat_nth_same [OF assms(1,3) j(2)] by simp
qed

text \<open>If the old width is no multiple of the new one, some row has fields of two entries.\<close>

lemma straddling_row:
  assumes "0 < a" and "0 < n" and "\<forall>e\<in>set q. length e = a" and "\<not> n dvd a" and "1 < length q"
  shows "\<exists>i<length (chunks n (concat q)). \<exists>j<length (chunks n (concat q) ! i). (i * n) div a \<noteq> (i * n + j) div a"
proof -
  let ?i = "a div n" and ?j = "a mod n"
  have a: "?i * n + ?j = a" "0 < ?j" "?j < n" using assms(2,4) by (simp_all add: dvd_eq_mod_eq_0)
  have len: "length (concat q) = a * length q" using assms(3) by (induction q) auto
  have "a * 1 < a * length q" using assms(1,5) by (intro mult_strict_left_mono) simp_all
  with len have le: "a < length (concat q)" by simp
  have "?i * n < length (concat q)" using a le by linarith
  note row = chunks_nth [OF assms(2) this]
  have "?j < length (concat q) - ?i * n" using a(1) le by linarith
  then have "?j < length (chunks n (concat q) ! ?i)" using row a(3) by simp
  moreover have "(?i * n) div a = 0" using a by (intro div_less) linarith
  moreover have "(?i * n + ?j) div a = 1" using a(1) assms(1) by simp
  ultimately show ?thesis using row by (intro exI [of _ ?i] conjI exI [of _ ?j]) simp_all
qed

section \<open>A flush after a reload\<close>

text \<open>A flush with memory available, on a queue that is not empty, of whatever width.\<close>

lemma flush_any_width:
  assumes laws: "slab_law (dp_slab D) live" "list_law (dp_list D) nalloc" and sh: "sh_ok live base (wd_sh wd)"
    and n: "length (fmt_columns (db_fmt (wd_db wd))) = n" "0 < n" and q: "concat (entries (wd_sh wd)) \<noteq> []"
    and mem: "ample (wd_mem wd)"
    and ins: "db_insert_list (dp_sqlite D) (wd_db wd) (chunks n (concat (entries (wd_sh wd)))) (wd_sys wd) = (rc, d, s)"
  shows "entries (wd_sh (buf_flush_sync D b wd)) = [] \<and> wd_db (buf_flush_sync D b wd) = d \<and>
    sq (wd_sys (buf_flush_sync D b wd)) = sq s"
proof -
  let ?wd = "wd\<lparr>wd_sh := snd (buf_get_len (wd_sh wd))\<rparr>"
  have len: "sh_len (wd_sh wd) \<noteq> 0" using sh q by (auto simp: sh_ok_def entries_def)
  then have f: "buf_flush_sync D b wd = (case buf_flush_locked D b ?wd of
      (None, wd) \<Rightarrow> wd | (Some rows, wd) \<Rightarrow> buf_flush_insert D rows wd)"
    by (simp add: buf_flush_sync_def buf_get_len_def buf_get_len_locked_def)
  define s1 where "s1 = need_lock (shmtx_lock (snd (buf_get_len (wd_sh wd))))"
  have s1: "sh_ok live base s1" "entries s1 = entries (wd_sh wd)"
    using sh by (simp_all add: s1_def buf_get_len_def buf_get_len_locked_def)
  obtain okp w1 where p: "create_pool ?wd = (okp, w1)" by (cases "create_pool ?wd")
  note pf = create_pool_frame [OF p]
  have okp and mem1: "ample (wd_mem w1)" using pf mem by simp_all
  obtain rl s2 m where l: "buf_list_locked (dp_slab D) (dp_list D) n (wd_mem w1) s1 = (rl, s2, m)"
    by (cases "buf_list_locked (dp_slab D) (dp_list D) n (wd_mem w1) s1") auto
  have "rl \<noteq> None" by (rule list_locked_ample [OF laws(2) mem1 l])
  moreover have "foldl (add_elt n) [[]] (concat (entries s1)) = chunks n (concat (entries (wd_sh wd)))"
    using new_list_chunks [OF n(2)] q s1(2) by metis
  ultimately obtain list where list: "rl = Some list" "entries s2 = []"
    "li_parts (dp_list D) list = chunks n (concat (entries (wd_sh wd)))"
    using list_locked_cases(4) [OF laws s1(1) l] by metis
  have "buf_flush_locked D b ?wd = (Some (li_parts (dp_list D) list),
      set_buf (buf_timer_reset b) (w1\<lparr>wd_mem := m, wd_sh := shmtx_unlock s2\<rparr>))"
    using len p \<open>okp\<close> l list(1) n(1) pf(2)
    by (simp add: buf_flush_locked_def buf_get_len_locked_def s1_def buf_get_len_def)
  with f list(2,3) ins pf(2,3) show ?thesis
    by (simp add: buf_flush_insert_def Let_def split: prod.splits)
qed

text \<open>
  C15. A format that is changed under its name: when nginx reloads with another number of columns, the
  zone keeps the entries of the old format. The first flush of a new worker, if it gets its memory
  and its insertion succeeds, cuts their fields, one after the other, into rows of the new width and
  commits these rows: field \<open>j\<close> of row \<open>i\<close> is field number \<open>i * n + j\<close> of the queue, whatever column
  it was logged for. If the old width \<open>a\<close> is no multiple of the new width \<open>n\<close> and there are two
  entries or more, some row has fields of two different requests; if the format became narrower, or
  wider with two entries or more, some row is none of the entries.
\<close>

theorem reload_mixes_entries:
  assumes "slab_law (dp_slab D) live" and "list_law (dp_list D) nalloc" and "sh_ok live base old"
    and "\<forall>e\<in>set (entries old). length e = a" and "0 < a" and "entries old \<noteq> []"
    and "init_shm_zone (dp_slab D) (Some old) p = (rc, Some (wd_sh wd))"
    and "length (fmt_columns (db_fmt (wd_db wd))) = n" and "0 < n" and "ample (wd_mem wd)"
    and "sqlite_law (dp_sqlite D) V (db_fmt (wd_db wd))" and "conn_law (dp_sqlite D) conns"
    and "db_conn (wd_db wd) = Some c" and "chunks n (concat (entries old)) = rows"
    and "db_insert_list (dp_sqlite D) (wd_db wd) rows (wd_sys wd) = (SQLITE_OK, d, s)"
  shows "rc = NGX_OK \<and> entries (wd_sh (buf_flush_sync D b wd)) = [] \<and>
    commits (dp_sqlite D) V (wd_db wd) (map (padded n) rows) (wd_sys wd) d s \<and>
    sq (wd_sys (buf_flush_sync D b wd)) = sq s \<and>
    (\<forall>i<length rows. \<forall>j<length (rows ! i).
       rows ! i ! j = entries old ! ((i * n + j) div a) ! ((i * n + j) mod a)) \<and>
    (\<not> n dvd a \<and> 1 < length (entries old) \<longrightarrow>
       (\<exists>i<length rows. \<exists>j<length (rows ! i). (i * n) div a \<noteq> (i * n + j) div a)) \<and>
    (n < a \<or> a < n \<and> 1 < length (entries old) \<longrightarrow> (\<exists>row\<in>set rows. row \<notin> set (entries old)))"
proof -
  have z: "rc = NGX_OK" "wd_sh wd = old" using assms(7) by (simp_all add: init_shm_zone_def)
  have ins: "db_insert_list (dp_sqlite D) (wd_db wd) (chunks n (concat (entries old))) (wd_sys wd) = (SQLITE_OK, d, s)"
    using assms(14,15) by simp
  have "concat (entries old) \<noteq> []" using assms(4-6) by (cases "entries old") auto
  with flush_any_width [OF assms(1,2) _ assms(8,9) _ assms(10), of base] assms(3) ins z
  have "entries (wd_sh (buf_flush_sync D b wd)) = [] \<and> sq (wd_sys (buf_flush_sync D b wd)) = sq s" by simp
  moreover have "commits (dp_sqlite D) V (wd_db wd) (map (padded n) rows) (wd_sys wd) d s"
    using insert_list_commits [OF assms(11-13) _ assms(15)] chunks_within [OF assms(9), of _ "concat (entries old)"]
      assms(8,14) by blast
  moreover have "\<forall>i<length rows. \<forall>j<length (rows ! i).
       rows ! i ! j = entries old ! ((i * n + j) div a) ! ((i * n + j) mod a)"
    using chunk_fields [OF assms(5,9,4)] assms(14) by blast
  ultimately show ?thesis
    using z mixed_row [OF assms(4,5,9) _ assms(6)] straddling_row [OF assms(5,9,4)] assms(14) by blast
qed

text \<open>Two entries of a format with one column, and a new worker whose format has two.\<close>

definition old_zone :: "slab_state shctx" where
  "old_zone = snd (buf_push example_slab (example_buf 5) [Some [66]]
     (snd (buf_push example_slab (example_buf 5) [Some [65]] (example_shctx 8))))"

definition reload_world :: "(mem_sqlite, slab_state) world" where
  "reload_world = (example_world mem_start (Some (example_buf 5)) False 8)\<lparr>wd_sh := old_zone\<rparr>"

lemma old_zone_eval: "entries old_zone = [[Some [65]], [Some [66]]]"
  by code_simp

lemma old_zone_ok: "sh_ok example_live {} old_zone"
proof -
  have push: "between_locks example_live {} (snd (buf_push example_slab (example_buf 5) e sh))"
    if "between_locks example_live {} sh" for e sh
    by (rule push_between_locks [OF example_slab_law that])
  have "between_locks example_live {} old_zone" unfolding old_zone_def by (intro push example_between_locks)
  then show ?thesis by (simp add: between_locks_def)
qed

lemma reload_insert_eval:
  "fst (db_insert_list mem_api mem_db (chunks 2 [Some [65], Some [66]]) mem_start) = SQLITE_OK"
  by code_simp

theorem reload_mixes_entries_witness:
  "\<exists>d s. entries old_zone = [[Some [65]], [Some [66]]] \<and>
     commits mem_api mem_view mem_db [[Some [65], Some [66]]] mem_start d s \<and>
     sq (wd_sys (buf_flush_sync (example_deps mem_api) (example_buf 5) reload_world)) = sq s"
proof -
  let ?D = "example_deps mem_api"
  obtain d s where ins: "db_insert_list mem_api mem_db (chunks 2 [Some [65], Some [66]]) mem_start = (SQLITE_OK, d, s)"
    using reload_insert_eval by (metis prod.collapse)
  have rows: "chunks 2 [Some [65], Some [66 :: byte]] = [[Some [65], Some [66]]]" by (simp add: chunks_step)
  have wd: "wd_db reload_world = mem_db" "wd_sh reload_world = old_zone" "wd_mem reload_world = []"
    "wd_sys reload_world = mem_start"
    by (simp_all add: reload_world_def)
  have zone: "init_shm_zone (dp_slab ?D) (Some old_zone) (0, []) = (NGX_OK, Some (wd_sh reload_world))"
    by (simp add: init_shm_zone_def wd)
  have rows': "chunks 2 (concat (entries old_zone)) = [[Some [65], Some [66 :: byte]]]"
    using rows by (simp add: old_zone_eval)
  have "commits mem_api mem_view mem_db (map (padded 2) [[Some [65], Some [66]]]) mem_start d s \<and>
      sq (wd_sys (buf_flush_sync ?D (example_buf 5) reload_world)) = sq s"
    using reload_mixes_entries [where D = ?D and b = "example_buf 5" and c = 1 and a = 1 and n = 2, OF _ _ old_zone_ok _ _ _ zone _ _ _ _ _ _ rows',
        of fst mem_view mem_conns d s]
      example_slab_law example_list_law mem_sqlite_law mem_conn_law ins old_zone_eval wd rows by simp
  with old_zone_eval show ?thesis by auto
qed

end
