(* ===== verification/Spec2Isabelle.thy ===== *)
theory Spec2Isabelle
  imports Strings Escape Op Column Node Buffer Sqlite Sqlite_Laws Db Handler Pipeline Delivery Concurrency
    Site Threads Interleaving Refinement System File Worker Process Conf Module Reload
begin

text \<open>
  Verification development for ngx-sqlitelog, an nginx module that writes the access log into
  SQLite databases.

  \<^bold>\<open>The program.\<close> The directives \<open>sqlitelog_format\<close>, \<open>sqlitelog\<close> and \<open>sqlitelog_async\<close> are read
  into one main configuration and one configuration per server. A format has columns; each column
  has an operation, which computes the text of a variable for a request, and a binder, which hands
  it to SQLite. In the log phase the handler builds a log entry with one field per column. Without
  a buffer it inserts the entry at once. With a buffer it pushes the entry into a queue in shared
  memory, which all workers use under a mutex; a full queue is taken out and inserted in one
  transaction, and a timer flushes it. With a thread pool the insertions run as tasks in threads.
  A database whose file was moved is reopened. An error in a handler closes the database and
  disables the module for the worker.

  \<^bold>\<open>Theories and sources\<close> (file names are those of \<open>src/src\<close>, without the prefix
  \<open>ngx_http_sqlitelog_\<close>):

  \<^item> \<open>Prelude\<close>: return codes, bytes, \<open>ngx_str_t\<close> as an optional byte list (\<open>None\<close> is a NULL
    pointer), the schedule of allocations that fail, bounded writes into a buffer, shared list
    lemmas.
  \<^item> \<open>Strings\<close>: the macros of \<open>util.h\<close>. \<open>Escape\<close>: \<open>op_escape\<close> of \<open>op.c\<close>, the counting and the
    writing pass.
  \<^item> \<open>Op\<close>: the length and run functions of \<open>op.c\<close>, the table of \<open>var.h\<close>, and \<open>log_entry\<close> of
    \<open>module.c\<close>.
  \<^item> \<open>Column\<close>: \<open>col.c\<close>, \<open>sql.c\<close> and \<open>fmt.c\<close>: columns, the CREATE and INSERT texts, formats.
  \<^item> \<open>Node\<close>, \<open>Buffer\<close>: \<open>node.c\<close> and the queue of \<open>buf.c\<close> over nginx's slab allocator; the record
    \<open>shctx\<close> is the shared context with its queue, length, mutex and pool. The flush of \<open>buf.c\<close> is
    in \<open>Handler\<close>.
  \<^item> \<open>Sqlite\<close>: the wrappers of \<open>sqlite3.c\<close>. \<open>Sqlite_Laws\<close>: what SQLite documents, and a small
    SQLite in memory that keeps it. \<open>Db\<close>: \<open>db.c\<close>.
  \<^item> \<open>Handler\<close>: the request handlers of \<open>module.c\<close>, the flush handlers of \<open>buf.c\<close>, and \<open>thread.c\<close>,
    over the record \<open>world\<close>, all that one worker sees. \<open>Pipeline\<close>: what they do, and the invariant
    \<open>world_ok\<close> that each keeps. \<open>Delivery\<close>: the properties of an entry's way through a worker.
  \<^item> \<open>Concurrency\<close>, \<open>Site\<close>, \<open>Threads\<close>, \<open>Interleaving\<close>: the handlers and the tasks cut into atomic
    actions, and any interleaving of the actions of workers with one server and of their threads.
  \<^item> \<open>File\<close>: \<open>file.c\<close>. \<open>Worker\<close>: what \<open>init_worker\<close> and \<open>exit_worker\<close> of \<open>module.c\<close> do for one
    server. \<open>Process\<close>: the whole worker process with all its servers, which may share buffers,
    flush events and zones; its record \<open>process\<close> has one \<open>slot\<close> per server, and \<open>srv_view\<close> is the
    \<open>world\<close> of one.
  \<^item> \<open>Conf\<close>: the directives of \<open>module.c\<close>, and the creation and merging of configurations.
    \<open>Module\<close>: the table of commands, the registration of the handler, and the reading of a whole
    configuration as a step relation.
  \<^item> \<open>Refinement\<close>: the whole handlers, from the filter to the label \<open>failed\<close>, as sequences of those
    actions. \<open>System\<close>: any number of worker processes, each with all its servers and with threads,
    that start and exit while others run, on all their zones; the record \<open>system\<close> has one
    \<open>process\<close> per worker.
  \<^item> \<open>Reload\<close>: what becomes of the queue when nginx reloads with another format. This theory joins the
    two ends: from configurations that were accepted to the worker processes that they start, and
    all their interleavings, across reloads.

  \<^bold>\<open>How the code is represented.\<close> Structures are records, and every operation takes and returns
  the state it can touch: \<open>sys\<close> is SQLite (or the file system) with the error log and a flag for
  undefined behaviour, \<open>mem\<close> the outcomes of the allocations to come (an empty schedule succeeds
  for ever, \<open>ample\<close> says that none fails), \<open>shctx\<close> the zone. Its field \<open>sh_fault\<close> is set by any
  access without the mutex, by a second lock and by an unlock of a free mutex. C integers are
  \<open>int\<close> where the code only counts, \<open>nat\<close> for lengths, and words where bits and bytes matter. A
  write past the end of a buffer is \<open>None\<close> or raises a flag; it is never cut off silently.

  \<^bold>\<open>Code outside the repository\<close> is a parameter: nginx's slab (\<open>slab\<close>, \<open>slab_law\<close>), lists
  (\<open>list_api\<close>, \<open>list_law\<close>), variables, time strings and number conversions (\<open>ngx_env\<close>),
  configuration functions (\<open>conf_api\<close>, \<open>toupper_law\<close>, \<open>sprintf_V_law\<close>), the system calls of
  \<open>file.c\<close> (\<open>file_api\<close>, \<open>file_law\<close>), and SQLite (\<open>sqlite\<close>). The laws of SQLite are \<open>sqlite_law\<close>
  (prepared statements, steps and transactions, seen through a view of the rows of each
  connection), \<open>conn_law\<close> (opening and closing), \<open>null_conn_law\<close> and \<open>null_prepare_law\<close> (a NULL
  connection is refused), \<open>nested_begin_law\<close> (so is a transaction in a transaction) and
  \<open>sleep_law\<close>. Each law is a documented behaviour, is named in every
  theorem that uses it, and is shown to hold of a concrete instance on which the witnesses run.

  \<^bold>\<open>What is shown.\<close>

  \<^item> Text: lengths computed by a first pass are those written by the second; escaping is reversible
    and leaves printable ASCII only; a log entry has exactly the fields of its columns, no field
    is longer than the limit, and the operations that \<open>op_compile\<close> chooses never overrun a buffer,
    except where a variable is evaluated twice with different results.
  \<^item> The queue: locale \<open>entry_queue\<close> states the contract of a queue (pushed entries come out once
    and in order), its interpretation proves it of \<open>buf.c\<close> on the slab.
  \<^item> The database: a list is committed completely or not at all, and once; the locale \<open>retrying\<close>
    holds what single rows and lists share: at most one repetition, on a new connection.
  \<^item> The handlers: the mutex is never taken twice nor left locked; where an entry is after each
    result; what an error loses; which pools are destroyed; when the timer is armed.
  \<^item> All workers: locale \<open>accounting\<close> lifts the balance of one action to every interleaving; theory
    \<open>System\<close> uses its interpretation for each zone of a system with many servers. Nothing is lost
    without an error nor stored twice, and what counts as stored is committed, on the database of the
    server that had it, or on the copy that a task took of that database.
  \<^item> Refinement: the handlers as theory \<open>Handler\<close> writes them, and the worker process of theory
    \<open>Process\<close> that runs one of them at a time and exits, are particular interleavings of actions.
  \<^item> The life of the module: what an accepted configuration guarantees to the workers, starting,
    exiting, which database a shared flush event writes to, and all of it joined in this theory.

  \<^bold>\<open>Termination and bounds.\<close> No fuel is used. The loops over lists are structural; the scan for
  placeholders, the loop over the arguments of a format, the reduction of the random number and
  the loop of the checkpoint are total functions with a measure (the checkpoint's is the time that
  is left of the busy timeout, every sleep being at least 50 ms).

  \<^bold>\<open>Not modelled, and why.\<close>

  \<^item> The sizes of a CREATE text are numbers without a bound: a \<open>size_t\<close> wraps only for texts that no
    configuration file can hold. (The INSERT text is computed with 64 bits.)
  \<^item> Debug messages and \<open>exit_master\<close>, which only writes one: no effect on any state of the
    program.
  \<^item> The timing of critical sections: an action holds the mutex from its start to its end, as the
    theorems on the mutex show. An insertion into SQLite is one action too. For workers this is
    SQLite's locking of the file; for two threads of one worker, which share a connection, it is
    an assumption that the code does not ensure (theory \<open>Interleaving\<close>, \<open>second_list_refused\<close>,
    shows what a second list then meets). The same holds for nginx's timers, which the threads reset,
    and for the database that a handler closes during the flush of a thread.
  \<^item> Processes and threads are nginx's: in theory \<open>System\<close> workers start and exit at any time, and
    \<open>init_worker\<close> is one action, but no worker is killed. A thread pool runs the tasks of a server in
    the order in which they were posted, and may give each server any number of threads. When nginx
    reloads, a zone that both configurations have goes on; one that a configuration drops and a
    later one has again would be new in nginx and goes on here.
  \<^item> The addresses of formats: a later \<open>sqlitelog_format\<close> may move nginx's array, to which servers
    point; the model names formats by index. What a format that was refused leaves half filled is
    not visible, since nginx stops then.
  \<^item> What other connections see of a database during its checkpoint, and the rows of a connection
    after it was closed: the laws of SQLite say nothing about them.
\<close>

section \<open>From the configuration to the worker process\<close>

text \<open>
  The process that a worker starts with: buffer number 0 is that of the \<open>http\<close> block, which all
  servers without a \<open>sqlitelog\<close> of their own inherit, buffer \<open>i + 1\<close> that of server number \<open>i\<close>.
  Servers with zones of the same name and size have the same zone. When nginx reloads, the workers
  of the next configuration start while those of the old one exit, and \<open>init_shm_zone\<close> takes over
  each zone that both have; \<open>g\<close> is the number of the configuration.
\<close>

definition inherits :: "'w http_state \<Rightarrow> srv_conf \<Rightarrow> bool" where
  "inherits h c \<longleftrightarrow> sc_enabled (ht_http h) = 1 \<and> sc_enabled c = NGX_CONF_UNSET"

definition conf_buffer :: "srv_conf \<Rightarrow> shared_buf" where
  "conf_buffer c = \<lparr>sb_buf =
     (case sc_buf c of None \<Rightarrow> \<lparr>buf_max = 0, buf_flush = 0, buf_event = None\<rparr> | Some (n, b) \<Rightarrow> b), sb_db = None\<rparr>"

definition conf_zone :: "nat \<Rightarrow> 'w http_state \<Rightarrow> nat \<Rightarrow> srv_conf \<Rightarrow> zone_id" where
  "conf_zone g h i sc =
     (case sc_buf sc of None \<Rightarrow> No_zone g i | Some (name, b) \<Rightarrow> Zone name (the (map_of (ht_zones h) name)))"

definition conf_slot :: "nat \<Rightarrow> 'w http_state \<Rightarrow> nat \<Rightarrow> slot" where
  "conf_slot g h i =
     (let c = ht_servers h ! i; sc = merge_srv_conf (ht_http h) c
      in \<lparr>sl_srv = worker_srv (ht_main h) sc,
          sl_buf = (if sc_buf sc = None then None else Some (if inherits h c then 0 else i + 1)),
          sl_zone = conf_zone g h i sc, sl_pools = 0, sl_blocked = 0, sl_tasks = []\<rparr>)"

definition configured_process ::
  "nat \<Rightarrow> 'w http_state \<Rightarrow> (zone_id \<Rightarrow> 'p shctx) \<Rightarrow> mem \<Rightarrow> bool \<Rightarrow> 'w sys \<Rightarrow> ('w, 'p) process" where
  "configured_process g h zones m tp s = \<lparr>pr_sys = s, pr_mem = m, pr_tp = tp, pr_zones = zones,
     pr_bufs = map conf_buffer (ht_http h # ht_servers h),
     pr_srvs = map (\<lambda>i. Some (conf_slot g h i)) [0..<length (ht_servers h)]\<rparr>"

text \<open>
  Enabled servers that have the same zone have formats with the same number of columns, those of
  different configurations too. For the servers of one configuration this holds unless a format
  name contains a slash: the name of a zone is made of the names of the format and the file (lemma
  \<open>zone_name_determines\<close>). For several configurations it holds if no format is changed under its
  name (theorem \<open>reload_mixes_entries\<close> in theory Reload shows what happens otherwise).
\<close>

definition slot_width :: "slot \<Rightarrow> nat" where
  "slot_width s = length (fmt_columns (db_fmt (sv_db (sl_srv s))))"

definition conf_slots :: "'w http_state list \<Rightarrow> slot list" where
  "conf_slots hs =
     [conf_slot g (hs ! g) i. g \<leftarrow> [0..<length hs], i \<leftarrow> [0..<length (ht_servers (hs ! g))]]"

definition zones_agree :: "'w http_state list \<Rightarrow> bool" where
  "zones_agree hs \<longleftrightarrow>
     (\<forall>s\<in>set (conf_slots hs). \<forall>t\<in>set (conf_slots hs). sv_enabled (sl_srv s) \<noteq> 0 \<and> sv_enabled (sl_srv t) \<noteq> 0 \<and>
        sl_zone s = sl_zone t \<longrightarrow> slot_width s = slot_width t)"

text \<open>The configurations that nginx accepted.\<close>

definition accepted_conf :: "'w directive_api \<Rightarrow> bool \<Rightarrow> 'w http_state \<Rightarrow> bool" where
  "accepted_conf A threads h \<longleftrightarrow>
     (\<exists>m s zs h0. http_start m s zs = Some h0 \<and> (conf_step A threads)\<^sup>*\<^sup>* h0 h)"

lemma accepted_conf_ok: "toupper_law (ca_toupper (da_conf A)) \<Longrightarrow> accepted_conf A threads h \<Longrightarrow> http_ok A h"
  using conf_steps_ok http_start_ok unfolding accepted_conf_def by blast

lemma zone_name_determines:
  assumes "CHR ''/'' \<notin> set f" and "CHR ''/'' \<notin> set f'" and "hd path = CHR ''/''" and "hd path' = CHR ''/''"
    and "path \<noteq> []" and "path' \<noteq> []" and "''sqlitelog_'' @ f @ ''_'' @ path = ''sqlitelog_'' @ f' @ ''_'' @ path'"
  shows "f = f' \<and> path = path'"
proof -
  let ?no = "\<lambda>c. c \<noteq> CHR ''/''"
  have take: "takeWhile ?no ((g @ ''_'') @ p) = g @ ''_'' \<and> dropWhile ?no ((g @ ''_'') @ p) = p"
    if "CHR ''/'' \<notin> set g" "hd p = CHR ''/''" "p \<noteq> []" for g p :: string
    using that by (cases p) (auto simp: takeWhile_append dropWhile_append)
  have "(f @ ''_'') @ path = (f' @ ''_'') @ path'" using assms(7) by simp
  with take [OF assms(1,3,5)] take [OF assms(2,4,6)] show ?thesis by (metis append_same_eq)
qed

lemma conf_context:
  assumes "http_ok A h" and "\<not> da_event_timer_set A" and "c = ht_http h \<or> c \<in> set (ht_servers h)"
  shows "\<not> timer_on (sb_buf (conf_buffer c)) \<and> sb_db (conf_buffer c) = None"
proof -
  have "srv_idle c \<or> srv_usable A (ht_main h) (ht_zones h) c"
    using assms(1,3) by (auto simp: http_ok_def srv_state_ok_def)
  with assms(2) show ?thesis
    by (auto simp: srv_idle_def srv_usable_def buffer_ok_def conf_buffer_def timer_on_def split: option.split)
qed

lemma configured_unstarted:
  assumes "http_ok A h" and "\<not> da_event_timer_set A"
  shows "unstarted (configured_process g h zones m tp s)"
proof -
  have "\<not> timer_on (sb_buf (map conf_buffer (ht_http h # ht_servers h) ! k)) \<and>
      sb_db (map conf_buffer (ht_http h # ht_servers h) ! k) = None" if "k \<le> length (ht_servers h)" for k
    using that conf_context [OF assms, of "(ht_http h # ht_servers h) ! k"]
    by (cases k) auto
  then show ?thesis
    by (simp add: unstarted_def configured_process_def conf_slot_def worker_srv_def srv_db_def Let_def
        less_Suc_eq_le)
qed

text \<open>A width for every zone, given widths of the users of each zone that agree.\<close>

lemma common_width:
  assumes "\<And>i j. P i \<Longrightarrow> P j \<Longrightarrow> f i = f j \<Longrightarrow> W i = W j" and "\<And>i. P i \<Longrightarrow> 0 < (W i :: nat)"
  obtains w where "\<And>i. P i \<Longrightarrow> w (f i) = W i" and "\<And>k. 0 < w k"
proof
  let ?w = "\<lambda>k. if \<exists>i. P i \<and> f i = k then W (SOME i. P i \<and> f i = k) else 1"
  have some: "P (SOME i. P i \<and> f i = k) \<and> f (SOME i. P i \<and> f i = k) = k" if "\<exists>i. P i \<and> f i = k" for k
    using someI_ex [OF that] .
  show "?w (f i) = W i" if "P i" for i
  proof -
    have ex: "\<exists>j. P j \<and> f j = f i" using that by blast
    then show ?thesis using assms(1) [OF _ that] some [OF ex] by simp
  qed
  show "0 < ?w k" for k using some [of k] assms(2) by simp
qed

lemma conf_slot_usable:
  assumes "http_ok A h" and "i < length (ht_servers h)" and "sv_enabled (sl_srv (conf_slot g h i)) \<noteq> 0"
  shows "0 < slot_width (conf_slot g h i)"
proof -
  let ?sc = "merge_srv_conf (ht_http h) (ht_servers h ! i)"
  have m: "?sc \<in> set (merged h)" using assms(2) by (auto simp: merged_def)
  have "sc_enabled ?sc \<noteq> 0" using assms(3) by (simp add: conf_slot_def worker_srv_def Let_def)
  with merged_usable [OF assms(1) m] show ?thesis
    by (auto simp: srv_usable_def fmt_usable_def slot_width_def conf_slot_def worker_srv_def srv_db_def Let_def)
qed

lemma conf_slots_iff:
  "s \<in> set (conf_slots hs) \<longleftrightarrow> (\<exists>g i. g < length hs \<and> i < length (ht_servers (hs ! g)) \<and> s = conf_slot g (hs ! g) i)"
proof
  assume "s \<in> set (conf_slots hs)"
  then obtain g i where "g < length hs" "i < length (ht_servers (hs ! g))" "s = conf_slot g (hs ! g) i"
    by (auto simp: conf_slots_def)
  then show "\<exists>g i. g < length hs \<and> i < length (ht_servers (hs ! g)) \<and> s = conf_slot g (hs ! g) i" by blast
next
  assume "\<exists>g i. g < length hs \<and> i < length (ht_servers (hs ! g)) \<and> s = conf_slot g (hs ! g) i"
  then obtain g i where gi: "g < length hs" "s \<in> conf_slot g (hs ! g) ` {0..<length (ht_servers (hs ! g))}" by auto
  then have "\<exists>g\<in>{0..<length hs}. s \<in> conf_slot g (hs ! g) ` {0..<length (ht_servers (hs ! g))}"
    by (intro bexI [of _ g]) simp_all
  then show "s \<in> set (conf_slots hs)" by (simp add: conf_slots_def)
qed

lemma configured_zones:
  assumes ok: "\<And>h. h \<in> set hs \<Longrightarrow> http_ok A h" and agree: "zones_agree hs"
    and laws: "slab_law (dp_slab D) live" "list_law (dp_list D) nalloc"
    and fresh: "\<And>k. init_shm_zone (dp_slab D) None (pools k) = (NGX_OK, Some (zones k))"
  shows "\<exists>zs. (\<forall>k. zone_ready (zs k) (zones k)) \<and>
    (\<forall>s\<in>set (conf_slots hs). sv_enabled (sl_srv s) \<noteq> 0 \<longrightarrow> zone_fits (zs (sl_zone s)) D (sv_db (sl_srv s)))"
proof -
  let ?P = "\<lambda>s. s \<in> set (conf_slots hs) \<and> sv_enabled (sl_srv s) \<noteq> 0"
  have same: "slot_width s = slot_width t" if "?P s" "?P t" "sl_zone s = sl_zone t" for s t
    using agree that unfolding zones_agree_def by blast
  have pos: "0 < slot_width s" if "?P s" for s
    using that conf_slot_usable [OF ok] by (force simp: conf_slots_iff)
  obtain w where w: "\<And>s. ?P s \<Longrightarrow> w (sl_zone s) = slot_width s" "\<And>k. 0 < w k"
    by (rule common_width [where P = ?P and f = sl_zone and W = slot_width, OF same pos]) auto
  let ?zs = "\<lambda>k. \<lparr>zn_slab = dp_slab D, zn_live = live, zn_base = live (sh_pool (zones k)), zn_list = dp_list D,
    zn_nalloc = nalloc, zn_width = w k, zn_buf = \<lparr>buf_max = 0, buf_flush = 0, buf_event = None\<rparr>\<rparr>"
  have "zone_ready (?zs k) (zones k)" for k
    using init_shm_zone_fresh [OF fresh [of k], of live] laws w(2) by (simp add: zone_ready_def zone_good_def)
  moreover have "zone_fits (?zs (sl_zone s)) D (sv_db (sl_srv s))" if "?P s" for s
    using w(1) [OF that] by (simp add: zone_fits_def slot_width_def)
  ultimately show ?thesis by (intro exI [of _ ?zs] conjI allI ballI impI) blast+
qed

text \<open>
  How every worker of an accepted configuration starts: the zones have one description for all of
  them.
\<close>

definition configured :: "'w http_state list \<Rightarrow> ('w, 'p) process \<Rightarrow> bool" where
  "configured hs p \<longleftrightarrow> (\<exists>g<length hs. \<exists>zones m tp s. p = configured_process g (hs ! g) zones m tp s)"

lemma configured_started:
  assumes "toupper_law (ca_toupper (da_conf A))" and "\<forall>h\<in>set hs. accepted_conf A threads h"
    and "zones_agree hs" and "\<not> da_event_timer_set A"
    and "conn_law (dp_sqlite D) conns" and "slab_law (dp_slab D) live" and "list_law (dp_list D) nalloc"
    and "\<And>k. init_shm_zone (dp_slab D) None (pools k) = (NGX_OK, Some (zones k))"
  shows "\<exists>zs. (\<forall>k. zone_ready (zs k) (zones k)) \<and>
    (\<forall>p0 rc p. configured hs p0 \<and> (\<forall>k. zone_ready (zs k) (pr_zones p0 k)) \<and> init_worker D p0 = (rc, p) \<longrightarrow>
      rc = NGX_OK \<and> process_ok zs D p \<and> linked p \<and> no_tasks p)"
proof -
  have ok: "http_ok A h" if "h \<in> set hs" for h using accepted_conf_ok [OF assms(1) bspec [OF assms(2) that]] .
  obtain zs where ready: "\<forall>k. zone_ready (zs k) (zones k)"
    and fits: "\<forall>s\<in>set (conf_slots hs). sv_enabled (sl_srv s) \<noteq> 0 \<longrightarrow>
      zone_fits (zs (sl_zone s)) D (sv_db (sl_srv s))"
    using configured_zones [OF ok assms(3,6,7), of pools zones, OF _ assms(8)] by blast
  have "rc = NGX_OK \<and> process_ok zs D p \<and> linked p \<and> no_tasks p"
    if p0: "configured hs p0" and now: "\<forall>k. zone_ready (zs k) (pr_zones p0 k)" and run: "init_worker D p0 = (rc, p)"
    for p0 rc p
  proof -
    obtain g zones m tp s where g: "g < length hs" "p0 = configured_process g (hs ! g) zones m tp s"
      using p0 by (auto simp: configured_def)
    then have "hs ! g \<in> set hs" by simp
    from configured_unstarted [OF ok [OF this] assms(4)] g(2) have un: "unstarted p0" by simp
    have st: "started_upto conns (length (pr_srvs p0)) p0 p" and rc: "rc = NGX_OK"
      using init_slots_spec [OF assms(5) un order_refl] run by (simp_all add: init_worker_def)
    have "zone_fits (zs (sl_zone sl)) D (sv_db (sl_srv sl))"
      if "i < length (pr_srvs p0)" "pr_srvs p0 ! i = Some sl" "sv_enabled (sl_srv sl) \<noteq> 0" for i sl
    proof -
      have "sl \<in> set (conf_slots hs)" using that(1,2) g by (auto simp: configured_process_def conf_slots_iff)
      with fits that(3) show ?thesis by blast
    qed
    then have "process_ok zs D p" using now by (intro started_ok [OF un st]) simp_all
    with rc started_linked [OF un st] started_no_tasks [OF un st] show ?thesis by simp
  qed
  with ready show ?thesis by blast
qed

text \<open>
  What the configuration guarantees to a worker process: no zone is locked or was touched without its
  mutex, every queued entry has one field per column of the format of every enabled server that uses
  the zone, and the context of every running flush timer points to a server with that buffer.
\<close>

definition process_safe :: "('w, 'p) process \<Rightarrow> bool" where
  "process_safe p \<longleftrightarrow> (\<forall>k. \<not> sh_held (pr_zones p k) \<and> \<not> sh_fault (pr_zones p k)) \<and>
    (\<forall>i<length (pr_srvs p). \<forall>sl. pr_srvs p ! i = Some sl \<and> sv_enabled (sl_srv sl) \<noteq> 0 \<longrightarrow>
      (\<forall>e\<in>set (entries (pr_zones p (sl_zone sl))). length e = length (fmt_columns (db_fmt (sv_db (sl_srv sl)))))) \<and>
    (\<forall>k<length (pr_bufs p). timer_on (sb_buf (pr_bufs p ! k)) \<longrightarrow>
      (\<exists>i sl. sb_db (pr_bufs p ! k) = Some i \<and> i < length (pr_srvs p) \<and> pr_srvs p ! i = Some sl \<and> sl_buf sl = Some k))"

lemma process_is_safe:
  assumes ok: "process_ok zs D p" and link: "linked p"
  shows "process_safe p"
proof -
  have ready: "zone_ready (zs k) (pr_zones p k)" for k using ok by (simp add: process_ok_def)
  have "length e = length (fmt_columns (db_fmt (sv_db (sl_srv sl))))"
    if "i < length (pr_srvs p)" "pr_srvs p ! i = Some sl \<and> sv_enabled (sl_srv sl) \<noteq> 0"
      "e \<in> set (entries (pr_zones p (sl_zone sl)))" for i sl e
    using awake [OF ok that(1)] that(2,3) ready_entries(1) [OF ready]
    by (fastforce simp: slot_ok_def zone_fits_def)
  moreover have "\<exists>i sl. sb_db (pr_bufs p ! k) = Some i \<and> i < length (pr_srvs p) \<and> pr_srvs p ! i = Some sl \<and>
      sl_buf sl = Some k" if k: "k < length (pr_bufs p)" "timer_on (sb_buf (pr_bufs p ! k))" for k
    using linkedD(3,4) [OF link k(1)] k(2) by blast
  ultimately show ?thesis using ready by (simp add: process_safe_def zone_ready_def)
qed

definition example_zone_id :: zone_id where
  "example_zone_id = Zone ''sqlitelog_f_/etc/nginx/log.db'' (the (map_of (ht_zones example_http) ''sqlitelog_f_/etc/nginx/log.db''))"

lemma example_agrees: "zones_agree [example_http]"
  by (simp add: zones_agree_def conf_slots_def example_http_def)

lemma example_accepted: "\<forall>h\<in>set [example_http]. accepted_conf mem_directives True h"
  using example_http_eval(1) example_http_reached by (auto simp: accepted_conf_def)

text \<open>
  C1. From accepted configurations to all workers, across reloads: whatever directives were read, in
  whatever order, and whatever the interleaving of the event loops and threads of any number of
  workers of these configurations, each of which starts and exits at any time. In every zone, every
  entry that a request built is, as often as it was built, committed, dropped with an error, still
  queued, or in the hands of a server, a posted task or a thread: nothing is stored twice, and
  nothing is lost silently. No zone is left locked or was touched without its mutex; every queued
  entry has one field per column of the format of every enabled server that uses the zone; and no
  flush event meets a NULL flush context. Servers with the same zone must have formats of the same
  width, and the memory of the flush events must start cleared, which the code does not ensure.
\<close>

theorem configured_system_safe:
  assumes "toupper_law (ca_toupper (da_conf A))" and "\<forall>h\<in>set hs. accepted_conf A threads h"
    and "zones_agree hs" and "\<not> da_event_timer_set A"
    and "conn_law (dp_sqlite D) conns" and "slab_law (dp_slab D) live" and "list_law (dp_list D) nalloc"
    and "\<And>k. init_shm_zone (dp_slab D) None (pools k) = (NGX_OK, Some (zones k))"
    and "system_run D (configured hs) (no_workers zones sys) evs y"
  shows "(\<forall>k. mset (received (events_at k evs)) = mset (stored (events_at k evs)) + mset (lost (events_at k evs)) +
      mset (entries (sy_zones y k)) + system_hands k y) \<and>
    (\<forall>w<length (sy_workers y). process_safe (in_worker y w))"
proof -
  obtain zs where ready: "\<forall>k. zone_ready (zs k) (zones k)"
    and st: "\<forall>p0 rc p. configured hs p0 \<and> (\<forall>k. zone_ready (zs k) (pr_zones p0 k)) \<and> init_worker D p0 = (rc, p) \<longrightarrow>
      rc = NGX_OK \<and> process_ok zs D p \<and> linked p \<and> no_tasks p"
    using configured_started [OF assms(1-7), of pools zones, OF assms(8)] by blast
  then have "starts_well zs D (configured hs)" by (auto simp: starts_well_def)
  note run = system_run_ok [OF assms(9) no_workers_ok(1) [OF spec [OF ready]] this]
  have "entries (zones k) = []" for k using init_shm_zone_fresh [OF assms(8)] by blast
  then have "mset (received (events_at k evs)) = mset (stored (events_at k evs)) + mset (lost (events_at k evs)) +
      mset (entries (sy_zones y k)) + system_hands k y" for k
    using run [of k] by (simp add: no_workers_def system_hands_def)
  moreover have "process_safe (in_worker y w)" if "w < length (sy_workers y)" for w
  proof -
    have "places_ok zs D (places y w) (in_worker y w)" using run that by (simp add: system_ok_def)
    then show ?thesis by (intro process_is_safe) (auto dest: places_okD)
  qed
  ultimately show ?thesis by blast
qed

text \<open>
  A worker that has started the example configuration: its server is enabled, and a request to it
  comes to build a log entry with two fields.
\<close>

definition new_zone :: "slab_state shctx" where
  "new_zone = the (snd (init_shm_zone example_slab None (8, [])))"

definition started_process :: "(mem_sqlite, slab_state) process" where
  "started_process =
     snd (init_worker (example_deps mem_api) (configured_process 0 example_http (\<lambda>_. new_zone) [] False mem_start))"

definition started_summary :: "bool \<times> (bool \<times> string option \<times> zone_id \<times> nat) option list" where
  "started_summary =
     (let p = started_process
      in (pr_tp p, map (map_option (\<lambda>s. (sv_enabled (sl_srv s) = 1, sv_filter (sl_srv s), sl_zone s,
           case fst (build (example_deps mem_api) (example_request 150) (srv_view s p)) of
             Inl _ \<Rightarrow> 0 | Inr e \<Rightarrow> length e))) (pr_srvs p)))"

lemma started_eval: "started_summary = (False, [Some (True, None, example_zone_id, 2)])"
  by code_simp

lemma new_zone_eval: "init_shm_zone example_slab None (8, []) = (NGX_OK, Some new_zone)"
proof -
  have "fst (init_shm_zone example_slab None (8, [])) = NGX_OK \<and> snd (init_shm_zone example_slab None (8, [])) \<noteq> None"
    by code_simp
  then show ?thesis by (cases "init_shm_zone example_slab None (8, [])") (auto simp: new_zone_def)
qed

lemma started_server:
  obtains s e r' m where "pr_srvs started_process ! 0 = Some s" and "length (pr_srvs started_process) = 1"
    and "\<not> pr_tp started_process" and "sv_enabled (sl_srv s) = 1" and "sv_filter (sl_srv s) = None"
    and "sl_zone s = example_zone_id"
    and "build (example_deps mem_api) (example_request 150) (srv_view s started_process) = (Inr e, r', m)"
proof -
  note ev = started_eval [unfolded started_summary_def Let_def]
  have len: "length (pr_srvs started_process) = 1"
    using arg_cong [OF ev, of "\<lambda>x. length (snd x)"] by simp
  obtain en r' m where b: "\<And>s. pr_srvs started_process ! 0 = Some s \<Longrightarrow>
      build (example_deps mem_api) (example_request 150) (srv_view s started_process) = (en, r', m)"
    by (cases "pr_srvs started_process ! 0") (auto, metis prod.collapse)
  have "map_option (\<lambda>s. (sv_enabled (sl_srv s) = 1, sv_filter (sl_srv s), sl_zone s,
      case fst (build (example_deps mem_api) (example_request 150) (srv_view s started_process)) of
        Inl _ \<Rightarrow> 0 | Inr e \<Rightarrow> length e)) (pr_srvs started_process ! 0) =
      Some (True, None, example_zone_id, 2)"
    using arg_cong [OF ev, of "\<lambda>x. snd x ! 0"] len by simp
  then obtain s where s: "pr_srvs started_process ! 0 = Some s" "sv_enabled (sl_srv s) = 1" "sv_filter (sl_srv s) = None"
      "sl_zone s = example_zone_id" "(case en of Inl _ \<Rightarrow> 0 | Inr e \<Rightarrow> length e) = 2"
    using b by auto
  then obtain e where "en = Inr e" by (cases en) auto
  with s len b [OF s(1)] arg_cong [OF ev, of fst] that show thesis by simp
qed

abbreviation empty_system :: "(mem_sqlite, slab_state) system" where
  "empty_system \<equiv> no_workers (\<lambda>_. new_zone) mem_start"

lemma started_alone:
  "system_run (example_deps mem_api) (configured [example_http]) empty_system []
     (add_worker (start_places 1 started_process) started_process empty_system)"
proof -
  let ?D = "example_deps mem_api" and ?new = "configured_process 0 example_http (\<lambda>_. new_zone) [] False mem_start"
  have "init_worker ?D ?new = (fst (init_worker ?D ?new), started_process)" by (simp add: started_process_def)
  from system_run.Worker [OF system_run.Start _ _ _ this, of "configured [example_http]" empty_system 1]
  show ?thesis by (simp add: no_workers_def configured_def) (auto simp: configured_process_def)
qed

lemma started_run:
  "\<exists>y e. system_run (example_deps mem_api) (configured [example_http]) empty_system
     [(example_zone_id, Received e)] y \<and> length (sy_workers y) = 1"
proof -
  let ?D = "example_deps mem_api" and ?r = "example_request 150" and ?z = "example_zone_id"
  obtain s e r' m where s: "pr_srvs started_process ! 0 = Some s" "length (pr_srvs started_process) = 1"
      "\<not> pr_tp started_process" "sv_enabled (sl_srv s) = 1" "sv_filter (sl_srv s) = None" "sl_zone s = ?z"
      "build ?D ?r (srv_view s started_process) = (Inr e, r', m)"
    by (rule started_server)
  define y0 where "y0 = add_worker (start_places 1 started_process) started_process empty_system"
  have run0: "system_run ?D (configured [example_http]) empty_system [] y0" unfolding y0_def by (rule started_alone)
  define q where "q = started_process\<lparr>pr_zones := \<lambda>_. new_zone, pr_sys := pr_sys started_process\<rparr>"
  let ?v = "srv_view s q" and ?w = "(srv_view s q)\<lparr>wd_mem := m\<rparr>"
  have q: "pr_srvs q ! 0 = Some s" "length (pr_srvs q) = 1" "\<not> pr_tp q" using s(1-3) by (simp_all add: q_def)
  have b: "build ?D ?r ?v = (Inr e, r', m)" using s(7) by (simp add: q_def)
  define y where "y = from_worker 0 [(Building ?r, [None])] q y0"
  have places: "places y0 0 = [(Idle, [None])]" "in_worker y0 0 = q" "length (sy_workers y0) = 1"
    "places y 0 = [(Building ?r, [None])]" "in_worker y 0 = q" "length (sy_workers y) = 1"
    using s(2) by (simp_all add: y_def y0_def from_worker_def places_def in_worker_def add_worker_def no_workers_def
      start_places_def q_def)
  have "act ?D Idle ?v [] (Building ?r) ?v"
    using s(4,5) q(3) by (intro act.Begin) (simp_all add: accepted_def srv_view_def)
  then have "worker_act ?D (Idle, [None]) ?v [] (Building ?r, [None]) ?v" by (intro worker_act.Loop loop_act.Plain)
  then have "process_act ?D (places y0 0) (in_worker y0 0) ?z [] [(Building ?r, [None])] q"
    using process_act.Loop [of 0 q s "[(Idle, [None])]" ?D "[]" "(Building ?r, [None])" ?v] q places s(6) put_view [OF q(1)]
    by simp
  from system_run.Step [OF run0 _ this] places(3)
  have run: "system_run ?D (configured [example_http]) empty_system [] y" by (simp add: y_def)
  have "worker_act ?D (Building ?r, [None]) ?v [Received e] (Handling e, [None]) ?w"
    by (intro worker_act.Loop loop_act.Plain act.Build [OF b])
  then have "process_act ?D (places y 0) (in_worker y 0) ?z [Received e] [(Handling e, [None])] (put_back 0 s ?w q)"
    using process_act.Loop [of 0 q s "[(Building ?r, [None])]" ?D "[Received e]" "(Handling e, [None])" ?w] q places s(6)
    by simp
  from system_run.Step [OF run _ this] places(6) show ?thesis
    by (intro exI [of _ "from_worker 0 [(Handling e, [None])] (put_back 0 s ?w q) y"] exI [of _ e]) (simp add: from_worker_def)
qed

theorem configured_system_safe_witness:
  "\<exists>y e. system_run (example_deps mem_api) (configured [example_http]) empty_system
       [(example_zone_id, Received e)] y \<and>
     mset (entries (sy_zones y (example_zone_id))) +
       system_hands (example_zone_id) y = {#e#} \<and>
     length (sy_workers y) = 1 \<and> process_safe (in_worker y 0)"
proof -
  let ?D = "example_deps mem_api" and ?z = "example_zone_id"
  obtain y e where run: "system_run ?D (configured [example_http]) empty_system [(?z, Received e)] y"
      and one: "length (sy_workers y) = 1"
    using started_run by blast
  have off: "\<not> da_event_timer_set mem_directives" by (simp add: example_api_def)
  have laws: "conn_law (dp_sqlite ?D) mem_conns" "slab_law (dp_slab ?D) example_live" "list_law (dp_list ?D) fst"
    using mem_conn_law example_slab_law example_list_law by simp_all
  have zone: "init_shm_zone (dp_slab ?D) None (8, []) = (NGX_OK, Some new_zone)" using new_zone_eval by simp
  from configured_system_safe [OF example_toupper example_accepted example_agrees off laws,
      of "\<lambda>_. (8, [])" "\<lambda>_. new_zone", OF zone run]
  have "mset (received (events_at ?z [(?z, Received e)])) = mset (stored (events_at ?z [(?z, Received e)])) +
      mset (lost (events_at ?z [(?z, Received e)])) + mset (entries (sy_zones y ?z)) + system_hands ?z y"
    "process_safe (in_worker y 0)"
    using one by (blast, simp)
  moreover have "events_at ?z [(?z, Received e)] = [Received e]" by (simp add: events_at_def)
  ultimately show ?thesis using run one by (intro exI [of _ y] exI [of _ e]) simp
qed

end
